(* ===== verification/Prelude.thy ===== *)
theory Prelude
  imports Main "HOL-Library.Word"
begin

text \<open>
  Shared vocabulary of the development: undefined behaviour of the C++ sources as
  values of type \<open>fault\<close>, fallible results, typed heaps of nodes addressed by
  natural numbers, linked segments over such heaps, and bounds-checked arrays.
  The lemmas on segments are what the pointer components (the garbage-collection
  queue, the version lists, the two-way list of InnoDB) share.
\<close>

section \<open>Faults and fallible results\<close>

text \<open>
  A C++ statement with undefined behaviour has no successor state; the model returns
  the reason instead. \<open>AssertFail\<close> stands for a failed \<open>ut_a\<close> (the server aborts), \<open>BadFree\<close> for
  freeing a pointer the allocator did not return.
\<close>

datatype fault = NullDeref | UseAfterFree | OutOfBounds | Uninit | IntOverflow
  | DivZero | AssertFail | BadFree

type_synonym 'a res = "fault + 'a"

type_synonym addr = nat

type_synonym ptr = "addr option"

named_theorems res_simps \<open>rewriting of fallible results\<close>
named_theorems seg_simps \<open>linked segments under heap updates\<close>

definition rbind :: "'a res \<Rightarrow> ('a \<Rightarrow> 'b res) \<Rightarrow> 'b res" where
  "rbind m f = (case m of Inl e \<Rightarrow> Inl e | Inr x \<Rightarrow> f x)"

text \<open>A loop that may run forever returns \<open>None\<close>; \<open>obind\<close> sequences such loops.\<close>

definition obind :: "'a res option \<Rightarrow> ('a \<Rightarrow> 'b res option) \<Rightarrow> 'b res option" where
  "obind m f = (case m of None \<Rightarrow> None | Some (Inl e) \<Rightarrow> Some (Inl e) | Some (Inr x) \<Rightarrow> f x)"

definition deref :: "(addr \<rightharpoonup> 'n) \<Rightarrow> ptr \<Rightarrow> 'n res" where
  "deref h p = (case p of None \<Rightarrow> Inl NullDeref
     | Some a \<Rightarrow> (case h a of None \<Rightarrow> Inl UseAfterFree | Some x \<Rightarrow> Inr x))"

definition aget :: "'a list \<Rightarrow> nat \<Rightarrow> 'a res" where
  "aget xs i = (if i < length xs then Inr (xs ! i) else Inl OutOfBounds)"

definition aset :: "'a list \<Rightarrow> nat \<Rightarrow> 'a \<Rightarrow> 'a list res" where
  "aset xs i v = (if i < length xs then Inr (xs[i := v]) else Inl OutOfBounds)"

section \<open>Linked segments\<close>

text \<open>
  \<open>seg lk h p as q\<close>: starting at \<open>p\<close> and following the link field \<open>lk\<close>, the heap
  holds exactly the nodes \<open>as\<close>, and the last link is \<open>q\<close>.
\<close>

fun seg :: "('n \<Rightarrow> ptr) \<Rightarrow> (addr \<rightharpoonup> 'n) \<Rightarrow> ptr \<Rightarrow> addr list \<Rightarrow> ptr \<Rightarrow> bool" where
  "seg lk h p [] q \<longleftrightarrow> p = q"
| "seg lk h p (a # as) q \<longleftrightarrow>
     p = Some a \<and> (case h a of None \<Rightarrow> False | Some x \<Rightarrow> seg lk h (lk x) as q)"

abbreviation chain :: "('n \<Rightarrow> ptr) \<Rightarrow> (addr \<rightharpoonup> 'n) \<Rightarrow> ptr \<Rightarrow> addr list \<Rightarrow> bool" where
  "chain lk h p as \<equiv> seg lk h p as None"

section \<open>Lemmas on results\<close>

lemma rbind_Inl [simp, res_simps]: "rbind (Inl e) f = Inl e"
  by (simp add: rbind_def)

lemma rbind_Inr [simp, res_simps]: "rbind (Inr x) f = f x"
  by (simp add: rbind_def)

lemma rbind_eq_Inr_iff [res_simps]: "rbind m f = Inr y \<longleftrightarrow> (\<exists>x. m = Inr x \<and> f x = Inr y)"
  by (cases m) auto

lemma rbind_cong:
  "m = m' \<Longrightarrow> (\<And>x. m' = Inr x \<Longrightarrow> f x = g x) \<Longrightarrow> rbind m f = rbind m' g"
  by (cases m') auto

lemma obind_simps [simp, res_simps]:
  "obind None f = None"
  "obind (Some (Inl e)) f = Some (Inl e)"
  "obind (Some (Inr x)) f = f x"
  by (simp_all add: obind_def)

lemma deref_simps [simp, res_simps]:
  "deref h None = Inl NullDeref"
  "h a = Some x \<Longrightarrow> deref h (Some a) = Inr x"
  "h a = None \<Longrightarrow> deref h (Some a) = Inl UseAfterFree"
  by (simp_all add: deref_def)

lemma deref_eq_Inr_iff [res_simps]: "deref h p = Inr x \<longleftrightarrow> (\<exists>a. p = Some a \<and> h a = Some x)"
  by (auto simp: deref_def split: option.splits)

lemma aget_simps [simp, res_simps]:
  "i < length xs \<Longrightarrow> aget xs i = Inr (xs ! i)"
  "\<not> i < length xs \<Longrightarrow> aget xs i = Inl OutOfBounds"
  by (simp_all add: aget_def)

lemma aget_eq_Inr_iff [res_simps]: "aget xs i = Inr v \<longleftrightarrow> i < length xs \<and> v = xs ! i"
  by (auto simp: aget_def)

lemma aset_simps [simp, res_simps]:
  "i < length xs \<Longrightarrow> aset xs i v = Inr (xs[i := v])"
  "\<not> i < length xs \<Longrightarrow> aset xs i v = Inl OutOfBounds"
  by (simp_all add: aset_def)

lemma aset_eq_Inr_iff [res_simps]:
  "aset xs i v = Inr ys \<longleftrightarrow> i < length xs \<and> ys = xs[i := v]"
  by (auto simp: aset_def)

section \<open>Lemmas on segments\<close>

lemma seg_append [seg_simps]:
  "seg lk h p (as @ bs) q \<longleftrightarrow> (\<exists>r. seg lk h p as r \<and> seg lk h r bs q)"
  by (induction as arbitrary: p) (auto split: option.splits)

lemma seg_dom: "seg lk h p as q \<Longrightarrow> a \<in> set as \<Longrightarrow> a \<in> dom h"
  by (induction as arbitrary: p) (auto split: option.splits)

lemma seg_upd_other [seg_simps]:
  "a \<notin> set as \<Longrightarrow> seg lk (h(a := v)) p as q = seg lk h p as q"
  by (induction as arbitrary: p) (auto split: option.splits)

lemma seg_upd_same_link [seg_simps]:
  "h a = Some x \<Longrightarrow> lk y = lk x \<Longrightarrow> seg lk (h(a \<mapsto> y)) p as q = seg lk h p as q"
  by (induction as arbitrary: p) (auto split: option.splits)

lemma chain_unique: "chain lk h p as \<Longrightarrow> chain lk h p bs \<Longrightarrow> as = bs"
proof (induction as arbitrary: p bs)
  case Nil
  then show ?case by (cases bs) auto
next
  case (Cons a as)
  then show ?case by (cases bs) (auto split: option.splits)
qed

lemma chain_Nil_iff [simp]: "chain lk h None as \<longleftrightarrow> as = []"
  by (cases as) auto

lemma chain_hd: "chain lk h (Some a) as \<Longrightarrow> \<exists>bs x. as = a # bs \<and> h a = Some x \<and> chain lk h (lk x) bs"
  by (cases as) (auto split: option.splits)

lemma chain_suffix:
  "chain lk h p (as @ a # bs) \<Longrightarrow> \<exists>x. h a = Some x \<and> chain lk h (lk x) bs"
  by (auto simp: seg_append split: option.splits)

lemma chain_distinct: "chain lk h p as \<Longrightarrow> distinct as"
proof (induction as arbitrary: p)
  case (Cons a as)
  then obtain x where x: "h a = Some x" "chain lk h (lk x) as"
    by (auto split: option.splits)
  have "a \<notin> set as"
  proof
    assume "a \<in> set as"
    then obtain us vs where as: "as = us @ a # vs" by (auto simp: in_set_conv_decomp)
    with x obtain y where "h a = Some y" "chain lk h (lk y) vs"
      using chain_suffix by metis
    with x have "as = vs" by (auto dest: chain_unique)
    with as show False by simp
  qed
  with Cons.IH [OF x(2)] show ?case by simp
qed simp

text \<open>Appending one node at the end of a chain by writing the last node's link.\<close>

lemma chain_snoc:
  assumes "chain lk h p (as @ [b])" and "h b = Some x" and "a \<notin> set (as @ [b])"
    and "lk x' = Some a" and "lk y = None"
  shows "chain lk (h(b \<mapsto> x', a \<mapsto> y)) p (as @ [b, a])"
proof -
  from assms(1) have b: "b \<notin> set as" using chain_distinct by fastforce
  from assms(1) have "seg lk h p as (Some b)" by (auto simp: seg_append)
  with b assms(3) have "seg lk (h(b \<mapsto> x', a \<mapsto> y)) p as (Some b)"
    by (simp add: seg_upd_other)
  with assms show ?thesis by (auto simp: seg_append)
qed

text \<open>Unlinking an inner node: the predecessor's link skips it.\<close>

lemma chain_unlink:
  assumes "chain lk h p (as @ b # c # cs)" and "h b = Some x" and "h c = Some y"
    and "lk x' = lk y"
  shows "chain lk ((h(b \<mapsto> x'))(c := None)) p (as @ b # cs)"
proof -
  from assms(1) have d: "distinct (as @ b # c # cs)" by (rule chain_distinct)
  from assms(1-3) have "seg lk h p as (Some b)" "chain lk h (lk y) cs"
    by (auto simp: seg_append)
  with d assms(4) show ?thesis by (auto simp: seg_append seg_upd_other)
qed

section \<open>Lemmas on lists\<close>

lemma count_list_remove1:
  "count_list (remove1 x xs) y = (if y = x then count_list xs y - 1 else count_list xs y)"
  by (induction xs) (auto simp: count_list_0_iff intro: gr0I)

lemma replicate_numeral: "replicate (numeral k) x = x # replicate (pred_numeral k) x"
  by (simp add: numeral_eq_Suc)

text \<open>A list of threads of which one makes a step.\<close>

definition n_of :: "('a \<Rightarrow> bool) \<Rightarrow> 'a list \<Rightarrow> nat" where
  "n_of P ps = length (filter P ps)"

lemma n_of_update:
  "t < length ps \<Longrightarrow> n_of P (ps[t := x]) + of_bool (P (ps ! t)) = n_of P ps + of_bool (P x)"
proof (induction ps arbitrary: t)
  case (Cons p ps)
  then show ?case by (cases t) (auto simp: n_of_def)
qed simp

lemma n_of_pos: "0 < n_of P ps \<longleftrightarrow> (\<exists>p\<in>set ps. P p)"
  by (auto simp: n_of_def filter_empty_conv)

lemma n_of_unique:
  assumes "n_of P ps \<le> 1" and "i < length ps" "P (ps ! i)" and "j < length ps" "P (ps ! j)"
  shows "i = j"
proof (rule ccontr)
  assume "i \<noteq> j"
  have "finite {k. k < length ps \<and> P (ps ! k)}" by simp
  moreover have "{i, j} \<subseteq> {k. k < length ps \<and> P (ps ! k)}" using assms by auto
  ultimately have "card {i, j} \<le> card {k. k < length ps \<and> P (ps ! k)}" by (rule card_mono)
  with \<open>i \<noteq> j\<close> assms(1) show False by (simp add: n_of_def length_filter_conv_card)
qed

lemma n_of_replicate: "\<not> P x \<Longrightarrow> n_of P (replicate n x) = 0"
  by (simp add: n_of_def)

lemma in_set_update: "t < length ps \<Longrightarrow> v \<in> set ps \<Longrightarrow> v \<noteq> ps ! t \<Longrightarrow> v \<in> set (ps[t := x])"
  by (metis in_set_conv_nth length_list_update nth_list_update_neq)

lemma own_in_update: "t < length ps \<Longrightarrow> x \<in> set (ps[t := x])"
  by (simp add: set_update_memI)

lemma ball_update:
  "t < length ps \<Longrightarrow> \<forall>v\<in>set ps. P v \<Longrightarrow> P x \<Longrightarrow> \<forall>v\<in>set (ps[t := x]). P v"
  using set_update_subset_insert [of ps t x] by blast

end
