(* ===== verification/ActiveList.thy ===== *)
theory ActiveList
  imports Prelude
begin

text \<open>
  The global active list of Project2 (src/Project2/src/Project2.cpp): which thread is
  updating, and at which version. The nodes of the list are reachable only through its
  header, so the linked list is a HOL list, the header being its first element.
  The lemmas give each operation by its effect on the entries: insertion, deletion of
  one thread's entry, and the capture (a reversed copy) with its lookup.
\<close>

section \<open>Definitions\<close>

record ActiveNode =
  index_thread :: nat
  aversion :: nat

definition InsertGlobalActiveList :: "nat \<Rightarrow> nat \<Rightarrow> ActiveNode list \<Rightarrow> ActiveNode list" where
  "InsertGlobalActiveList index version g_active_list =
     \<lparr>index_thread = index, aversion = version\<rparr> # g_active_list"

text \<open>The walk with \<open>current_node\<close> and \<open>back_node\<close>: unlink and free the first match.\<close>

fun DeleteGlobalActiveList :: "nat \<Rightarrow> ActiveNode list \<Rightarrow> ActiveNode list" where
  "DeleteGlobalActiveList index [] = []"
| "DeleteGlobalActiveList index (n # ns) =
     (if index_thread n = index then ns else n # DeleteGlobalActiveList index ns)"

definition InsertCaptureActiveList ::
  "ActiveNode list \<Rightarrow> nat \<Rightarrow> nat \<Rightarrow> ActiveNode list" where
  "InsertCaptureActiveList c_active_list index version =
     \<lparr>index_thread = index, aversion = version\<rparr> # c_active_list"

fun capture_loop :: "ActiveNode list \<Rightarrow> ActiveNode list \<Rightarrow> ActiveNode list" where
  "capture_loop [] c_active_list = c_active_list"
| "capture_loop (tmp # rest) c_active_list =
     capture_loop rest (InsertCaptureActiveList c_active_list (index_thread tmp) (aversion tmp))"

definition CaptureActiveList :: "ActiveNode list \<Rightarrow> ActiveNode list" where
  "CaptureActiveList g_active_list = capture_loop g_active_list []"

text \<open>Freeing the captured copy node by node: what is still allocated afterwards.\<close>

fun DeleteCaptureActiveListAll :: "ActiveNode list \<Rightarrow> ActiveNode list" where
  "DeleteCaptureActiveListAll [] = []"
| "DeleteCaptureActiveListAll (back # current) = DeleteCaptureActiveListAll current"

text \<open>The search of the captured list in \<open>ThreadFunc\<close> for the picked thread.\<close>

fun find_active :: "nat \<Rightarrow> ActiveNode list \<Rightarrow> nat option" where
  "find_active picked [] = None"
| "find_active picked (n # ns) =
     (if index_thread n = picked then Some (aversion n) else find_active picked ns)"

section \<open>Lemmas\<close>

lemma set_DeleteGlobalActiveList:
  "distinct (map index_thread ns) \<Longrightarrow>
   set (DeleteGlobalActiveList i ns) = {n \<in> set ns. index_thread n \<noteq> i}"
proof (induction ns)
  case (Cons n ns)
  then have "index_thread n \<notin> index_thread ` set ns" by simp
  then have "\<forall>m \<in> set ns. index_thread m \<noteq> index_thread n" by (metis imageI)
  with Cons show ?case by auto
qed simp

lemma map_index_DeleteGlobalActiveList:
  "map index_thread (DeleteGlobalActiveList i ns) = remove1 i (map index_thread ns)"
  by (induction ns) auto

lemma capture_loop_rev: "capture_loop ns cs = rev ns @ cs"
  by (induction ns arbitrary: cs) (auto simp: InsertCaptureActiveList_def)

lemma CaptureActiveList_rev: "CaptureActiveList ns = rev ns"
  by (simp add: CaptureActiveList_def capture_loop_rev)

lemma DeleteCaptureActiveListAll_empty [simp]: "DeleteCaptureActiveListAll ns = []"
  by (induction ns) auto

lemma find_active_Some_iff:
  "distinct (map index_thread ns) \<Longrightarrow>
   find_active p ns = Some v \<longleftrightarrow> \<lparr>index_thread = p, aversion = v\<rparr> \<in> set ns"
proof (induction ns)
  case (Cons n ns)
  then have "index_thread n \<notin> index_thread ` set ns" by simp
  then have "\<forall>m \<in> set ns. index_thread m \<noteq> index_thread n" by (metis imageI)
  with Cons show ?case by (cases n) auto
qed simp

lemma find_active_None_iff: "find_active p ns = None \<longleftrightarrow> p \<notin> index_thread ` set ns"
  by (induction ns) auto

end
