(* ===== verification/GcQueue.thy ===== *)
theory GcQueue
  imports Prelude
begin

text \<open>
  The garbage-collection queue of Project2 (\<open>Queue\<close>, \<open>QueueNode\<close>, \<open>CreateQueue\<close>,
  \<open>AddRear\<close>, \<open>RemoveFront\<close>, \<open>RemoveVersion\<close>, \<open>DestroyQueue\<close> of
  src/Project2/src/Project2.cpp) with its nodes on a heap: \<open>front\<close> and \<open>rear\<close> alias
  the same nodes. The nodes of one queue are reached through that queue only, so each
  queue carries its own part of the heap (\<open>qcells\<close>); the address of a node that
  \<open>malloc\<close> returns is an argument. \<open>qlist\<close> reads the queue as a list of versions; the
  locale \<open>version_queue\<close> is the contract the threads rely on, interpreted at the end.
\<close>

section \<open>Definitions\<close>

record QueueNode =
  qversion :: nat
  qlink :: ptr

record Queue =
  count :: nat
  minimum :: nat
  delete_front :: nat
  front :: ptr
  rear :: ptr
  qcells :: "addr \<rightharpoonup> QueueNode"

text \<open>
  \<open>malloc\<close> runs no default member initialiser: \<open>minimum\<close> and \<open>delete_front\<close> keep
  whatever the memory held, given here by the two arguments.
\<close>

definition CreateQueue :: "nat \<Rightarrow> nat \<Rightarrow> Queue" where
  "CreateQueue raw_minimum raw_delete_front =
     \<lparr>count = 0, minimum = raw_minimum, delete_front = raw_delete_front,
      front = None, rear = None, qcells = Map.empty\<rparr>"

text \<open>
  \<open>AddRear\<close> takes the version as an \<open>int\<close>: the 64-bit version is cut to 32 bits, read
  as signed, and sign-extended again when it is stored in the node.
\<close>

definition int_of_u64 :: "nat \<Rightarrow> int" where
  "int_of_u64 v = (let w = v mod 2 ^ 32 in if w < 2 ^ 31 then int w else int w - 2 ^ 32)"

definition u64_of_int :: "int \<Rightarrow> nat" where
  "u64_of_int i = nat (i mod 2 ^ 64)"

definition AddRear :: "addr \<Rightarrow> Queue \<Rightarrow> int \<Rightarrow> Queue res" where
  "AddRear a q version =
     (let new_node = \<lparr>qversion = u64_of_int version, qlink = None\<rparr>;
          q1 = q\<lparr>qcells := (qcells q)(a \<mapsto> new_node)\<rparr>
      in if count q = 0
         then Inr (q1\<lparr>front := Some a, rear := Some a, count := count q + 1\<rparr>)
         else rbind (deref (qcells q1) (rear q1)) (\<lambda>r.
           Inr (q1\<lparr>qcells := (qcells q1)(the (rear q1) \<mapsto> r\<lparr>qlink := Some a\<rparr>),
                   rear := Some a, count := count q + 1\<rparr>)))"

definition RemoveFront :: "Queue \<Rightarrow> Queue res" where
  "RemoveFront q =
     (if count q = 0 then Inr q
      else rbind (deref (qcells q) (front q)) (\<lambda>tmp.
        Inr (q\<lparr>front := qlink tmp, qcells := (qcells q)(the (front q) := None),
               count := count q - 1\<rparr>)))"

text \<open>The loop of \<open>RemoveVersion\<close> over \<open>current_node\<close> and \<open>back_node\<close>.\<close>

partial_function (option) RemoveVersion_loop ::
  "Queue \<Rightarrow> nat \<Rightarrow> ptr \<Rightarrow> ptr \<Rightarrow> Queue res option" where
  [code]: "RemoveVersion_loop q version current_node back_node =
     (case current_node of
        None \<Rightarrow> Some (Inr q)
      | Some c \<Rightarrow>
        (case deref (qcells q) current_node of
           Inl e \<Rightarrow> Some (Inl e)
         | Inr cn \<Rightarrow>
           if qversion cn = version then
             (case back_node of
                Some b \<Rightarrow> Some (rbind (deref (qcells q) back_node) (\<lambda>bn.
                  let q1 = q\<lparr>qcells := ((qcells q)(b \<mapsto> bn\<lparr>qlink := qlink cn\<rparr>))(c := None)\<rparr>;
                      q2 = (if qlink cn = None then q1\<lparr>rear := Some b\<rparr> else q1)
                  in Inr (q2\<lparr>count := count q - 1\<rparr>)))
              | None \<Rightarrow> Some (Inr (q\<lparr>front := qlink cn, count := count q - 1,
                                    qcells := (qcells q)(c := None)\<rparr>)))
           else RemoveVersion_loop q version (qlink cn) current_node))"

definition RemoveVersion :: "Queue \<Rightarrow> nat \<Rightarrow> Queue res option" where
  "RemoveVersion q version =
     (if count q = 0 then Some (Inr q) else RemoveVersion_loop q version (front q) None)"

text \<open>\<open>DestroyQueue\<close>: the nodes still allocated once the queue itself is freed.\<close>

function DestroyQueue :: "Queue \<Rightarrow> (addr \<rightharpoonup> QueueNode) res" where
  "DestroyQueue q =
     (if count q \<noteq> 0
      then (case RemoveFront q of Inl e \<Rightarrow> Inl e | Inr q' \<Rightarrow> DestroyQueue q')
      else Inr (qcells q))"
  by pat_completeness auto
termination
  by (relation "measure count")
     (auto simp: RemoveFront_def rbind_def split: sum.splits if_splits)

declare DestroyQueue.simps [simp del]

text \<open>The queue read as a list: \<open>count\<close> nodes from \<open>front\<close>.\<close>

fun qwalk :: "(addr \<rightharpoonup> QueueNode) \<Rightarrow> ptr \<Rightarrow> nat \<Rightarrow> nat list" where
  "qwalk h p 0 = []"
| "qwalk h p (Suc n) =
     (case deref h p of Inl e \<Rightarrow> [] | Inr x \<Rightarrow> qversion x # qwalk h (qlink x) n)"

definition qlist :: "Queue \<Rightarrow> nat list" where
  "qlist q = qwalk (qcells q) (front q) (count q)"

text \<open>
  Well-formedness: \<open>front\<close> starts a chain of \<open>count\<close> nodes, \<open>rear\<close> is its last node,
  and no other node is allocated. \<open>rear\<close> of an empty queue is unconstrained: it dangles.
\<close>

definition queue_nodes :: "Queue \<Rightarrow> addr list \<Rightarrow> bool" where
  "queue_nodes q as \<longleftrightarrow> chain qlink (qcells q) (front q) as \<and> count q = length as
     \<and> (as \<noteq> [] \<longrightarrow> rear q = Some (last as)) \<and> dom (qcells q) = set as"

definition queue_ok :: "Queue \<Rightarrow> bool" where
  "queue_ok q \<longleftrightarrow> (\<exists>as. queue_nodes q as)"

section \<open>The contract the threads rely on\<close>

text \<open>
  A queue of versions with its bookkeeping fields. \<open>fresh a q\<close> says that \<open>a\<close> is an
  address \<open>malloc\<close> may return for this queue.
\<close>

locale version_queue =
  fixes invar :: "'q \<Rightarrow> bool"
    and abs :: "'q \<Rightarrow> nat list"
    and fields :: "'q \<Rightarrow> nat \<times> nat"
    and fresh :: "addr \<Rightarrow> 'q \<Rightarrow> bool"
    and add :: "addr \<Rightarrow> 'q \<Rightarrow> int \<Rightarrow> 'q res"
    and pop :: "'q \<Rightarrow> 'q res"
    and remove :: "'q \<Rightarrow> nat \<Rightarrow> 'q res option"
  assumes add_law: "invar q \<Longrightarrow> fresh a q \<Longrightarrow> v < 2 ^ 31 \<Longrightarrow>
      \<exists>q'. add a q (int_of_u64 v) = Inr q' \<and> invar q' \<and> abs q' = abs q @ [v]
        \<and> fields q' = fields q"
    and pop_law: "invar q \<Longrightarrow>
      \<exists>q'. pop q = Inr q' \<and> invar q' \<and> abs q' = tl (abs q) \<and> fields q' = fields q"
    and remove_law: "invar q \<Longrightarrow>
      \<exists>q'. remove q v = Some (Inr q') \<and> invar q' \<and> abs q' = remove1 v (abs q)
        \<and> fields q' = fields q"
begin

lemma add_sorted:
  assumes "invar q" "fresh a q" "v < 2 ^ 31" "sorted (abs q)" "\<forall>w \<in> set (abs q). w \<le> v"
    and "add a q (int_of_u64 v) = Inr q'"
  shows "sorted (abs q')"
  using add_law [OF assms(1-3)] assms(4-6) by (auto simp: sorted_append)

lemma pop_sorted:
  assumes "invar q" "sorted (abs q)" "pop q = Inr q'"
  shows "sorted (abs q')"
  using pop_law [OF assms(1)] assms(2,3) by (auto simp: sorted_tl)

lemma remove_sorted:
  assumes "invar q" "sorted (abs q)" "remove q v = Some (Inr q')"
  shows "sorted (abs q')"
  using remove_law [OF assms(1), of v] assms(2,3) by (auto simp: sorted_remove1)

text \<open>A reader that enqueued its version and takes it out again leaves the others.\<close>

lemma pop_is_remove1:
  assumes "invar q" "abs q \<noteq> []" "hd (abs q) = v" "pop q = Inr q'"
  shows "abs q' = remove1 v (abs q)"
  using pop_law [OF assms(1)] assms(2-4) by (cases "abs q") auto

end

section \<open>The implementation meets the contract\<close>

lemma int_of_u64_small: "v < 2 ^ 31 \<Longrightarrow> u64_of_int (int_of_u64 v) = v"
  by (simp add: int_of_u64_def u64_of_int_def Let_def)

lemma qwalk_chain:
  "chain qlink h p as \<Longrightarrow> qwalk h p (length as) = map (\<lambda>a. qversion (the (h a))) as"
  by (induction as arbitrary: p) (auto split: option.splits)

lemma qlist_nodes: "queue_nodes q as \<Longrightarrow> qlist q = map (\<lambda>a. qversion (the (qcells q a))) as"
  by (simp add: queue_nodes_def qlist_def qwalk_chain)

lemma AddRear_nodes:
  assumes q: "queue_nodes q as" and a: "qcells q a = None"
  shows "\<exists>q'. AddRear a q v = Inr q' \<and> queue_nodes q' (as @ [a])
    \<and> qlist q' = qlist q @ [u64_of_int v]
    \<and> minimum q' = minimum q \<and> delete_front q' = delete_front q"
proof (cases as rule: rev_cases)
  case Nil
  with q have q0: "count q = 0" "qcells q = Map.empty" by (auto simp: queue_nodes_def)
  with q Nil show ?thesis
    by (auto simp: AddRear_def Let_def queue_nodes_def qlist_def)
next
  case (snoc bs b)
  from q snoc have c: "chain qlink (qcells q) (front q) (bs @ [b])"
    and r: "rear q = Some b" and n: "count q = Suc (length bs)"
    and d: "dom (qcells q) = set (bs @ [b])" by (auto simp: queue_nodes_def)
  from c obtain x where x: "qcells q b = Some x" by (auto simp: seg_append split: option.splits)
  from a d have ab: "a \<notin> set (bs @ [b])" by auto
  let ?h = "(qcells q)(a \<mapsto> \<lparr>qversion = u64_of_int v, qlink = None\<rparr>, b \<mapsto> x\<lparr>qlink := Some a\<rparr>)"
  have h: "?h = (qcells q)(b \<mapsto> x\<lparr>qlink := Some a\<rparr>, a \<mapsto> \<lparr>qversion = u64_of_int v, qlink = None\<rparr>)"
    using ab by (auto simp: fun_eq_iff)
  let ?q = "q\<lparr>qcells := ?h, rear := Some a, count := count q + 1\<rparr>"
  have A: "AddRear a q v = Inr ?q"
    using r n x ab by (simp add: AddRear_def Let_def)
  have Q: "queue_nodes ?q (as @ [a])"
    using chain_snoc [OF c x ab, of "x\<lparr>qlink := Some a\<rparr>" "\<lparr>qversion = u64_of_int v, qlink = None\<rparr>"]
      n d snoc by (auto simp: queue_nodes_def h)
  have "b \<notin> set bs" using chain_distinct [OF c] by simp
  then have "qlist ?q = qlist q @ [u64_of_int v]"
    unfolding qlist_nodes [OF q] qlist_nodes [OF Q] using ab x snoc by simp
  with A Q show ?thesis by auto
qed

lemma RemoveFront_nodes:
  assumes q: "queue_nodes q as"
  shows "\<exists>q'. RemoveFront q = Inr q' \<and> queue_nodes q' (tl as) \<and> qlist q' = tl (qlist q)
    \<and> minimum q' = minimum q \<and> delete_front q' = delete_front q"
proof (cases as)
  case Nil
  with q show ?thesis by (auto simp: RemoveFront_def queue_nodes_def qlist_def)
next
  case (Cons a bs)
  from q Cons obtain x where x: "qcells q a = Some x" "front q = Some a"
    and c: "chain qlink (qcells q) (qlink x) bs" and n: "count q = Suc (length bs)"
    by (auto simp: queue_nodes_def split: option.splits)
  from q have "distinct as" by (auto simp: queue_nodes_def intro: chain_distinct)
  with Cons have a: "a \<notin> set bs" by simp
  let ?q = "q\<lparr>front := qlink x, qcells := (qcells q)(a := None), count := count q - 1\<rparr>"
  have A: "RemoveFront q = Inr ?q" using x n by (simp add: RemoveFront_def)
  have Q: "queue_nodes ?q bs"
    using q Cons a c n by (auto simp: queue_nodes_def seg_upd_other)
  have "qlist ?q = tl (qlist q)"
    unfolding qlist_nodes [OF q] qlist_nodes [OF Q] using a Cons by auto
  with A Q Cons show ?thesis by auto
qed

text \<open>
  The loop, started in the middle of the chain: \<open>us\<close> are the nodes already passed (none
  of them carries the version), \<open>back_node\<close> is the last of them.
\<close>

lemma RemoveVersion_loop_nodes:
  assumes q: "queue_nodes q (us @ vs)" and v: "v \<notin> set (map (\<lambda>a. qversion (the (qcells q a))) us)"
  shows "\<exists>q' as'. RemoveVersion_loop q v (case vs of [] \<Rightarrow> None | a # _ \<Rightarrow> Some a)
       (if us = [] then None else Some (last us)) = Some (Inr q')
    \<and> queue_nodes q' as' \<and> qlist q' = remove1 v (qlist q)
    \<and> minimum q' = minimum q \<and> delete_front q' = delete_front q"
  using q v
proof (induction vs arbitrary: us)
  case Nil
  then show ?case
    by (subst RemoveVersion_loop.simps) (auto simp: qlist_nodes [OF Nil.prems(1)] remove1_idem)
next
  case (Cons c vs)
  note q = Cons.prems(1)
  from q have ch: "chain qlink (qcells q) (front q) (us @ c # vs)"
    and n: "count q = Suc (length us + length vs)" and r: "rear q = Some (last (us @ c # vs))"
    and d: "dom (qcells q) = set (us @ c # vs)" by (auto simp: queue_nodes_def)
  have dist: "distinct (us @ c # vs)" by (rule chain_distinct [OF ch])
  from chain_suffix [OF ch] obtain x where x: "qcells q c = Some x"
    and cv: "chain qlink (qcells q) (qlink x) vs" by blast
  have lk: "qlink x = (case vs of [] \<Rightarrow> None | a # _ \<Rightarrow> Some a)"
    using cv by (cases vs) auto
  show ?case
  proof (cases "qversion x = v")
    case False
    have "\<exists>q' as'. RemoveVersion_loop q v (case vs of [] \<Rightarrow> None | a # _ \<Rightarrow> Some a)
       (Some c) = Some (Inr q')
      \<and> queue_nodes q' as' \<and> qlist q' = remove1 v (qlist q)
      \<and> minimum q' = minimum q \<and> delete_front q' = delete_front q"
      using Cons.IH [of "us @ [c]"] Cons.prems x False by simp
    then show ?thesis
      using False x lk by (subst RemoveVersion_loop.simps) auto
  next
    case True
    show ?thesis
    proof (cases us rule: rev_cases)
      case Nil
      let ?q = "q\<lparr>front := qlink x, count := count q - 1, qcells := (qcells q)(c := None)\<rparr>"
      have Q: "queue_nodes ?q vs"
        using Nil dist cv n r d by (auto simp: queue_nodes_def seg_upd_other)
      have "qlist ?q = remove1 v (qlist q)"
        unfolding qlist_nodes [OF q] qlist_nodes [OF Q] using Nil True x dist by auto
      then show ?thesis
        using Q Nil True x by (subst RemoveVersion_loop.simps) auto
    next
      case (snoc ws b)
      from ch snoc have ch': "chain qlink (qcells q) (front q) (ws @ b # c # vs)" by simp
      from chain_suffix [OF ch'] obtain y where y: "qcells q b = Some y" by blast
      let ?h = "((qcells q)(b \<mapsto> y\<lparr>qlink := qlink x\<rparr>))(c := None)"
      let ?q1 = "q\<lparr>qcells := ?h\<rparr>"
      let ?q = "(if qlink x = None then ?q1\<lparr>rear := Some b\<rparr> else ?q1)\<lparr>count := count q - 1\<rparr>"
      have H: "chain qlink ?h (front q) (ws @ b # vs)"
        by (rule chain_unlink [OF ch' y x]) simp
      have Q: "queue_nodes ?q (ws @ b # vs)"
        using H n r d snoc dist lk by (cases vs) (auto simp: queue_nodes_def)
      have "v \<notin> (\<lambda>a. qversion (the (qcells q a))) ` set (ws @ [b])"
        using Cons.prems(2) snoc by simp
      then have "qlist ?q = remove1 v (qlist q)"
        unfolding qlist_nodes [OF q] qlist_nodes [OF Q]
        using snoc True x y dist by (auto simp: remove1_append)
      then show ?thesis
        using Q snoc True x y by (subst RemoveVersion_loop.simps) (auto simp: Let_def)
    qed
  qed
qed

lemma RemoveVersion_nodes:
  assumes q: "queue_nodes q as"
  shows "\<exists>q' as'. RemoveVersion q v = Some (Inr q') \<and> queue_nodes q' as'
    \<and> qlist q' = remove1 v (qlist q) \<and> minimum q' = minimum q \<and> delete_front q' = delete_front q"
proof (cases as)
  case Nil
  with q show ?thesis by (auto simp: RemoveVersion_def queue_nodes_def qlist_def)
next
  case (Cons a bs)
  with q have "front q = Some a" "count q \<noteq> 0" by (auto simp: queue_nodes_def)
  with RemoveVersion_loop_nodes [of q "[]" as v] q Cons show ?thesis
    by (simp add: RemoveVersion_def)
qed

lemma DestroyQueue_nodes: "queue_nodes q as \<Longrightarrow> DestroyQueue q = Inr Map.empty"
proof (induction as arbitrary: q)
  case Nil
  then have "count q = 0" "qcells q = Map.empty" by (auto simp: queue_nodes_def)
  then show ?case by (simp add: DestroyQueue.simps)
next
  case (Cons a as)
  then have "count q \<noteq> 0" by (auto simp: queue_nodes_def)
  moreover obtain q' where "RemoveFront q = Inr q'" "queue_nodes q' as"
    using RemoveFront_nodes [OF Cons.prems] by auto
  ultimately show ?case using Cons.IH by (subst DestroyQueue.simps) simp
qed

lemma CreateQueue_nodes: "queue_nodes (CreateQueue m d) []"
  by (simp add: queue_nodes_def CreateQueue_def)

lemma CreateQueue_qlist [simp]: "qlist (CreateQueue m d) = []"
  by (simp add: qlist_def CreateQueue_def)

text \<open>The laws of the contract hold of the pointer implementation.\<close>

interpretation gq: version_queue queue_ok qlist "\<lambda>q. (minimum q, delete_front q)"
  "\<lambda>a q. qcells q a = None" AddRear RemoveFront RemoveVersion
proof (unfold_locales, goal_cases)
  case (1 q a v)
  then show ?case
    using AddRear_nodes [of q _ a "int_of_u64 v"]
    by (fastforce simp: queue_ok_def int_of_u64_small)
next
  case (2 q)
  then show ?case using RemoveFront_nodes by (fastforce simp: queue_ok_def)
next
  case (3 q v)
  then show ?case using RemoveVersion_nodes by (fastforce simp: queue_ok_def)
qed

text \<open>\<open>front->version\<close> of a queue that is not empty is the head of the list.\<close>

lemma front_hd:
  assumes "queue_ok q" "qlist q \<noteq> []"
  shows "\<exists>x. deref (qcells q) (front q) = Inr x \<and> qversion x = hd (qlist q)"
proof -
  from assms(1) obtain as where q: "queue_nodes q as" by (auto simp: queue_ok_def)
  with assms(2) obtain a bs where "as = a # bs" by (cases as) (auto simp: qlist_nodes [OF q])
  with q show ?thesis by (auto simp: qlist_nodes [OF q] queue_nodes_def split: option.splits)
qed

lemma front_None:
  assumes "queue_ok q"
  shows "front q = None \<longleftrightarrow> qlist q = []"
proof -
  from assms obtain as where q: "queue_nodes q as" by (auto simp: queue_ok_def)
  then have "front q = None \<longleftrightarrow> as = []" by (cases as) (auto simp: queue_nodes_def)
  then show ?thesis by (simp add: qlist_nodes [OF q])
qed

text \<open>Writing the bookkeeping fields changes neither the nodes nor the list.\<close>

lemma queue_fields [simp]:
  "queue_ok (q\<lparr>minimum := m\<rparr>) = queue_ok q" "queue_ok (q\<lparr>delete_front := m\<rparr>) = queue_ok q"
  "qlist (q\<lparr>minimum := m\<rparr>) = qlist q" "qlist (q\<lparr>delete_front := m\<rparr>) = qlist q"
  by (simp_all add: queue_ok_def queue_nodes_def qlist_def)

section \<open>Properties\<close>

text \<open>C11: the linked queue implements a list of versions: on a well-formed queue \<open>AddRear\<close>
  appends, \<open>RemoveFront\<close> drops the head and \<open>RemoveVersion\<close> returns having taken out the
  first occurrence; no node is dereferenced after it was freed and none is leaked.\<close>

theorem queue_refines_list:
  assumes "queue_ok q" "qcells q a = None" "v < 2 ^ 31"
  shows "(\<exists>q'. AddRear a q (int_of_u64 v) = Inr q' \<and> queue_ok q' \<and> qlist q' = qlist q @ [v])
    \<and> (\<exists>q'. RemoveFront q = Inr q' \<and> queue_ok q' \<and> qlist q' = tl (qlist q))
    \<and> (\<exists>q'. RemoveVersion q w = Some (Inr q') \<and> queue_ok q' \<and> qlist q' = remove1 w (qlist q))"
  using gq.add_law [OF assms] gq.pop_law [OF assms(1)] gq.remove_law [OF assms(1)] by blast

definition two_versions :: Queue where
  "two_versions = \<lparr>count = 2, minimum = 0, delete_front = 0, front = Some 1, rear = Some 2,
     qcells = [1 \<mapsto> \<lparr>qversion = 4, qlink = Some 2\<rparr>, 2 \<mapsto> \<lparr>qversion = 9, qlink = None\<rparr>]\<rparr>"

lemma two_versions_ok: "queue_ok two_versions" "qlist two_versions = [4, 9]"
proof -
  have "queue_nodes two_versions [1, 2]" by (auto simp: queue_nodes_def two_versions_def)
  then show "queue_ok two_versions" unfolding queue_ok_def by blast
  show "qlist two_versions = [4, 9]"
    by (simp add: qlist_def two_versions_def numeral_2_eq_2)
qed

theorem queue_refines_list_witness:
  "(\<exists>q'. AddRear 3 two_versions (int_of_u64 12) = Inr q' \<and> qlist q' = [4, 9, 12])
    \<and> (\<exists>q'. RemoveFront two_versions = Inr q' \<and> qlist q' = [9])
    \<and> (\<exists>q'. RemoveVersion two_versions 9 = Some (Inr q') \<and> qlist q' = [4])"
proof -
  have "qcells two_versions 3 = None" by (simp add: two_versions_def)
  from queue_refines_list [OF two_versions_ok(1) this, of 12 9] show ?thesis
    by (auto simp: two_versions_ok(2))
qed

text \<open>C12: \<open>DestroyQueue\<close> ends and frees every node of the queue.\<close>

theorem DestroyQueue_frees_all:
  assumes "queue_ok q"
  shows "DestroyQueue q = Inr Map.empty"
  using assms DestroyQueue_nodes unfolding queue_ok_def by blast

theorem DestroyQueue_frees_all_witness: "DestroyQueue two_versions = Inr Map.empty"
  by (rule DestroyQueue_frees_all [OF two_versions_ok(1)])

text \<open>\<open>AddRear\<close> takes the version as an \<open>int\<close>: from \<open>2^31\<close> on, the version that is
  stored in the queue is not the one that was passed.\<close>

theorem AddRear_corrupts_large_versions:
  assumes "2 ^ 31 \<le> v" "v < 2 ^ 32"
  shows "\<exists>q'. AddRear a (CreateQueue m d) (int_of_u64 v) = Inr q'
    \<and> qlist q' = [v + (2 ^ 64 - 2 ^ 32)]"
proof -
  have "u64_of_int (int_of_u64 v) = v + (2 ^ 64 - 2 ^ 32)"
  proof -
    have "int_of_u64 v = int v - 2 ^ 32" using assms by (simp add: int_of_u64_def)
    moreover have "(int v - 2 ^ 32) mod 2 ^ 64 = int v - 2 ^ 32 + 2 ^ 64"
    proof -
      have "(int v - 2 ^ 32) mod 2 ^ 64 = (int v - 2 ^ 32 + 2 ^ 64) mod 2 ^ 64"
        by (rule mod_add_self2 [symmetric])
      also have "\<dots> = int v - 2 ^ 32 + 2 ^ 64"
        by (rule mod_pos_pos_trivial) (use assms in simp_all)
      finally show ?thesis .
    qed
    ultimately show ?thesis using assms by (simp add: u64_of_int_def)
  qed
  moreover have "qcells (CreateQueue m d) a = None" by (simp add: CreateQueue_def)
  ultimately show ?thesis
    using AddRear_nodes [OF CreateQueue_nodes, of m d a "int_of_u64 v"] by auto
qed

theorem AddRear_corrupts_large_versions_witness:
  "\<exists>q'. AddRear 1 (CreateQueue 0 0) (int_of_u64 (2 ^ 31)) = Inr q'
    \<and> qlist q' = [18446744071562067968]"
  using AddRear_corrupts_large_versions [of "2 ^ 31" 1 0 0] by simp

end
