(* ===== verification/Mvcc.thy ===== *)
theory Mvcc
  imports ActiveList GcQueue
begin

text \<open>
  The multi-version store of Project2 (src/Project2/src/Project2.cpp) as a machine:
  \<open>thread_step\<close> is \<open>ThreadFunc\<close> cut at the points where other threads can observe
  it, \<open>gc_step\<close> is \<open>ThreadGarvageCollectionFunc\<close>, and the flag changes of \<open>main\<close>
  are the other events. A critical section runs under \<open>g_mutex\<close> and is one step
  between the lock and the unlock step. The version nodes are on one shared heap,
  because a reader keeps a cursor into a list that the collector cuts and frees.
  The second argument of a step is what the environment supplies: the value of
  \<open>rand()\<close>, or the address \<open>malloc\<close> returns.
\<close>

section \<open>Data\<close>

record SinglyNode =
  sA :: "32 word"
  sB :: "32 word"
  sversion :: nat
  slink :: ptr

datatype pc = T_Loop | T_Pick | T_Lock1 | T_Enter | T_Unlock1 | T_ReadCursor | T_ReadOwn
  | T_Walk | T_Compute | T_Insert | T_Lock2 | T_Leave | T_Unlock2 | T_Finish | T_Done

record tlocal =
  tpc :: pc
  picked_thread_index :: nat
  current_version :: nat
  capture_active_list :: "ActiveNode list"
  is_thread_active :: bool
  active_thread_version :: nat
  cursor_singly_node :: ptr
  my_A :: "32 word"
  my_B :: "32 word"

datatype gpc = G_Loop | G_For | G_Head | G_Check | G_Move | G_Done

record glocal =
  gcpc :: gpc
  gi :: nat
  gminimum :: nat
  gtmp :: ptr
  gback :: ptr
  delete_flag :: bool

record mvcc =
  g_num_thread :: nat
  g_atomic_counter :: nat
  g_active_list :: "ActiveNode list"
  g_singly_list :: "nat \<Rightarrow> ptr"
  singly_heap :: "addr \<rightharpoonup> SinglyNode"
  g_queue :: "nat \<Rightarrow> Queue"
  g_mutex :: "nat option"
  g_thread_throughput :: "nat \<Rightarrow> nat"
  g_could_thread_run :: bool
  g_is_verbosing :: bool
  locals :: "nat \<Rightarrow> tlocal"
  gc :: glocal

section \<open>Operations\<close>

definition lupd :: "nat \<Rightarrow> (tlocal \<Rightarrow> tlocal) \<Rightarrow> mvcc \<Rightarrow> mvcc" where
  "lupd i f s = s\<lparr>locals := (locals s)(i := f (locals s i))\<rparr>"

abbreviation goto :: "pc \<Rightarrow> tlocal \<Rightarrow> tlocal" where
  "goto p \<equiv> tpc_update (\<lambda>_. p)"

text \<open>C's \<open>x % 100\<close> on a 32-bit \<open>int\<close>: the sign of the dividend.\<close>

definition rem100 :: "32 word \<Rightarrow> 32 word" where
  "rem100 a = (let i = sint a in word_of_int (sgn i * (\<bar>i\<bar> mod 100)))"

definition InsertSinglyList ::
  "addr \<Rightarrow> nat \<Rightarrow> 32 word \<Rightarrow> 32 word \<Rightarrow> nat \<Rightarrow> mvcc \<Rightarrow> mvcc" where
  "InsertSinglyList a i A B version s =
     s\<lparr>singly_heap := (singly_heap s)(a \<mapsto>
         \<lparr>sA = A, sB = B, sversion = version, slink = g_singly_list s i\<rparr>),
       g_singly_list := (g_singly_list s)(i := Some a)\<rparr>"

text \<open>The loop head: the run flag, then the verbose flag, then a new iteration.\<close>

definition loop_head :: "nat \<Rightarrow> mvcc \<Rightarrow> mvcc" where
  "loop_head i s =
     (if \<not> g_could_thread_run s then lupd i (goto T_Done) s
      else if g_is_verbosing s then s
      else lupd i (goto T_Pick) s)"

definition pick_thread :: "nat \<Rightarrow> nat \<Rightarrow> mvcc \<Rightarrow> mvcc" where
  "pick_thread i r s =
     (let p = r mod g_num_thread s
      in if p \<noteq> i
         then lupd i (\<lambda>l. l\<lparr>tpc := T_Lock1, picked_thread_index := p,
                is_thread_active := False, active_thread_version := 0\<rparr>) s
         else s)"

definition lock_mutex :: "nat \<Rightarrow> pc \<Rightarrow> mvcc \<Rightarrow> mvcc option" where
  "lock_mutex i p s =
     (if g_mutex s = None then Some (lupd i (goto p) (s\<lparr>g_mutex := Some i\<rparr>)) else None)"

definition unlock_mutex :: "nat \<Rightarrow> pc \<Rightarrow> mvcc \<Rightarrow> mvcc" where
  "unlock_mutex i p s = lupd i (goto p) (s\<lparr>g_mutex := None\<rparr>)"

text \<open>The first critical section: take a version, publish it, capture, enqueue.\<close>

definition enter_section :: "nat \<Rightarrow> addr \<Rightarrow> mvcc \<Rightarrow> mvcc res" where
  "enter_section i a s =
     (let p = picked_thread_index (locals s i);
          version = (g_atomic_counter s + 1) mod 2 ^ 64;
          active = InsertGlobalActiveList i version (g_active_list s);
          capture = CaptureActiveList active;
          s1 = lupd i (\<lambda>l. l\<lparr>tpc := T_Unlock1, current_version := version,
                 capture_active_list := capture\<rparr>)
               (s\<lparr>g_atomic_counter := version, g_active_list := active\<rparr>)
      in case find_active p capture of
           None \<Rightarrow> Inr s1
         | Some v \<Rightarrow> rbind (AddRear a (g_queue s p) (int_of_u64 v)) (\<lambda>q.
             Inr (lupd i (\<lambda>l. l\<lparr>is_thread_active := True, active_thread_version := v\<rparr>)
               (s1\<lparr>g_queue := (g_queue s)(p := q)\<rparr>))))"

definition read_cursor :: "nat \<Rightarrow> mvcc \<Rightarrow> mvcc" where
  "read_cursor i s = lupd i (\<lambda>l. l\<lparr>tpc := T_ReadOwn,
     cursor_singly_node := g_singly_list s (picked_thread_index l)\<rparr>) s"

definition read_own :: "nat \<Rightarrow> mvcc \<Rightarrow> mvcc res" where
  "read_own i s = rbind (deref (singly_heap s) (g_singly_list s i)) (\<lambda>n.
     Inr (lupd i (\<lambda>l. l\<lparr>tpc := T_Walk, my_A := sA n, my_B := sB n\<rparr>) s))"

text \<open>
  One iteration of the search for a version older than the active one. An inactive
  target is read at the cursor without a search.
\<close>

definition walk_cursor :: "nat \<Rightarrow> mvcc \<Rightarrow> mvcc res" where
  "walk_cursor i s =
     (let l = locals s i
      in if is_thread_active l
         then rbind (deref (singly_heap s) (cursor_singly_node l)) (\<lambda>n.
           Inr (if sversion n < active_thread_version l
                then lupd i (goto T_Compute) s
                else lupd i (\<lambda>l. l\<lparr>cursor_singly_node := slink n\<rparr>) s))
         else Inr (lupd i (goto T_Compute) s))"

definition compute_update :: "nat \<Rightarrow> mvcc \<Rightarrow> mvcc res" where
  "compute_update i s =
     rbind (deref (singly_heap s) (cursor_singly_node (locals s i))) (\<lambda>n.
       Inr (lupd i (\<lambda>l. l\<lparr>tpc := T_Insert, my_A := my_A l + rem100 (sA n),
         my_B := my_B l - rem100 (sA n)\<rparr>) s))"

definition insert_update :: "nat \<Rightarrow> addr \<Rightarrow> mvcc \<Rightarrow> mvcc" where
  "insert_update i a s =
     (let l = locals s i
      in lupd i (goto T_Lock2) (InsertSinglyList a i (my_A l) (my_B l) (current_version l) s))"

text \<open>
  The queue bookkeeping of the second critical section: take one occurrence of the
  version out and move \<open>minimum\<close> when the front of the queue changes.
\<close>

definition release_version :: "Queue \<Rightarrow> nat \<Rightarrow> Queue res option" where
  "release_version q v =
     (case deref (qcells q) (front q) of Inl e \<Rightarrow> Some (Inl e) | Inr f \<Rightarrow>
      if qversion f = v
      then Some (rbind (RemoveFront q) (\<lambda>q1.
             rbind (case front q1 of
                      Some _ \<Rightarrow> rbind (deref (qcells q1) (front q1)) (\<lambda>f1.
                        Inr (if qversion f1 \<noteq> v then q1\<lparr>minimum := v\<rparr> else q1))
                    | None \<Rightarrow> Inr (if delete_front q1 \<noteq> v
                                   then q1\<lparr>minimum := delete_front q1\<rparr> else q1))
               (\<lambda>q2. Inr (q2\<lparr>delete_front := v\<rparr>))))
      else RemoveVersion q v)"

definition leave_section :: "nat \<Rightarrow> mvcc \<Rightarrow> mvcc res option" where
  "leave_section i s =
     (let l = locals s i;
          p = picked_thread_index l;
          s1 = lupd i (goto T_Unlock2)
                 (s\<lparr>g_active_list := DeleteGlobalActiveList i (g_active_list s)\<rparr>)
      in if is_thread_active l
         then obind (release_version (g_queue s p) (active_thread_version l)) (\<lambda>q.
                Some (Inr (s1\<lparr>g_queue := (g_queue s)(p := q)\<rparr>)))
         else Some (Inr s1))"

text \<open>Free the captured list and count the update.\<close>

definition finish_update :: "nat \<Rightarrow> mvcc \<Rightarrow> mvcc" where
  "finish_update i s = lupd i (\<lambda>l. l\<lparr>tpc := T_Loop,
       capture_active_list := DeleteCaptureActiveListAll (capture_active_list l)\<rparr>)
     (s\<lparr>g_thread_throughput :=
          (g_thread_throughput s)(i := (g_thread_throughput s i + 1) mod 2 ^ 64)\<rparr>)"

text \<open>
  \<open>ThreadFunc\<close>. \<open>None\<close>: the step is not possible (the mutex is held, the address is
  in use, the thread has returned).
\<close>

definition thread_step :: "nat \<Rightarrow> nat \<Rightarrow> mvcc \<Rightarrow> mvcc res option" where
  "thread_step i c s =
     (case tpc (locals s i) of
        T_Loop \<Rightarrow> Some (Inr (loop_head i s))
      | T_Pick \<Rightarrow> Some (Inr (pick_thread i c s))
      | T_Lock1 \<Rightarrow> map_option Inr (lock_mutex i T_Enter s)
      | T_Enter \<Rightarrow> if qcells (g_queue s (picked_thread_index (locals s i))) c = None
                   then Some (enter_section i c s) else None
      | T_Unlock1 \<Rightarrow> Some (Inr (unlock_mutex i T_ReadCursor s))
      | T_ReadCursor \<Rightarrow> Some (Inr (read_cursor i s))
      | T_ReadOwn \<Rightarrow> Some (read_own i s)
      | T_Walk \<Rightarrow> Some (walk_cursor i s)
      | T_Compute \<Rightarrow> Some (compute_update i s)
      | T_Insert \<Rightarrow> if singly_heap s c = None then Some (Inr (insert_update i c s)) else None
      | T_Lock2 \<Rightarrow> map_option Inr (lock_mutex i T_Leave s)
      | T_Leave \<Rightarrow> leave_section i s
      | T_Unlock2 \<Rightarrow> Some (Inr (unlock_mutex i T_Finish s))
      | T_Finish \<Rightarrow> Some (Inr (finish_update i s))
      | T_Done \<Rightarrow> None)"

definition gupd :: "(glocal \<Rightarrow> glocal) \<Rightarrow> mvcc \<Rightarrow> mvcc" where
  "gupd f s = s\<lparr>gc := f (gc s)\<rparr>"

text \<open>
  \<open>ThreadGarvageCollectionFunc\<close>: the loop head, the loop over the threads reading
  \<open>minimum\<close>, the read of the list header, and the walk in two steps per node: the
  test with the cut, then the advance with the \<open>free\<close>.
\<close>

definition gc_step :: "mvcc \<Rightarrow> mvcc res option" where
  "gc_step s =
     (let g = gc s
      in case gcpc g of
        G_Loop \<Rightarrow> Some (Inr (if \<not> g_could_thread_run s then gupd (gcpc_update (\<lambda>_. G_Done)) s
                   else if g_is_verbosing s then s
                   else gupd (\<lambda>g. g\<lparr>gcpc := G_For, gi := 0\<rparr>) s))
      | G_For \<Rightarrow> Some (Inr (if gi g < g_num_thread s
                   then gupd (\<lambda>g. g\<lparr>gcpc := G_Head, gback := None,
                          gminimum := minimum (g_queue s (gi g))\<rparr>) s
                   else gupd (gcpc_update (\<lambda>_. G_Loop)) s))
      | G_Head \<Rightarrow> Some (Inr (gupd (\<lambda>g. g\<lparr>gcpc := G_Check, gtmp := g_singly_list s (gi g),
                   delete_flag := False\<rparr>) s))
      | G_Check \<Rightarrow>
          (case gtmp g of
             None \<Rightarrow> Some (Inr (gupd (\<lambda>g. g\<lparr>gcpc := G_For, gi := gi g + 1\<rparr>) s))
           | Some t \<Rightarrow> Some (rbind (deref (singly_heap s) (gtmp g)) (\<lambda>n.
               if \<not> delete_flag g \<and> sversion n < gminimum g
               then rbind (deref (singly_heap s) (gback g)) (\<lambda>b.
                 Inr (gupd (\<lambda>g. g\<lparr>gcpc := G_Move, delete_flag := True\<rparr>)
                   (s\<lparr>singly_heap :=
                        (singly_heap s)(the (gback g) \<mapsto> b\<lparr>slink := None\<rparr>)\<rparr>)))
               else Inr (gupd (gcpc_update (\<lambda>_. G_Move)) s))))
      | G_Move \<Rightarrow> Some (rbind (deref (singly_heap s) (gtmp g)) (\<lambda>n.
          Inr (gupd (\<lambda>g. g\<lparr>gcpc := G_Check, gback := gtmp g, gtmp := slink n\<rparr>)
            (if delete_flag g
             then s\<lparr>singly_heap := (singly_heap s)(the (gtmp g) := None)\<rparr> else s))))
      | G_Done \<Rightarrow> None)"

text \<open>The events of a run: a thread, the collector, and the flag changes of \<open>main\<close>.\<close>

datatype event = EThread nat nat | EGc | EVerbose bool | EStop

fun mstep :: "event \<Rightarrow> mvcc \<Rightarrow> mvcc res option" where
  "mstep (EThread i c) s = (if i < g_num_thread s then thread_step i c s else None)"
| "mstep EGc s = gc_step s"
| "mstep (EVerbose b) s = Some (Inr (s\<lparr>g_is_verbosing := b\<rparr>))"
| "mstep EStop s = Some (Inr (s\<lparr>g_could_thread_run := False\<rparr>))"

text \<open>A schedule run from a state; it stops at a fault or an impossible step.\<close>

fun mrun :: "event list \<Rightarrow> mvcc \<Rightarrow> mvcc res option" where
  "mrun [] s = Some (Inr s)"
| "mrun (e # es) s = obind (mstep e s) (mrun es)"

text \<open>
  \<open>main\<close> up to the creation of the threads. \<open>ab\<close> holds the random initial values,
  \<open>raw\<close> what \<open>malloc\<close> left in each queue's \<open>minimum\<close> and \<open>delete_front\<close>, \<open>rawt\<close> what
  it left in the throughput array. Node \<open>i\<close> is the first node of thread \<open>i\<close>'s list.
\<close>

definition init_local :: tlocal where
  "init_local = \<lparr>tpc = T_Loop, picked_thread_index = 0, current_version = 0,
     capture_active_list = [], is_thread_active = False, active_thread_version = 0,
     cursor_singly_node = None, my_A = 0, my_B = 0\<rparr>"

fun insert_initial :: "nat \<Rightarrow> (32 word \<times> 32 word) list \<Rightarrow> mvcc \<Rightarrow> mvcc" where
  "insert_initial i [] s = s"
| "insert_initial i ((a, b) # ab) s = insert_initial (Suc i) ab (InsertSinglyList i i a b 0 s)"

definition main_init ::
  "(32 word \<times> 32 word) list \<Rightarrow> (nat \<Rightarrow> nat \<times> nat) \<Rightarrow> (nat \<Rightarrow> nat) \<Rightarrow> mvcc" where
  "main_init ab raw rawt = insert_initial 0 ab
     \<lparr>g_num_thread = length ab, g_atomic_counter = 0, g_active_list = [],
      g_singly_list = (\<lambda>_. None), singly_heap = Map.empty,
      g_queue = (\<lambda>i. CreateQueue (fst (raw i)) (snd (raw i))), g_mutex = None,
      g_thread_throughput = rawt, g_could_thread_run = True, g_is_verbosing = False,
      locals = (\<lambda>_. init_local),
      gc = \<lparr>gcpc = G_Loop, gi = 0, gminimum = 0, gtmp = None, gback = None,
            delete_flag = False\<rparr>\<rparr>"

text \<open>The two sums \<open>main\<close> prints, in the wrap-around arithmetic of a 32-bit \<open>int\<close>.\<close>

definition before_correctness :: "(32 word \<times> 32 word) list \<Rightarrow> 32 word" where
  "before_correctness ab = foldl (\<lambda>acc (a, b). acc + (a + b)) 0 ab"

fun after_loop :: "mvcc \<Rightarrow> nat list \<Rightarrow> 32 word \<Rightarrow> 32 word res" where
  "after_loop s [] acc = Inr acc"
| "after_loop s (i # is) acc =
     rbind (deref (singly_heap s) (g_singly_list s i)) (\<lambda>n.
       after_loop s is (acc + (sA n + sB n)))"

definition after_correctness :: "mvcc \<Rightarrow> 32 word res" where
  "after_correctness s = after_loop s [0..<g_num_thread s] 0"

end
