(* ===== verification/MvccInv.thy ===== *)
theory MvccInv
  imports Mvcc
begin

text \<open>
  The invariant of the multi-version store and its preservation by every step of the
  worker threads (the collector's steps are in the theory MvccGc). \<open>ch i\<close> are the nodes of thread \<open>i\<close>'s version list and
  \<open>ds\<close> the nodes the collector has cut off and is still freeing; the invariant is
  split by subject (heap, versions, active list and mutex, queues, readers,
  collector), and each step has one preservation lemma.
\<close>

section \<open>The invariant\<close>

definition ver :: "mvcc \<Rightarrow> addr \<Rightarrow> nat" where
  "ver s a = sversion (the (singly_heap s a))"

text \<open>Between the two critical sections a thread is in the active list.\<close>

definition active_pcs :: "pc set" where
  "active_pcs = {T_Unlock1, T_ReadCursor, T_ReadOwn, T_Walk, T_Compute, T_Insert, T_Lock2, T_Leave}"

text \<open>It has taken a version that is not yet in its list.\<close>

definition pending_pcs :: "pc set" where
  "pending_pcs = {T_Unlock1, T_ReadCursor, T_ReadOwn, T_Walk, T_Compute, T_Insert}"

abbreviation lpc :: "mvcc \<Rightarrow> nat \<Rightarrow> pc" where
  "lpc s i \<equiv> tpc (locals s i)"

abbreviation versions :: "mvcc \<Rightarrow> addr list \<Rightarrow> nat set" where
  "versions s as \<equiv> ver s ` set as"

definition heap_inv :: "mvcc \<Rightarrow> (nat \<Rightarrow> addr list) \<Rightarrow> addr list \<Rightarrow> bool" where
  "heap_inv s ch ds \<longleftrightarrow>
     (\<forall>i < g_num_thread s. chain slink (singly_heap s) (g_singly_list s i) (ch i)
        \<and> ch i \<noteq> [] \<and> sorted_wrt (\<lambda>a b. ver s b < ver s a) (ch i)
        \<and> set (ch i) \<inter> set ds = {})
     \<and> (\<forall>i < g_num_thread s. \<forall>j < g_num_thread s. i \<noteq> j \<longrightarrow> set (ch i) \<inter> set (ch j) = {})"

definition version_inv :: "mvcc \<Rightarrow> (nat \<Rightarrow> addr list) \<Rightarrow> bool" where
  "version_inv s ch \<longleftrightarrow>
     (\<forall>i < g_num_thread s. current_version (locals s i) \<le> g_atomic_counter s
        \<and> (if lpc s i \<in> pending_pcs
           then \<forall>w \<in> versions s (ch i). w < current_version (locals s i)
           else ver s (hd (ch i)) = current_version (locals s i))
        \<and> (lpc s i \<in> active_pcs \<longrightarrow> 0 < current_version (locals s i)))
     \<and> (\<forall>i < g_num_thread s. \<forall>j < g_num_thread s. i \<noteq> j \<longrightarrow>
          insert (current_version (locals s i)) (versions s (ch i))
          \<inter> insert (current_version (locals s j)) (versions s (ch j)) \<subseteq> {0})"

definition active_inv :: "mvcc \<Rightarrow> bool" where
  "active_inv s \<longleftrightarrow> distinct (map index_thread (g_active_list s))
     \<and> (\<forall>i v. \<lparr>index_thread = i, aversion = v\<rparr> \<in> set (g_active_list s) \<longleftrightarrow>
          i < g_num_thread s \<and> lpc s i \<in> active_pcs \<and> v = current_version (locals s i))"

definition mutex_inv :: "mvcc \<Rightarrow> bool" where
  "mutex_inv s \<longleftrightarrow> (\<forall>i < g_num_thread s.
     lpc s i \<in> {T_Enter, T_Unlock1, T_Leave, T_Unlock2} \<longleftrightarrow> g_mutex s = Some i)"

text \<open>The threads that enqueued version \<open>v\<close> with thread \<open>p\<close> and have not left yet.\<close>

definition readers :: "mvcc \<Rightarrow> nat \<Rightarrow> nat \<Rightarrow> nat set" where
  "readers s p v = {r. r < g_num_thread s \<and> lpc s r \<in> active_pcs
     \<and> is_thread_active (locals s r) \<and> picked_thread_index (locals s r) = p
     \<and> active_thread_version (locals s r) = v}"

definition queue_inv :: "mvcc \<Rightarrow> (nat \<Rightarrow> addr list) \<Rightarrow> bool" where
  "queue_inv s ch \<longleftrightarrow> (\<forall>p < g_num_thread s.
     let q = g_queue s p; issued = insert (current_version (locals s p)) (versions s (ch p))
     in queue_ok q \<and> sorted (qlist q)
        \<and> (\<forall>v. count_list (qlist q) v = card (readers s p v))
        \<and> (\<forall>v \<in> set (qlist q). v \<in> issued \<and> minimum q < v \<and> delete_front q \<le> v)
        \<and> delete_front q \<in> issued \<and> minimum q \<le> delete_front q
        \<and> minimum q \<in> versions s (ch p)
        \<and> (minimum q = 0 \<or> minimum q < current_version (locals s p)))"

text \<open>
  A reader whose target was active holds a cursor into the target's list, and no node
  between the cursor and the version it looks for has been passed.
\<close>

definition cursor_ok :: "mvcc \<Rightarrow> (nat \<Rightarrow> addr list) \<Rightarrow> tlocal \<Rightarrow> bool" where
  "cursor_ok s ch l \<longleftrightarrow> (\<exists>c. cursor_singly_node l = Some c
     \<and> (is_thread_active l \<longrightarrow> c \<in> set (ch (picked_thread_index l))
          \<and> (\<forall>w \<in> versions s (ch (picked_thread_index l)).
               w < active_thread_version l \<longrightarrow> w \<le> ver s c)
          \<and> (tpc l = T_Compute \<longrightarrow> ver s c < active_thread_version l)))"

definition reader_ok :: "mvcc \<Rightarrow> (nat \<Rightarrow> addr list) \<Rightarrow> nat \<Rightarrow> tlocal \<Rightarrow> bool" where
  "reader_ok s ch r l \<longleftrightarrow>
     (tpc l \<notin> {T_Loop, T_Pick, T_Done} \<longrightarrow>
        picked_thread_index l < g_num_thread s \<and> picked_thread_index l \<noteq> r)
     \<and> (tpc l \<in> {T_Lock1, T_Enter} \<longrightarrow> \<not> is_thread_active l)
     \<and> (tpc l \<in> {T_ReadOwn, T_Walk, T_Compute} \<longrightarrow> cursor_ok s ch l)"

definition reader_inv :: "mvcc \<Rightarrow> (nat \<Rightarrow> addr list) \<Rightarrow> bool" where
  "reader_inv s ch \<longleftrightarrow> (\<forall>r < g_num_thread s. reader_ok s ch r (locals s r))"

definition gc_inv :: "mvcc \<Rightarrow> (nat \<Rightarrow> addr list) \<Rightarrow> addr list \<Rightarrow> bool" where
  "gc_inv s ch ds \<longleftrightarrow>
     (let g = gc s; p = gi g
      in (gcpc g \<in> {G_Loop, G_For, G_Done} \<longrightarrow> ds = [])
         \<and> (gcpc g \<in> {G_Head, G_Check, G_Move} \<longrightarrow>
              p < g_num_thread s \<and> gminimum g \<le> minimum (g_queue s p))
         \<and> (gcpc g = G_Head \<longrightarrow> ds = [] \<and> gback g = None)
         \<and> (gcpc g \<in> {G_Check, G_Move} \<longrightarrow>
              (if delete_flag g then chain slink (singly_heap s) (gtmp g) ds else ds = []))
         \<and> (gcpc g = G_Check \<and> \<not> delete_flag g \<longrightarrow>
              (case gback g of
                 None \<Rightarrow> \<exists>t. gtmp g = Some t \<and> t \<in> set (ch p) \<and> gminimum g \<le> ver s t
               | Some b \<Rightarrow> b \<in> set (ch p) \<and> slink (the (singly_heap s b)) = gtmp g))
         \<and> (gcpc g = G_Move \<longrightarrow> (\<exists>t. gtmp g = Some t
              \<and> (\<not> delete_flag g \<longrightarrow> t \<in> set (ch p)))))"

text \<open>The sum of the two values of a thread never changes.\<close>

definition sum_ok :: "(nat \<Rightarrow> 32 word) \<Rightarrow> nat \<Rightarrow> tlocal \<Rightarrow> bool" where
  "sum_ok S i l \<longleftrightarrow> (tpc l \<in> {T_Walk, T_Compute, T_Insert} \<longrightarrow> my_A l + my_B l = S i)"

definition sum_inv :: "(nat \<Rightarrow> 32 word) \<Rightarrow> mvcc \<Rightarrow> (nat \<Rightarrow> addr list) \<Rightarrow> bool" where
  "sum_inv S s ch \<longleftrightarrow> (\<forall>i < g_num_thread s.
     (\<forall>a \<in> set (ch i). sA (the (singly_heap s a)) + sB (the (singly_heap s a)) = S i)
     \<and> sum_ok S i (locals s i))"

definition mvcc_inv :: "(nat \<Rightarrow> 32 word) \<Rightarrow> mvcc \<Rightarrow> (nat \<Rightarrow> addr list) \<Rightarrow> addr list \<Rightarrow> bool" where
  "mvcc_inv S s ch ds \<longleftrightarrow> heap_inv s ch ds \<and> version_inv s ch \<and> active_inv s \<and> mutex_inv s
     \<and> queue_inv s ch \<and> reader_inv s ch \<and> gc_inv s ch ds \<and> sum_inv S s ch"

lemmas mvcc_inv_defs = heap_inv_def version_inv_def active_inv_def mutex_inv_def
  queue_inv_def reader_inv_def reader_ok_def gc_inv_def sum_inv_def

lemmas reader_defs = reader_ok_def cursor_ok_def

section \<open>Frame lemmas\<close>

lemma lupd_simps [simp]:
  "g_num_thread (lupd i f s) = g_num_thread s"
  "g_atomic_counter (lupd i f s) = g_atomic_counter s"
  "g_active_list (lupd i f s) = g_active_list s"
  "g_singly_list (lupd i f s) = g_singly_list s"
  "singly_heap (lupd i f s) = singly_heap s"
  "g_queue (lupd i f s) = g_queue s"
  "g_mutex (lupd i f s) = g_mutex s"
  "gc (lupd i f s) = gc s"
  "locals (lupd i f s) = (locals s)(i := f (locals s i))"
  by (simp_all add: lupd_def)

lemma ver_lupd [simp]: "ver (lupd i f s) = ver s"
  by (simp add: ver_def fun_eq_iff)

lemma ver_upd [simp]:
  "ver (s\<lparr>g_mutex := m\<rparr>) = ver s" "ver (s\<lparr>g_queue := q\<rparr>) = ver s"
  "ver (s\<lparr>g_active_list := al\<rparr>) = ver s" "ver (s\<lparr>g_atomic_counter := c\<rparr>) = ver s"
  "ver (s\<lparr>locals := ls\<rparr>) = ver s" "ver (s\<lparr>gc := g\<rparr>) = ver s"
  "ver (s\<lparr>g_thread_throughput := t\<rparr>) = ver s" "ver (s\<lparr>g_is_verbosing := b\<rparr>) = ver s"
  "ver (s\<lparr>g_could_thread_run := b\<rparr>) = ver s" "ver (s\<lparr>g_singly_list := sl\<rparr>) = ver s"
  by (simp_all add: ver_def fun_eq_iff)

lemma pending_active: "p \<in> pending_pcs \<Longrightarrow> p \<in> active_pcs"
  by (auto simp: pending_pcs_def active_pcs_def)

text \<open>
  A step that moves only thread \<open>i\<close>'s local state, within the same class of program
  points and without touching its version, its target or its entry in a queue, keeps
  every part of the invariant except the reader's own part.
\<close>

definition quiet :: "tlocal \<Rightarrow> tlocal \<Rightarrow> bool" where
  "quiet l l' \<longleftrightarrow> current_version l' = current_version l
     \<and> (tpc l' \<in> active_pcs \<longleftrightarrow> tpc l \<in> active_pcs) \<and> (tpc l' \<in> pending_pcs \<longleftrightarrow> tpc l \<in> pending_pcs)
     \<and> (tpc l \<in> active_pcs \<longrightarrow> picked_thread_index l' = picked_thread_index l
          \<and> is_thread_active l' = is_thread_active l
          \<and> active_thread_version l' = active_thread_version l)"

lemma readers_quiet:
  "quiet (locals s i) (f (locals s i)) \<Longrightarrow> readers (lupd i f s) p v = readers s p v"
  by (auto simp: readers_def quiet_def)

text \<open>Each part of the invariant reads only some fields of the state.\<close>

lemma heap_inv_cong:
  assumes "g_num_thread s' = g_num_thread s" "singly_heap s' = singly_heap s"
    "g_singly_list s' = g_singly_list s"
  shows "heap_inv s' ch ds = heap_inv s ch ds"
  by (unfold heap_inv_def ver_def assms) (rule refl)

lemma version_inv_cong:
  assumes "g_num_thread s' = g_num_thread s" "singly_heap s' = singly_heap s"
    "g_atomic_counter s' = g_atomic_counter s" "locals s' = locals s"
  shows "version_inv s' ch = version_inv s ch"
  by (unfold version_inv_def ver_def assms) (rule refl)

lemma active_inv_cong:
  assumes "g_num_thread s' = g_num_thread s" "g_active_list s' = g_active_list s"
    "locals s' = locals s"
  shows "active_inv s' = active_inv s"
  by (unfold active_inv_def assms) (rule refl)

lemma queue_inv_cong:
  assumes "g_num_thread s' = g_num_thread s" "singly_heap s' = singly_heap s"
    "g_queue s' = g_queue s" "locals s' = locals s"
  shows "queue_inv s' ch = queue_inv s ch"
  by (unfold queue_inv_def readers_def ver_def assms) (rule refl)

lemma reader_ok_cong:
  assumes "g_num_thread s' = g_num_thread s" "singly_heap s' = singly_heap s"
  shows "reader_ok s' ch r l = reader_ok s ch r l"
  by (unfold reader_defs ver_def assms) (rule refl)

lemma gc_inv_cong:
  assumes "g_num_thread s' = g_num_thread s" "singly_heap s' = singly_heap s"
    "\<And>i. minimum (g_queue s' i) = minimum (g_queue s i)" "gc s' = gc s"
  shows "gc_inv s' ch ds = gc_inv s ch ds"
  by (unfold gc_inv_def ver_def assms) (rule refl)

lemma sum_inv_cong:
  assumes "g_num_thread s' = g_num_thread s" "singly_heap s' = singly_heap s"
    "locals s' = locals s"
  shows "sum_inv S s' ch = sum_inv S s ch"
  by (unfold sum_inv_def assms) (rule refl)

lemma mutex_inv_cong:
  assumes "g_num_thread s' = g_num_thread s" "g_mutex s' = g_mutex s" "locals s' = locals s"
  shows "mutex_inv s' = mutex_inv s"
  by (unfold mutex_inv_def assms) (rule refl)

lemma reader_inv_cong:
  assumes "g_num_thread s' = g_num_thread s" "singly_heap s' = singly_heap s"
    "locals s' = locals s"
  shows "reader_inv s' ch = reader_inv s ch"
  by (unfold reader_inv_def reader_defs ver_def assms) (rule refl)

lemma mvcc_inv_cong:
  assumes "g_num_thread s' = g_num_thread s" "singly_heap s' = singly_heap s"
    "g_singly_list s' = g_singly_list s" "g_atomic_counter s' = g_atomic_counter s"
    "g_active_list s' = g_active_list s" "g_queue s' = g_queue s" "g_mutex s' = g_mutex s"
    "locals s' = locals s" "gc s' = gc s"
  shows "mvcc_inv S s' ch ds = mvcc_inv S s ch ds"
  using assms unfolding mvcc_inv_def
  by (metis heap_inv_cong version_inv_cong active_inv_cong queue_inv_cong reader_inv_cong
      gc_inv_cong sum_inv_cong mutex_inv_cong)

lemma version_inv_quiet:
  assumes "quiet (locals s i) (f (locals s i))"
  shows "version_inv (lupd i f s) = version_inv s"
proof -
  have "current_version (locals (lupd i f s) j) = current_version (locals s j)
    \<and> (lpc (lupd i f s) j \<in> active_pcs \<longleftrightarrow> lpc s j \<in> active_pcs)
    \<and> (lpc (lupd i f s) j \<in> pending_pcs \<longleftrightarrow> lpc s j \<in> pending_pcs)" for j
    using assms by (auto simp: quiet_def)
  then show ?thesis by (simp add: version_inv_def fun_eq_iff del: lupd_simps(9))
qed

lemma active_inv_quiet:
  assumes "quiet (locals s i) (f (locals s i))"
  shows "active_inv (lupd i f s) = active_inv s"
proof -
  have "current_version (locals (lupd i f s) j) = current_version (locals s j)
    \<and> (lpc (lupd i f s) j \<in> active_pcs \<longleftrightarrow> lpc s j \<in> active_pcs)" for j
    using assms by (auto simp: quiet_def)
  then show ?thesis by (simp add: active_inv_def del: lupd_simps(9))
qed

lemma queue_inv_quiet:
  assumes "quiet (locals s i) (f (locals s i))"
  shows "queue_inv (lupd i f s) = queue_inv s"
proof -
  have "current_version (locals (lupd i f s) j) = current_version (locals s j)" for j
    using assms by (auto simp: quiet_def)
  then show ?thesis
    using readers_quiet [of s i f, OF assms]
    by (simp add: queue_inv_def fun_eq_iff del: lupd_simps(9))
qed

lemma quiet_step:
  assumes inv: "mvcc_inv S s ch ds" and i: "i < g_num_thread s"
    and q: "quiet (locals s i) (f (locals s i))"
    and "mutex_inv (lupd i f (s\<lparr>g_mutex := m\<rparr>))"
    and "reader_ok s ch i (f (locals s i))" "sum_ok S i (f (locals s i))"
  shows "mvcc_inv S (lupd i f (s\<lparr>g_mutex := m\<rparr>)) ch ds"
proof -
  let ?s = "s\<lparr>g_mutex := m\<rparr>"
  have q: "quiet (locals ?s i) (f (locals ?s i))" using assms(3) by simp
  have "heap_inv (lupd i f ?s) ch ds" "gc_inv (lupd i f ?s) ch ds"
    using inv heap_inv_cong [of "lupd i f ?s" s] gc_inv_cong [of "lupd i f ?s" s]
    by (simp_all add: mvcc_inv_def)
  moreover have "version_inv (lupd i f ?s) ch" "active_inv (lupd i f ?s)" "queue_inv (lupd i f ?s) ch"
    using inv version_inv_cong [of ?s s] active_inv_cong [of ?s s] queue_inv_cong [of ?s s]
    by (simp_all add: mvcc_inv_def version_inv_quiet [of ?s i f, OF q]
        active_inv_quiet [of ?s i f, OF q] queue_inv_quiet [of ?s i f, OF q])
  moreover have "reader_inv (lupd i f ?s) ch" "sum_inv S (lupd i f ?s) ch"
    using inv assms(5,6) reader_ok_cong [of "lupd i f ?s" s]
    by (auto simp: mvcc_inv_def reader_inv_def sum_inv_def)
  ultimately show ?thesis using assms(4) by (simp add: mvcc_inv_def)
qed

lemma mutex_inv_same:
  "mutex_inv s \<Longrightarrow> (tpc (f (locals s i)) \<in> {T_Enter, T_Unlock1, T_Leave, T_Unlock2} \<longleftrightarrow>
     lpc s i \<in> {T_Enter, T_Unlock1, T_Leave, T_Unlock2}) \<Longrightarrow> mutex_inv (lupd i f s)"
  by (simp add: mutex_inv_def)

lemma quiet_step0:
  assumes "mvcc_inv S s ch ds" "i < g_num_thread s" "quiet (locals s i) (f (locals s i))"
    and "tpc (f (locals s i)) \<in> {T_Enter, T_Unlock1, T_Leave, T_Unlock2} \<longleftrightarrow>
         lpc s i \<in> {T_Enter, T_Unlock1, T_Leave, T_Unlock2}"
    and "reader_ok s ch i (f (locals s i))" "sum_ok S i (f (locals s i))"
  shows "mvcc_inv S (lupd i f s) ch ds"
proof -
  have "mutex_inv (lupd i f (s\<lparr>g_mutex := g_mutex s\<rparr>))"
    using mutex_inv_same [of s f i] assms(1,4) by (simp add: mvcc_inv_def)
  from quiet_step [of S s ch ds i f, OF assms(1-3) this assms(5,6)] show ?thesis by simp
qed

section \<open>Steps that move one thread only\<close>

lemma inv_reader: "mvcc_inv S s ch ds \<Longrightarrow> i < g_num_thread s \<Longrightarrow> reader_ok s ch i (locals s i)"
  by (simp add: mvcc_inv_def reader_inv_def)

lemma inv_sum: "mvcc_inv S s ch ds \<Longrightarrow> i < g_num_thread s \<Longrightarrow> sum_ok S i (locals s i)"
  by (simp add: mvcc_inv_def sum_inv_def)

lemmas pcs_defs = active_pcs_def pending_pcs_def

lemma loop_head_inv:
  assumes "mvcc_inv S s ch ds" "i < g_num_thread s" "lpc s i = T_Loop"
  shows "mvcc_inv S (loop_head i s) ch ds"
  using assms inv_reader [OF assms(1,2)]
  by (auto simp: loop_head_def intro!: quiet_step0)
     (auto simp: quiet_def pcs_defs reader_ok_def sum_ok_def)

lemma pick_thread_inv:
  assumes "mvcc_inv S s ch ds" "i < g_num_thread s" "lpc s i = T_Pick"
  shows "mvcc_inv S (pick_thread i r s) ch ds"
  using assms
  by (auto simp: pick_thread_def Let_def intro!: quiet_step0)
     (auto simp: quiet_def pcs_defs reader_ok_def sum_ok_def)

lemma lock_mutex_inv:
  assumes inv: "mvcc_inv S s ch ds" and i: "i < g_num_thread s"
    and pc: "lpc s i = T_Lock1 \<and> p = T_Enter \<or> lpc s i = T_Lock2 \<and> p = T_Leave"
    and step: "lock_mutex i p s = Some s'"
  shows "mvcc_inv S s' ch ds"
proof -
  from step have m: "g_mutex s = None" and s': "s' = lupd i (goto p) (s\<lparr>g_mutex := Some i\<rparr>)"
    by (auto simp: lock_mutex_def split: if_splits)
  have "mutex_inv s'"
    using inv m pc by (auto simp: s' mvcc_inv_def mutex_inv_def)
  moreover have "quiet (locals s i) (goto p (locals s i))"
    using pc by (elim disjE conjE) (simp_all add: quiet_def pcs_defs)
  moreover have "reader_ok s ch i (goto p (locals s i))"
    using pc inv_reader [OF inv i] by (elim disjE conjE) (simp_all add: reader_ok_def)
  moreover have "sum_ok S i (goto p (locals s i))"
    using pc by (elim disjE conjE) (simp_all add: sum_ok_def)
  ultimately show ?thesis unfolding s' using inv i by (intro quiet_step)
qed

lemma unlock_mutex_inv:
  assumes inv: "mvcc_inv S s ch ds" and i: "i < g_num_thread s"
    and pc: "lpc s i = T_Unlock1 \<and> p = T_ReadCursor \<or> lpc s i = T_Unlock2 \<and> p = T_Finish"
  shows "mvcc_inv S (unlock_mutex i p s) ch ds"
proof -
  have "g_mutex s = Some i" using inv i pc by (auto simp: mvcc_inv_def mutex_inv_def)
  then have "mutex_inv (unlock_mutex i p s)"
    using inv i pc by (auto simp: unlock_mutex_def mvcc_inv_def mutex_inv_def)
  moreover have "quiet (locals s i) (goto p (locals s i))"
    using pc by (elim disjE conjE) (simp_all add: quiet_def pcs_defs)
  moreover have "reader_ok s ch i (goto p (locals s i))"
    using pc inv_reader [OF inv i] by (elim disjE conjE) (simp_all add: reader_ok_def)
  moreover have "sum_ok S i (goto p (locals s i))"
    using pc by (elim disjE conjE) (simp_all add: sum_ok_def)
  ultimately show ?thesis unfolding unlock_mutex_def using inv i by (intro quiet_step)
qed

lemma inv_heap: "mvcc_inv S s ch ds \<Longrightarrow> heap_inv s ch ds"
  by (simp add: mvcc_inv_def)

lemma inv_queue:
  assumes "mvcc_inv S s ch ds" "p < g_num_thread s"
  shows "queue_ok (g_queue s p)" "sorted (qlist (g_queue s p))"
    "count_list (qlist (g_queue s p)) v = card (readers s p v)"
    "v \<in> set (qlist (g_queue s p)) \<Longrightarrow>
       v \<in> insert (current_version (locals s p)) (versions s (ch p))"
    "v \<in> set (qlist (g_queue s p)) \<Longrightarrow> minimum (g_queue s p) < v"
    "v \<in> set (qlist (g_queue s p)) \<Longrightarrow> delete_front (g_queue s p) \<le> v"
    "delete_front (g_queue s p) \<in> insert (current_version (locals s p)) (versions s (ch p))"
    "minimum (g_queue s p) \<le> delete_front (g_queue s p)"
    "minimum (g_queue s p) \<in> versions s (ch p)"
    "minimum (g_queue s p) = 0 \<or> minimum (g_queue s p) < current_version (locals s p)"
proof -
  from assms(1) have q: "queue_inv s ch" by (simp add: mvcc_inv_def)
  note q = q [unfolded queue_inv_def Let_def, rule_format, OF assms(2)]
  show "queue_ok (g_queue s p)" "sorted (qlist (g_queue s p))"
    "count_list (qlist (g_queue s p)) v = card (readers s p v)"
    "delete_front (g_queue s p) \<in> insert (current_version (locals s p)) (versions s (ch p))"
    "minimum (g_queue s p) \<le> delete_front (g_queue s p)"
    "minimum (g_queue s p) \<in> versions s (ch p)"
    "minimum (g_queue s p) = 0 \<or> minimum (g_queue s p) < current_version (locals s p)"
    using q by blast+
  show "v \<in> set (qlist (g_queue s p)) \<Longrightarrow>
       v \<in> insert (current_version (locals s p)) (versions s (ch p))"
    "v \<in> set (qlist (g_queue s p)) \<Longrightarrow> minimum (g_queue s p) < v"
    "v \<in> set (qlist (g_queue s p)) \<Longrightarrow> delete_front (g_queue s p) \<le> v"
    using q by blast+
qed

section \<open>Version lists\<close>

lemma heap_invD:
  assumes "heap_inv s ch ds" "i < g_num_thread s"
  shows "chain slink (singly_heap s) (g_singly_list s i) (ch i)" "ch i \<noteq> []"
    "sorted_wrt (\<lambda>a b. ver s b < ver s a) (ch i)" "set (ch i) \<inter> set ds = {}"
  using assms by (auto simp: heap_inv_def)

lemma list_head:
  assumes "heap_inv s ch ds" "i < g_num_thread s"
  obtains a n where "g_singly_list s i = Some a" "a = hd (ch i)" "a \<in> set (ch i)"
    "singly_heap s a = Some n" "\<forall>b \<in> set (ch i). ver s b \<le> ver s a"
proof -
  from heap_invD(2) [OF assms] obtain a as where as: "ch i = a # as" by (cases "ch i") auto
  with heap_invD(1) [OF assms] obtain n where "singly_heap s a = Some n"
    by (auto split: option.splits)
  with as heap_invD(1,3) [OF assms] show ?thesis
    by (intro that [of a n]) (auto intro: less_imp_le)
qed

lemma chain_next:
  assumes "chain slink h p as" "sorted_wrt (\<lambda>a b. v b < (v a :: nat)) as"
    and "c \<in> set as" "a \<in> set as" "v a < v c"
  shows "\<exists>n c'. h c = Some n \<and> slink n = Some c' \<and> c' \<in> set as \<and> v c' < v c
    \<and> (\<forall>b \<in> set as. v b < v c \<longrightarrow> v b \<le> v c')"
proof -
  from assms(3) obtain us vs where as: "as = us @ c # vs" by (auto simp: in_set_conv_decomp)
  from assms(1) obtain n where n: "h c = Some n" "chain slink h (slink n) vs"
    using chain_suffix unfolding as by blast
  from assms(2) have us: "\<forall>b \<in> set us. v c < v b" and vs: "\<forall>b \<in> set vs. v b < v c"
    by (auto simp: as sorted_wrt_append)
  with assms(4,5) have "a \<in> set vs" by (force simp: as)
  then obtain c' ws where ws: "vs = c' # ws" by (cases vs) auto
  with n have "slink n = Some c'" by simp
  moreover have "\<forall>b \<in> set as. v b < v c \<longrightarrow> v b \<le> v c'"
    using assms(2) us by (force simp: as ws sorted_wrt_append)
  ultimately show ?thesis using n vs by (auto simp: as ws)
qed

section \<open>Reading\<close>

lemma active_pcs_not: "p \<in> active_pcs \<Longrightarrow> p \<notin> {T_Loop, T_Pick, T_Done}"
  by (auto simp: active_pcs_def)

lemma reader_picked:
  "reader_ok s ch r l \<Longrightarrow> tpc l \<notin> {T_Loop, T_Pick, T_Done} \<Longrightarrow>
   picked_thread_index l < g_num_thread s \<and> picked_thread_index l \<noteq> r"
  by (simp add: reader_defs)

lemma reader_queued:
  assumes inv: "mvcc_inv S s ch ds" and i: "i < g_num_thread s" and a: "lpc s i \<in> active_pcs"
    and act: "is_thread_active (locals s i)"
  shows "picked_thread_index (locals s i) < g_num_thread s"
    and "active_thread_version (locals s i)
      \<in> set (qlist (g_queue s (picked_thread_index (locals s i))))"
proof -
  let ?p = "picked_thread_index (locals s i)" and ?v = "active_thread_version (locals s i)"
  show p: "?p < g_num_thread s"
    using reader_picked [OF inv_reader [OF inv i]] active_pcs_not [OF a] by blast
  have "i \<in> readers s ?p ?v" using i a act by (simp add: readers_def)
  moreover have "finite (readers s ?p ?v)" by (simp add: readers_def)
  ultimately have "card (readers s ?p ?v) \<noteq> 0" by auto
  then have "count_list (qlist (g_queue s ?p)) ?v \<noteq> 0"
    using inv_queue(3) [OF inv p] by simp
  then show "?v \<in> set (qlist (g_queue s ?p))" by (simp add: count_list_0_iff)
qed

lemma read_cursor_inv:
  assumes inv: "mvcc_inv S s ch ds" and i: "i < g_num_thread s" and pc: "lpc s i = T_ReadCursor"
  shows "mvcc_inv S (read_cursor i s) ch ds"
proof -
  let ?p = "picked_thread_index (locals s i)"
  have r: "?p < g_num_thread s" "?p \<noteq> i"
    using inv_reader [OF inv i] pc by (auto simp: reader_defs Let_def)
  from inv have "heap_inv s ch ds" by (simp add: mvcc_inv_def)
  from list_head [OF this r(1)] obtain a where "g_singly_list s ?p = Some a"
    "a \<in> set (ch ?p)" "\<forall>b \<in> set (ch ?p). ver s b \<le> ver s a" by metis
  then show ?thesis
    unfolding read_cursor_def using inv i pc r
    by (intro quiet_step0) (auto simp: quiet_def pcs_defs reader_defs sum_ok_def Let_def)
qed

lemma read_own_inv:
  assumes inv: "mvcc_inv S s ch ds" and i: "i < g_num_thread s" and pc: "lpc s i = T_ReadOwn"
  shows "\<exists>s'. read_own i s = Inr s' \<and> mvcc_inv S s' ch ds"
proof -
  from inv have "heap_inv s ch ds" by (simp add: mvcc_inv_def)
  from list_head [OF this i] obtain a n where a: "g_singly_list s i = Some a" "a \<in> set (ch i)"
    "singly_heap s a = Some n" by metis
  let ?f = "\<lambda>l. l\<lparr>tpc := T_Walk, my_A := sA n, my_B := sB n\<rparr>"
  have "sA n + sB n = S i" using inv i a by (force simp: mvcc_inv_def sum_inv_def)
  then have "mvcc_inv S (lupd i ?f s) ch ds"
    using inv i pc inv_reader [OF inv i]
    by (intro quiet_step0) (auto simp: quiet_def pcs_defs reader_defs sum_ok_def Let_def)
  with a show ?thesis by (simp add: read_own_def)
qed

lemma walk_cursor_inv:
  assumes inv: "mvcc_inv S s ch ds" and i: "i < g_num_thread s" and pc: "lpc s i = T_Walk"
  shows "\<exists>s'. walk_cursor i s = Inr s' \<and> mvcc_inv S s' ch ds"
proof (cases "is_thread_active (locals s i)")
  case False
  then have "mvcc_inv S (lupd i (goto T_Compute) s) ch ds"
    using inv i pc inv_reader [OF inv i] inv_sum [OF inv i]
    by (intro quiet_step0) (auto simp: quiet_def pcs_defs reader_defs sum_ok_def Let_def)
  with False show ?thesis by (simp add: walk_cursor_def Let_def)
next
  case True
  let ?p = "picked_thread_index (locals s i)" and ?v = "active_thread_version (locals s i)"
  from inv have h: "heap_inv s ch ds" by (simp add: mvcc_inv_def)
  have "lpc s i \<in> active_pcs" using pc by (simp add: active_pcs_def)
  note q = reader_queued [OF inv i this True]
  from inv_reader [OF inv i] pc True obtain c where c: "cursor_singly_node (locals s i) = Some c"
    "c \<in> set (ch ?p)" "\<forall>w \<in> versions s (ch ?p). w < ?v \<longrightarrow> w \<le> ver s c" and pi: "?p \<noteq> i"
    by (auto simp: reader_defs Let_def)
  from heap_invD(1) [OF h q(1)] c(2) obtain n where n: "singly_heap s c = Some n"
    using seg_dom by (metis domD)
  have ver: "ver s c = sversion n" by (simp add: ver_def n)
  show ?thesis
  proof (cases "sversion n < ?v")
    case lt: True
    have "mvcc_inv S (lupd i (goto T_Compute) s) ch ds"
      using inv i pc inv_reader [OF inv i] inv_sum [OF inv i] c lt
      by (intro quiet_step0) (auto simp: quiet_def pcs_defs reader_defs sum_ok_def Let_def ver)
    with True c n lt show ?thesis by (simp add: walk_cursor_def Let_def)
  next
    case ge: False
    from inv_queue(5,9) [OF inv q(1)] q(2) obtain a where "a \<in> set (ch ?p)" "ver s a < ?v"
      by auto
    with chain_next [OF heap_invD(1,3) [OF h q(1)] c(2), of a] ge ver obtain c' where
      c': "slink n = Some c'" "c' \<in> set (ch ?p)"
      "\<forall>b \<in> set (ch ?p). ver s b < ver s c \<longrightarrow> ver s b \<le> ver s c'"
      using n by auto
    have "mvcc_inv S (lupd i (\<lambda>l. l\<lparr>cursor_singly_node := slink n\<rparr>) s) ch ds"
      using inv i pc q(1) pi c' ge ver inv_sum [OF inv i]
      by (intro quiet_step0) (auto simp: quiet_def pcs_defs reader_defs sum_ok_def Let_def)
    with True c n ge show ?thesis by (simp add: walk_cursor_def Let_def)
  qed
qed

text \<open>
  The read itself. The cursor of a reader whose target was active points to a live
  node; for an inactive target the invariant says nothing about the node.
\<close>

lemma compute_update_inv:
  assumes inv: "mvcc_inv S s ch ds" and i: "i < g_num_thread s" and pc: "lpc s i = T_Compute"
    and step: "compute_update i s = Inr s'"
  shows "mvcc_inv S s' ch ds"
proof -
  from step obtain n :: SinglyNode where s': "s' = lupd i (\<lambda>l. l\<lparr>tpc := T_Insert,
      my_A := my_A l + rem100 (sA n), my_B := my_B l - rem100 (sA n)\<rparr>) s"
    unfolding compute_update_def rbind_eq_Inr_iff by blast
  show ?thesis
    unfolding s' using inv i pc inv_reader [OF inv i] inv_sum [OF inv i]
    by (intro quiet_step0) (auto simp: quiet_def pcs_defs reader_ok_def sum_ok_def Let_def)
qed

lemma compute_update_active:
  assumes inv: "mvcc_inv S s ch ds" and i: "i < g_num_thread s" and pc: "lpc s i = T_Compute"
    and act: "is_thread_active (locals s i)"
  shows "\<exists>s'. compute_update i s = Inr s'"
proof -
  have "lpc s i \<in> active_pcs" using pc by (simp add: active_pcs_def)
  note q = reader_queued [OF inv i this act]
  from inv_reader [OF inv i] pc act obtain c where c: "cursor_singly_node (locals s i) = Some c"
    "c \<in> set (ch (picked_thread_index (locals s i)))" by (auto simp: reader_defs Let_def)
  moreover from inv have "heap_inv s ch ds" by (simp add: mvcc_inv_def)
  ultimately obtain n where "singly_heap s c = Some n"
    using seg_dom heap_invD(1) [OF _ q(1)] by (metis domD)
  with c show ?thesis by (simp add: compute_update_def)
qed

lemma finish_update_inv:
  assumes inv: "mvcc_inv S s ch ds" and i: "i < g_num_thread s" and pc: "lpc s i = T_Finish"
  shows "mvcc_inv S (finish_update i s) ch ds"
proof -
  let ?f = "\<lambda>l. l\<lparr>tpc := T_Loop, capture_active_list := []\<rparr>"
  have "mvcc_inv S (lupd i ?f s) ch ds"
    using inv i pc
    by (intro quiet_step0) (auto simp: quiet_def pcs_defs reader_ok_def sum_ok_def Let_def)
  moreover have "mvcc_inv S (finish_update i s) ch ds = mvcc_inv S (lupd i ?f s) ch ds"
    by (rule mvcc_inv_cong) (simp_all add: finish_update_def lupd_def)
  ultimately show ?thesis by simp
qed

section \<open>Publishing a new version\<close>

lemma gc_ds_dom: "gc_inv s ch ds \<Longrightarrow> d \<in> set ds \<Longrightarrow> d \<in> dom (singly_heap s)"
  by (cases "gcpc (gc s)") (auto simp: gc_inv_def Let_def dest: seg_dom split: if_splits)

lemma gc_inv_mono:
  assumes g: "gc_inv s ch ds" and eq: "g_num_thread t = g_num_thread s" "gc t = gc s"
    and min: "minimum (g_queue s (gi (gc s))) \<le> minimum (g_queue t (gi (gc s)))"
    and ds: "\<And>q. chain slink (singly_heap s) q ds \<Longrightarrow> chain slink (singly_heap t) q ds"
    and nodes: "\<And>b. b \<in> set (ch (gi (gc s))) \<Longrightarrow> gi (gc s) < g_num_thread s \<Longrightarrow>
      b \<in> set (ch' (gi (gc s))) \<and> slink (the (singly_heap t b)) = slink (the (singly_heap s b))
      \<and> ver t b = ver s b"
  shows "gc_inv t ch' ds"
proof (cases "gcpc (gc s)")
  case G_Head
  then show ?thesis using g eq min by (auto simp: gc_inv_def Let_def)
next
  case G_Check
  let ?p = "gi (gc s)"
  have a: "?p < g_num_thread s" "gminimum (gc s) \<le> minimum (g_queue s ?p)"
    and b: "if delete_flag (gc s) then chain slink (singly_heap s) (gtmp (gc s)) ds else ds = []"
    and c: "\<not> delete_flag (gc s) \<Longrightarrow> (case gback (gc s) of
        None \<Rightarrow> \<exists>t. gtmp (gc s) = Some t \<and> t \<in> set (ch ?p) \<and> gminimum (gc s) \<le> ver s t
      | Some b \<Rightarrow> b \<in> set (ch ?p) \<and> slink (the (singly_heap s b)) = gtmp (gc s))"
    using g G_Check by (simp_all add: gc_inv_def Let_def)
  have "\<not> delete_flag (gc s) \<Longrightarrow> (case gback (gc s) of
        None \<Rightarrow> \<exists>u. gtmp (gc s) = Some u \<and> u \<in> set (ch' ?p) \<and> gminimum (gc s) \<le> ver t u
      | Some b \<Rightarrow> b \<in> set (ch' ?p) \<and> slink (the (singly_heap t b)) = gtmp (gc s))"
    using c nodes [OF _ a(1)] by (cases "gback (gc s)") auto
  then show ?thesis
    using G_Check eq a min b ds by (simp add: gc_inv_def Let_def)
next
  case G_Move
  let ?p = "gi (gc s)"
  have a: "?p < g_num_thread s" "gminimum (gc s) \<le> minimum (g_queue s ?p)"
    and b: "if delete_flag (gc s) then chain slink (singly_heap s) (gtmp (gc s)) ds else ds = []"
    and c: "\<exists>t. gtmp (gc s) = Some t \<and> (\<not> delete_flag (gc s) \<longrightarrow> t \<in> set (ch ?p))"
    using g G_Move by (simp_all add: gc_inv_def Let_def)
  from c nodes [OF _ a(1)]
  have "\<exists>t. gtmp (gc s) = Some t \<and> (\<not> delete_flag (gc s) \<longrightarrow> t \<in> set (ch' ?p))" by blast
  then show ?thesis using G_Move eq a min b ds by (simp add: gc_inv_def Let_def)
qed (use g eq in \<open>auto simp: gc_inv_def Let_def\<close>)

lemma fresh_node:
  assumes inv: "mvcc_inv S s ch ds" and a: "singly_heap s a = None"
  shows "j < g_num_thread s \<Longrightarrow> a \<notin> set (ch j)" and "a \<notin> set ds"
proof -
  show "j < g_num_thread s \<Longrightarrow> a \<notin> set (ch j)"
    using heap_invD(1) [OF inv_heap [OF inv]] seg_dom a by (metis domIff)
  show "a \<notin> set ds" using gc_ds_dom inv a by (auto simp: mvcc_inv_def)
qed

lemma issued_le:
  assumes "mvcc_inv S s ch ds" "p < g_num_thread s"
    and "v \<in> insert (current_version (locals s p)) (versions s (ch p))"
  shows "v \<le> current_version (locals s p)"
proof -
  from list_head [OF inv_heap [OF assms(1)] assms(2)] obtain a where
    "a = hd (ch p)" "\<forall>b \<in> set (ch p). ver s b \<le> ver s a" by metis
  moreover have "version_inv s ch" using assms(1) by (simp add: mvcc_inv_def)
  then have "if lpc s p \<in> pending_pcs
      then \<forall>w \<in> versions s (ch p). w < current_version (locals s p)
      else ver s (hd (ch p)) = current_version (locals s p)"
    using assms(2) by (simp add: version_inv_def)
  ultimately show ?thesis using assms(3) by (auto split: if_splits intro: less_imp_le)
qed

lemma insert_update_inv:
  assumes inv: "mvcc_inv S s ch ds" and i: "i < g_num_thread s" and pc: "lpc s i = T_Insert"
    and a: "singly_heap s a = None"
  shows "mvcc_inv S (insert_update i a s) (ch(i := a # ch i)) ds"
proof -
  let ?l = "locals s i" and ?ch = "ch(i := a # ch i)" and ?t = "insert_update i a s"
  let ?N = "\<lparr>sA = my_A ?l, sB = my_B ?l, sversion = current_version ?l, slink = g_singly_list s i\<rparr>"
  have fld [simp]: "g_num_thread ?t = g_num_thread s" "g_atomic_counter ?t = g_atomic_counter s"
    "g_active_list ?t = g_active_list s" "g_queue ?t = g_queue s" "g_mutex ?t = g_mutex s"
    "gc ?t = gc s" "singly_heap ?t = (singly_heap s)(a \<mapsto> ?N)"
    "g_singly_list ?t = (g_singly_list s)(i := Some a)"
    "locals ?t = (locals s)(i := goto T_Lock2 ?l)"
    by (simp_all add: insert_update_def InsertSinglyList_def Let_def)
  note fr = fresh_node [OF inv a] and hD = heap_invD [OF inv_heap [OF inv]]
  have pend: "lpc s i \<in> pending_pcs" "lpc s i \<in> active_pcs" "T_Lock2 \<in> active_pcs"
    "T_Lock2 \<notin> pending_pcs" using pc by (simp_all add: pcs_defs)
  have ver [simp]: "ver ?t a = current_version ?l" "b \<noteq> a \<Longrightarrow> ver ?t b = ver s b" for b
    by (simp_all add: ver_def)
  have vimg [simp]: "j < g_num_thread s \<Longrightarrow> versions ?t (ch j) = versions s (ch j)" for j
    using fr(1) [of j] by (intro image_cong) (auto intro!: ver(2))
  have verc: "j < g_num_thread s \<Longrightarrow> x \<in> set (ch j) \<Longrightarrow> ver ?t x = ver s x" for j x
    using fr(1) [of j] by (auto intro!: ver(2))
  have vi: "version_inv s ch" using inv by (simp add: mvcc_inv_def)
  then have new: "\<forall>w \<in> versions s (ch i). w < current_version ?l"
    using i pend by (simp add: version_inv_def)
  have sortd: "sorted_wrt (\<lambda>x y. ver ?t y < ver ?t x) (ch j) =
      sorted_wrt (\<lambda>x y. ver s y < ver s x) (ch j)" if "j < g_num_thread s" for j
    using fr(1) [OF that] by (auto simp: sorted_wrt_iff_nth_less in_set_conv_nth)
  have 1: "heap_inv ?t ?ch ds"
    using inv_heap [OF inv] fr new i sortd
    by (auto simp: heap_inv_def seg_upd_other verc)
  have iss: "insert (current_version (locals ?t j)) (versions ?t (?ch j)) =
      insert (current_version (locals s j)) (versions s (ch j))" if "j < g_num_thread s" for j
    using vimg [OF that] by auto
  have 2: "version_inv ?t ?ch"
    unfolding version_inv_def
    using vi i pend iss hD(2) by (auto simp: version_inv_def verc)
  have 3: "active_inv ?t" using inv pend by (auto simp: mvcc_inv_def active_inv_def)
  have 4: "mutex_inv ?t" using inv pc by (auto simp: mvcc_inv_def mutex_inv_def)
  have rd: "readers ?t p v = readers s p v" for p v
    using pend by (auto simp: readers_def)
  have 5: "queue_inv ?t ?ch"
    unfolding queue_inv_def Let_def
    using inv_queue [OF inv] iss by (simp add: rd)
  have 6: "reader_inv ?t ?ch"
    unfolding reader_inv_def
  proof (intro allI impI)
    fix r assume r: "r < g_num_thread ?t"
    show "reader_ok ?t ?ch r (locals ?t r)"
    proof (cases "r = i")
      case True
      then show ?thesis using inv_reader [OF inv i] pc by (simp add: reader_defs)
    next
      case False
      let ?m = "locals s r"
      let ?p = "picked_thread_index ?m"
      note ok = inv_reader [OF inv, of r]
      have "cursor_ok ?t ?ch ?m"
        if m: "tpc ?m \<in> {T_ReadOwn, T_Walk, T_Compute}" and c: "cursor_ok s ch ?m"
      proof (cases "is_thread_active ?m")
        case True
        have "tpc ?m \<in> active_pcs" using m by (auto simp: active_pcs_def)
        from reader_queued [OF inv _ this True] r have
          q: "?p < g_num_thread s" "active_thread_version ?m \<in> set (qlist (g_queue s ?p))" by auto
        from issued_le [OF inv q(1) inv_queue(4) [OF inv q]]
        have "active_thread_version ?m \<le> current_version (locals s ?p)" .
        moreover from c True obtain c where c: "cursor_singly_node ?m = Some c" "c \<in> set (ch ?p)"
          "\<forall>w \<in> versions s (ch ?p). w < active_thread_version ?m \<longrightarrow> w \<le> ver s c"
          "tpc ?m = T_Compute \<longrightarrow> ver s c < active_thread_version ?m" by (auto simp: cursor_ok_def)
        moreover have "ver ?t c = ver s c" by (rule verc [OF q(1) c(2)])
        ultimately show ?thesis using verc [OF q(1)] by (auto simp: cursor_ok_def)
      qed (use c in \<open>simp add: cursor_ok_def\<close>)
      with ok r False show ?thesis by (simp add: reader_ok_def)
    qed
  qed
  have 7: "gc_inv ?t ?ch ds"
  proof (rule gc_inv_mono [of s ch ds])
    show "gc_inv s ch ds" using inv by (simp add: mvcc_inv_def)
    show "chain slink (singly_heap ?t) q ds" if "chain slink (singly_heap s) q ds" for q
      using that fr(2) by (simp add: seg_upd_other)
    show "b \<in> set (?ch (gi (gc s))) \<and> slink (the (singly_heap ?t b)) = slink (the (singly_heap s b))
        \<and> ver ?t b = ver s b" if "b \<in> set (ch (gi (gc s)))" "gi (gc s) < g_num_thread s" for b
      using that fr(1) [OF that(2)] verc [OF that(2,1)] by auto
  qed simp_all
  have 8: "sum_inv S ?t ?ch"
    using inv i fr(1) inv_sum [OF inv i] pc by (auto simp: mvcc_inv_def sum_inv_def sum_ok_def)
  show ?thesis unfolding mvcc_inv_def using 1 2 3 4 5 6 7 8 by blast
qed

section \<open>Entering: a new version and its place in the queue\<close>

lemma inv_version:
  assumes "mvcc_inv S s ch ds" "i < g_num_thread s"
  shows "current_version (locals s i) \<le> g_atomic_counter s"
    "lpc s i \<notin> pending_pcs \<Longrightarrow> current_version (locals s i) \<in> versions s (ch i)"
    "lpc s i \<in> active_pcs \<Longrightarrow> 0 < current_version (locals s i)"
proof -
  from assms have vi: "version_inv s ch" by (simp add: mvcc_inv_def)
  then show "current_version (locals s i) \<le> g_atomic_counter s"
    "lpc s i \<in> active_pcs \<Longrightarrow> 0 < current_version (locals s i)"
    using assms(2) by (simp_all add: version_inv_def)
  assume "lpc s i \<notin> pending_pcs"
  with vi assms(2) have "ver s (hd (ch i)) = current_version (locals s i)"
    by (simp add: version_inv_def)
  with heap_invD(2) [OF inv_heap [OF assms(1)] assms(2)]
  show "current_version (locals s i) \<in> versions s (ch i)" by (metis imageI list.set_sel(1))
qed

lemma inv_active:
  assumes "mvcc_inv S s ch ds"
  shows "distinct (map index_thread (g_active_list s))"
    "\<lparr>index_thread = i, aversion = v\<rparr> \<in> set (g_active_list s) \<longleftrightarrow>
       i < g_num_thread s \<and> lpc s i \<in> active_pcs \<and> v = current_version (locals s i)"
  using assms by (simp_all add: mvcc_inv_def active_inv_def)

text \<open>The part of the queue invariant that concerns one thread's queue.\<close>

definition queue_part :: "Queue \<Rightarrow> (nat \<Rightarrow> nat set) \<Rightarrow> nat \<Rightarrow> nat set \<Rightarrow> bool" where
  "queue_part q R cv vs \<longleftrightarrow> queue_ok q \<and> sorted (qlist q)
     \<and> (\<forall>v. count_list (qlist q) v = card (R v))
     \<and> (\<forall>v \<in> set (qlist q). v \<in> insert cv vs \<and> minimum q < v \<and> delete_front q \<le> v)
     \<and> delete_front q \<in> insert cv vs \<and> minimum q \<le> delete_front q
     \<and> minimum q \<in> vs \<and> (minimum q = 0 \<or> minimum q < cv)"

lemma queue_inv_parts: "queue_inv s ch \<longleftrightarrow> (\<forall>p < g_num_thread s.
   queue_part (g_queue s p) (readers s p) (current_version (locals s p)) (versions s (ch p)))"
  by (simp add: queue_inv_def queue_part_def Let_def)

lemma inv_queue_part: "mvcc_inv S s ch ds \<Longrightarrow> p < g_num_thread s \<Longrightarrow>
   queue_part (g_queue s p) (readers s p) (current_version (locals s p)) (versions s (ch p))"
  by (simp add: mvcc_inv_def queue_inv_parts)

text \<open>The thread takes a newer version: what was its current version is in its list.\<close>

lemma queue_part_newer:
  "queue_part q R cv vs \<Longrightarrow> cv \<in> vs \<Longrightarrow> cv < cv' \<Longrightarrow> queue_part q R cv' vs"
  by (auto simp: queue_part_def)

text \<open>Versions below the minimum may disappear from the list.\<close>

lemma queue_part_cut:
  assumes "queue_part q R cv vs" "\<forall>w \<in> vs. minimum q \<le> w \<longrightarrow> w \<in> vs'"
  shows "queue_part q R cv vs'"
proof -
  have "w \<in> insert cv vs'" if "w \<in> insert cv vs" "minimum q \<le> w" for w
    using that assms(2) by blast
  with assms show ?thesis unfolding queue_part_def by (meson less_imp_le order_refl)
qed

lemma queue_part_add:
  assumes q: "queue_part q R cv vs" and a: "qcells q a = None" and cv: "0 < cv" "cv < 2 ^ 31"
    and le: "\<forall>v \<in> vs. v \<le> cv" and i: "i \<notin> R cv" "finite (R cv)"
  shows "\<exists>q'. AddRear a q (int_of_u64 cv) = Inr q' \<and> minimum q' = minimum q
    \<and> queue_part q' (R(cv := insert i (R cv))) cv vs"
proof -
  from q have ok: "queue_ok q" by (simp add: queue_part_def)
  from gq.add_law [OF ok a cv(2)] obtain q' where q': "AddRear a q (int_of_u64 cv) = Inr q'"
    "queue_ok q'" "qlist q' = qlist q @ [cv]" "minimum q' = minimum q"
    "delete_front q' = delete_front q" by auto
  from q le have qle: "\<forall>v \<in> set (qlist q). v \<le> cv" by (auto simp: queue_part_def)
  then have "sorted (qlist q')"
    using gq.add_sorted [OF ok a cv(2) _ _ q'(1)] q by (simp add: queue_part_def)
  with q q' cv le i show ?thesis by (auto simp: queue_part_def)
qed

lemma not_active_index:
  assumes inv: "mvcc_inv S s ch ds" and i: "lpc s i \<notin> active_pcs"
  shows "i \<notin> index_thread ` set (g_active_list s)"
proof
  assume "i \<in> index_thread ` set (g_active_list s)"
  then obtain x :: ActiveNode where "x \<in> set (g_active_list s)" "index_thread x = i" by auto
  then have "\<lparr>index_thread = i, aversion = aversion x\<rparr> \<in> set (g_active_list s)"
    by (metis ActiveNode.surjective old.unit.exhaust)
  with i show False using inv_active(2) [OF inv] by blast
qed

lemma find_active_capture:
  assumes inv: "mvcc_inv S s ch ds" and i: "lpc s i \<notin> active_pcs" and p: "p < g_num_thread s" "p \<noteq> i"
  shows "find_active p (CaptureActiveList (InsertGlobalActiveList i N (g_active_list s))) =
    (if lpc s p \<in> active_pcs then Some (current_version (locals s p)) else None)"
proof -
  let ?A = "CaptureActiveList (InsertGlobalActiveList i N (g_active_list s))"
  have "i \<notin> index_thread ` set (g_active_list s)" by (rule not_active_index [OF inv i])
  then have d: "distinct (map index_thread ?A)"
    using inv_active(1) [OF inv]
    by (simp add: CaptureActiveList_rev InsertGlobalActiveList_def rev_map [symmetric])
  have "find_active p ?A = Some v \<longleftrightarrow> lpc s p \<in> active_pcs \<and> v = current_version (locals s p)" for v
    unfolding find_active_Some_iff [OF d]
    using p inv_active(2) [OF inv, of p v]
    by (simp add: CaptureActiveList_rev InsertGlobalActiveList_def)
  then show ?thesis by (cases "find_active p ?A") auto
qed

lemma disjoint0:
  assumes "insert c A \<inter> insert d B \<subseteq> {0 :: nat}" "N \<notin> insert c A" "N \<notin> insert d B"
  shows "insert N A \<inter> insert d B \<subseteq> {0}" "insert c A \<inter> insert N B \<subseteq> {0}"
  using assms by blast+

text \<open>
  Thread \<open>i\<close> becomes active with version \<open>N\<close>; all other parts of the state but the
  queue of its target stay as they are.
\<close>

lemma enter_frame:
  assumes inv: "mvcc_inv S s ch ds" and i: "i < g_num_thread s" and pc: "lpc s i = T_Enter"
    and N: "N = g_atomic_counter s + 1"
    and fld: "g_num_thread t = g_num_thread s" "singly_heap t = singly_heap s"
      "g_singly_list t = g_singly_list s" "g_atomic_counter t = N"
      "g_active_list t = InsertGlobalActiveList i N (g_active_list s)"
      "g_mutex t = g_mutex s" "gc t = gc s" "\<And>p. minimum (g_queue t p) = minimum (g_queue s p)"
      "locals t = (locals s)(i := l)"
    and l: "tpc l = T_Unlock1" "current_version l = N"
      "picked_thread_index l = picked_thread_index (locals s i)"
    and q: "queue_inv t ch"
  shows "mvcc_inv S t ch ds"
proof -
  have ver: "ver t = ver s" by (simp add: ver_def fun_eq_iff fld)
  have np: "lpc s i \<notin> active_pcs" "lpc s i \<notin> pending_pcs" "T_Unlock1 \<in> active_pcs"
    "T_Unlock1 \<in> pending_pcs" using pc by (simp_all add: pcs_defs)
  have vi: "version_inv s ch" using inv by (simp add: mvcc_inv_def)
  have old: "v \<le> g_atomic_counter s"
    if "j < g_num_thread s" "v \<in> insert (current_version (locals s j)) (versions s (ch j))" for j v
    using issued_le [OF inv that] inv_version(1) [OF inv that(1)] by simp
  have 1: "heap_inv t ch ds" using heap_inv_cong [of t s] inv_heap [OF inv] fld by simp
  have lt: "v < N" if "j < g_num_thread s"
      "v \<in> insert (current_version (locals s j)) (versions s (ch j))" for j v
    using old [OF that] N by simp
  have 2: "version_inv t ch"
    unfolding version_inv_def fld(1,4) ver
  proof (intro conjI allI impI)
    fix j assume j: "j < g_num_thread s"
    show "current_version (locals t j) \<le> N"
      using lt [OF j] l(2) by (auto simp: fld intro: less_imp_le)
    show "if lpc t j \<in> pending_pcs then \<forall>w \<in> versions s (ch j). w < current_version (locals t j)
        else ver s (hd (ch j)) = current_version (locals t j)"
      using vi j lt [OF j] np l by (auto simp: fld version_inv_def)
    show "0 < current_version (locals t j)" if "lpc t j \<in> active_pcs"
      using vi j that l N by (auto simp: fld version_inv_def split: if_splits)
    fix k assume k: "k < g_num_thread s" and jk: "j \<noteq> k"
    have d: "insert (current_version (locals s j)) (versions s (ch j))
        \<inter> insert (current_version (locals s k)) (versions s (ch k)) \<subseteq> {0}"
      using vi j k jk by (simp add: version_inv_def)
    have n: "N \<notin> insert (current_version (locals s j)) (versions s (ch j))"
      "N \<notin> insert (current_version (locals s k)) (versions s (ch k))"
      using lt [OF j, of N] lt [OF k, of N] by blast+
    have "current_version (locals t m) = (if m = i then N else current_version (locals s m))"
      for m using l(2) by (simp add: fld)
    then show "insert (current_version (locals t j)) (versions s (ch j))
        \<inter> insert (current_version (locals t k)) (versions s (ch k)) \<subseteq> {0}"
      using d disjoint0 [OF d n] jk by (cases "j = i"; cases "k = i") simp_all
  qed
  have 3: "active_inv t"
    unfolding active_inv_def
  proof (intro conjI allI)
    show "distinct (map index_thread (g_active_list t))"
      using inv_active(1) [OF inv] not_active_index [OF inv np(1)]
      by (simp add: fld InsertGlobalActiveList_def)
    fix j v
    show "\<lparr>index_thread = j, aversion = v\<rparr> \<in> set (g_active_list t) \<longleftrightarrow>
        j < g_num_thread t \<and> lpc t j \<in> active_pcs \<and> v = current_version (locals t j)"
      using inv_active(2) [OF inv, of j v] np i l
      by (cases "j = i") (simp_all add: fld InsertGlobalActiveList_def)
  qed
  have 4: "mutex_inv t" using inv pc l by (auto simp: mvcc_inv_def mutex_inv_def fld)
  have 6: "reader_inv t ch"
    unfolding reader_inv_def fld(1)
  proof (intro allI impI)
    fix r assume r: "r < g_num_thread s"
    have "reader_ok t ch r (locals s r)"
      using inv_reader [OF inv r] reader_ok_cong [OF fld(1,2)] by simp
    then show "reader_ok t ch r (locals t r)"
      using pc l by (cases "r = i") (simp_all add: fld reader_ok_def)
  qed
  have 7: "gc_inv t ch ds"
    using gc_inv_cong [OF fld(1,2) fld(8,7)] inv by (simp add: mvcc_inv_def)
  have 8: "sum_inv S t ch"
    using inv l by (auto simp: mvcc_inv_def sum_inv_def fld sum_ok_def)
  show ?thesis unfolding mvcc_inv_def using 1 2 3 4 q 6 7 8 by blast
qed

lemma enter_section_inv:
  assumes inv: "mvcc_inv S s ch ds" and i: "i < g_num_thread s" and pc: "lpc s i = T_Enter"
    and a: "qcells (g_queue s (picked_thread_index (locals s i))) a = None"
    and N: "g_atomic_counter s + 1 < 2 ^ 31"
  shows "\<exists>s'. enter_section i a s = Inr s' \<and> mvcc_inv S s' ch ds"
proof -
  let ?p = "picked_thread_index (locals s i)" and ?N = "Suc (g_atomic_counter s)"
  let ?A = "InsertGlobalActiveList i ?N (g_active_list s)"
  have p: "?p < g_num_thread s" "?p \<noteq> i" and na: "\<not> is_thread_active (locals s i)"
    using inv_reader [OF inv i] pc by (simp_all add: reader_ok_def)
  have np: "lpc s i \<notin> active_pcs" "lpc s i \<notin> pending_pcs" using pc by (simp_all add: pcs_defs)
  have N64: "?N mod 2 ^ 64 = ?N" using N by simp
  note fa = find_active_capture [OF inv np(1) p, of ?N]
  have cvi: "current_version (locals s i) \<in> versions s (ch i)" "current_version (locals s i) < ?N"
    using inv_version(1,2) [OF inv i] np by auto
  have part: "queue_part (g_queue s j) (readers s j)
      (if j = i then ?N else current_version (locals s j)) (versions s (ch j))"
    if "j < g_num_thread s" for j
    using inv_queue_part [OF inv that] queue_part_newer [OF _ cvi] by auto
  show ?thesis
  proof (cases "lpc s ?p \<in> active_pcs")
    case False
    let ?l = "(locals s i)\<lparr>tpc := T_Unlock1, current_version := ?N,
      capture_active_list := CaptureActiveList ?A\<rparr>"
    let ?t = "s\<lparr>g_atomic_counter := ?N, g_active_list := ?A, locals := (locals s)(i := ?l)\<rparr>"
    have step: "enter_section i a s = Inr ?t"
      using fa False N64 by (simp add: enter_section_def Let_def lupd_def)
    have "readers ?t = readers s" using np na by (auto simp: readers_def fun_eq_iff)
    then have "queue_part (g_queue ?t j) (readers ?t j) (current_version (locals ?t j)) (versions ?t (ch j))"
      if "j < g_num_thread s" for j
      using part [OF that] by (cases "j = i") simp_all
    then have "queue_inv ?t ch" by (simp add: queue_inv_parts)
    then have "mvcc_inv S ?t ch ds"
      by (intro enter_frame [OF inv i pc, where l = ?l]) simp_all
    with step show ?thesis by blast
  next
    case True
    let ?v = "current_version (locals s ?p)"
    have v: "0 < ?v" "?v < 2 ^ 31" "\<forall>w \<in> versions s (ch ?p). w \<le> ?v"
      using inv_version(1,3) [OF inv p(1)] True N issued_le [OF inv p(1)] by auto
    have "i \<notin> readers s ?p ?v" "finite (readers s ?p ?v)" using np by (auto simp: readers_def)
    from queue_part_add [OF inv_queue_part [OF inv p(1)] a v this] obtain q where
      q: "AddRear a (g_queue s ?p) (int_of_u64 ?v) = Inr q" "minimum q = minimum (g_queue s ?p)"
      "queue_part q ((readers s ?p)(?v := insert i (readers s ?p ?v))) ?v (versions s (ch ?p))"
      by blast
    let ?l = "(locals s i)\<lparr>tpc := T_Unlock1, current_version := ?N,
      capture_active_list := CaptureActiveList ?A, is_thread_active := True,
      active_thread_version := ?v\<rparr>"
    let ?t = "s\<lparr>g_atomic_counter := ?N, g_active_list := ?A, g_queue := (g_queue s)(?p := q),
      locals := (locals s)(i := ?l)\<rparr>"
    have step: "enter_section i a s = Inr ?t"
      using fa True N64 q(1) by (simp add: enter_section_def Let_def lupd_def)
    have rd: "readers ?t j = (if j = ?p then (readers s ?p)(?v := insert i (readers s ?p ?v))
        else readers s j)" for j
      using np i by (auto simp: readers_def fun_eq_iff active_pcs_def)
    have "queue_part (g_queue ?t j) (readers ?t j) (current_version (locals ?t j)) (versions ?t (ch j))"
      if "j < g_num_thread s" for j
      using part [OF that] q(3) p(2) by (cases "j = ?p"; cases "j = i") (simp_all add: rd)
    then have "queue_inv ?t ch" by (simp add: queue_inv_parts)
    then have "mvcc_inv S ?t ch ds"
      using q(2) by (intro enter_frame [OF inv i pc, where l = ?l]) simp_all
    with step show ?thesis by blast
  qed
qed

section \<open>Leaving: the version goes out of the queue\<close>

lemma release_version_front:
  assumes ok: "queue_ok q" and xs: "qlist q = v # xs"
  shows "\<exists>q'. release_version q v = Some (Inr q') \<and> queue_ok q' \<and> qlist q' = xs
    \<and> delete_front q' = v
    \<and> minimum q' = (case xs of
        [] \<Rightarrow> if delete_front q \<noteq> v then delete_front q else minimum q
      | w # _ \<Rightarrow> if w \<noteq> v then v else minimum q)"
proof -
  from front_hd [OF ok] xs obtain f where f: "deref (qcells q) (front q) = Inr f" "qversion f = v"
    by auto
  from gq.pop_law [OF ok] xs obtain q1 where q1: "RemoveFront q = Inr q1" "queue_ok q1"
    "qlist q1 = xs" "minimum q1 = minimum q" "delete_front q1 = delete_front q" by auto
  show ?thesis
  proof (cases xs)
    case Nil
    with q1 have "front q1 = None" using front_None by simp
    with f q1 Nil show ?thesis by (simp add: release_version_def)
  next
    case (Cons w ws)
    with q1 front_hd [OF q1(2)] obtain g where g: "deref (qcells q1) (front q1) = Inr g"
      "qversion g = w" by auto
    then obtain b where "front q1 = Some b" by (auto simp: deref_eq_Inr_iff)
    with f q1 g Cons show ?thesis by (simp add: release_version_def)
  qed
qed

lemma release_version_inner:
  assumes ok: "queue_ok q" and xs: "qlist q \<noteq> []" "hd (qlist q) \<noteq> v"
  shows "\<exists>q'. release_version q v = Some (Inr q') \<and> queue_ok q' \<and> qlist q' = remove1 v (qlist q)
    \<and> delete_front q' = delete_front q \<and> minimum q' = minimum q"
proof -
  from front_hd [OF ok xs(1)] xs(2) obtain f where "deref (qcells q) (front q) = Inr f"
    "qversion f \<noteq> v" by auto
  then show ?thesis using gq.remove_law [OF ok, of v] by (auto simp: release_version_def)
qed

lemma queue_part_release:
  assumes q: "queue_part q R cv vs" and i: "i \<in> R v" "finite (R v)" and le: "\<forall>w \<in> vs. w \<le> cv"
  shows "\<exists>q'. release_version q v = Some (Inr q') \<and> minimum q \<le> minimum q'
    \<and> queue_part q' (R(v := R v - {i})) cv vs"
proof -
  from q have ok: "queue_ok q" and srt: "sorted (qlist q)"
    and cnt: "\<And>w. count_list (qlist q) w = card (R w)" by (auto simp: queue_part_def)
  have "count_list (qlist q) v \<noteq> 0" using cnt i by auto
  then have v: "v \<in> set (qlist q)" by (simp add: count_list_0_iff)
  have cnt': "count_list (remove1 v (qlist q)) w = card ((R(v := R v - {i})) w)" for w
    using cnt i by (simp add: count_list_remove1)
  show ?thesis
  proof (cases "hd (qlist q) = v")
    case False
    with v release_version_inner [OF ok] obtain q' where q': "release_version q v = Some (Inr q')"
      "queue_ok q'" "qlist q' = remove1 v (qlist q)" "delete_front q' = delete_front q"
      "minimum q' = minimum q" by fastforce
    have "set (qlist q') \<subseteq> set (qlist q)" using q'(3) set_remove1_subset by metis
    then have "queue_part q' (R(v := R v - {i})) cv vs"
      using q q' cnt' srt unfolding queue_part_def by (auto simp: sorted_remove1 simp del: fun_upd_apply)
    with q' show ?thesis by auto
  next
    case True
    with v obtain xs where xs: "qlist q = v # xs" by (cases "qlist q") auto
    from release_version_front [OF ok xs] obtain q' where q': "release_version q v = Some (Inr q')"
      "queue_ok q'" "qlist q' = xs" "delete_front q' = v"
      "minimum q' = (case xs of
        [] \<Rightarrow> if delete_front q \<noteq> v then delete_front q else minimum q
      | w # _ \<Rightarrow> if w \<noteq> v then v else minimum q)" by blast
    have vv: "v \<in> insert cv vs" "minimum q < v" "delete_front q \<le> v" "delete_front q \<in> insert cv vs"
      "minimum q \<le> delete_front q" "minimum q \<in> vs" "minimum q = 0 \<or> minimum q < cv"
      and vx: "\<forall>w \<in> set xs. w \<in> insert cv vs \<and> v \<le> w \<and> minimum q < w"
      using q xs by (auto simp: queue_part_def)
    have cx: "count_list xs w = card ((R(v := R v - {i})) w)" for w using cnt' [of w] xs by simp
    have "minimum q \<le> minimum q' \<and> minimum q' \<le> v \<and> minimum q' \<in> vs
      \<and> (minimum q' = 0 \<or> minimum q' < cv) \<and> (\<forall>w \<in> set xs. minimum q' < w)"
    proof (cases xs)
      case Nil
      then show ?thesis using q'(5) vv le by auto
    next
      case (Cons w ws)
      have "v < w \<Longrightarrow> \<forall>u \<in> set xs. v < u" using srt xs Cons by auto
      moreover have "w \<in> insert cv vs" "v \<le> w" using vx Cons by auto
      ultimately show ?thesis using q'(5) vv vx le Cons by (cases "w = v") auto
    qed
    moreover have "sorted xs" using srt xs by simp
    ultimately have "queue_part q' (R(v := R v - {i})) cv vs"
      using q' vv vx cx unfolding queue_part_def by (auto simp del: fun_upd_apply)
    with q' \<open>minimum q \<le> minimum q' \<and> _\<close> show ?thesis by blast
  qed
qed

lemma leave_frame:
  assumes inv: "mvcc_inv S s ch ds" and i: "i < g_num_thread s" and pc: "lpc s i = T_Leave"
    and fld: "g_num_thread t = g_num_thread s" "singly_heap t = singly_heap s"
      "g_singly_list t = g_singly_list s" "g_atomic_counter t = g_atomic_counter s"
      "g_active_list t = DeleteGlobalActiveList i (g_active_list s)"
      "g_mutex t = g_mutex s" "gc t = gc s" "locals t = (locals s)(i := goto T_Unlock2 (locals s i))"
    and min: "\<And>p. minimum (g_queue s p) \<le> minimum (g_queue t p)"
    and q: "queue_inv t ch"
  shows "mvcc_inv S t ch ds"
proof -
  have ver: "ver t = ver s" by (simp add: ver_def fun_eq_iff fld)
  have np: "lpc s i \<in> active_pcs" "lpc s i \<notin> pending_pcs" "T_Unlock2 \<notin> active_pcs"
    "T_Unlock2 \<notin> pending_pcs" using pc by (simp_all add: pcs_defs)
  have 1: "heap_inv t ch ds" using heap_inv_cong [of t s] inv_heap [OF inv] fld by simp
  have loc: "current_version (locals t j) = current_version (locals s j)"
    "lpc t j \<in> pending_pcs \<longleftrightarrow> lpc s j \<in> pending_pcs"
    "lpc t j \<in> active_pcs \<longleftrightarrow> j \<noteq> i \<and> lpc s j \<in> active_pcs" for j
    using np by (auto simp: fld)
  have "version_inv s ch" using inv by (simp add: mvcc_inv_def)
  then have 2: "version_inv t ch"
    unfolding version_inv_def fld(1,4) ver loc by simp
  have 3: "active_inv t"
    unfolding active_inv_def fld(1,5) loc
    using inv_active [OF inv]
    by (auto simp: set_DeleteGlobalActiveList map_index_DeleteGlobalActiveList)
  have 4: "mutex_inv t" using inv pc by (auto simp: mvcc_inv_def mutex_inv_def fld)
  have 6: "reader_inv t ch"
    unfolding reader_inv_def fld(1)
  proof (intro allI impI)
    fix r assume r: "r < g_num_thread s"
    have "reader_ok t ch r (locals s r)"
      using inv_reader [OF inv r] reader_ok_cong [OF fld(1,2)] by simp
    then show "reader_ok t ch r (locals t r)"
      using pc by (cases "r = i") (simp_all add: fld reader_ok_def)
  qed
  have "gc_inv s ch ds" using inv by (simp add: mvcc_inv_def)
  then have 7: "gc_inv t ch ds"
    by (rule gc_inv_mono) (simp_all add: fld ver min)
  have 8: "sum_inv S t ch"
    using inv by (auto simp: mvcc_inv_def sum_inv_def fld sum_ok_def)
  show ?thesis unfolding mvcc_inv_def using 1 2 3 4 q 6 7 8 by blast
qed

lemma leave_section_inv:
  assumes inv: "mvcc_inv S s ch ds" and i: "i < g_num_thread s" and pc: "lpc s i = T_Leave"
  shows "\<exists>s'. leave_section i s = Some (Inr s') \<and> mvcc_inv S s' ch ds"
proof -
  let ?l = "locals s i"
  let ?p = "picked_thread_index ?l" and ?v = "active_thread_version ?l"
  let ?s1 = "s\<lparr>g_active_list := DeleteGlobalActiveList i (g_active_list s),
    locals := (locals s)(i := goto T_Unlock2 ?l)\<rparr>"
  have np: "lpc s i \<in> active_pcs" "T_Unlock2 \<notin> active_pcs" using pc by (simp_all add: pcs_defs)
  have cv: "current_version (locals ?s1 j) = current_version (locals s j)" for j by simp
  show ?thesis
  proof (cases "is_thread_active ?l")
    case False
    then have "readers ?s1 = readers s" using np by (auto simp: readers_def fun_eq_iff)
    then have "queue_inv ?s1 ch"
      using inv_queue_part [OF inv] cv by (simp add: queue_inv_parts del: fun_upd_apply)
    then have "mvcc_inv S ?s1 ch ds" by (intro leave_frame [OF inv i pc]) simp_all
    with False show ?thesis by (simp add: leave_section_def Let_def lupd_def)
  next
    case True
    note p = reader_queued(1) [OF inv i np(1) True]
    have pi: "?p \<noteq> i" using reader_picked [OF inv_reader [OF inv i]] pc by simp
    have "i \<in> readers s ?p ?v" "finite (readers s ?p ?v)" using np i True by (auto simp: readers_def)
    from queue_part_release [OF inv_queue_part [OF inv p] this] issued_le [OF inv p] obtain q where
      q: "release_version (g_queue s ?p) ?v = Some (Inr q)" "minimum (g_queue s ?p) \<le> minimum q"
      "queue_part q ((readers s ?p)(?v := readers s ?p ?v - {i}))
        (current_version (locals s ?p)) (versions s (ch ?p))" by blast
    let ?t = "?s1\<lparr>g_queue := (g_queue s)(?p := q)\<rparr>"
    have rd: "readers ?t j = (if j = ?p then (readers s ?p)(?v := readers s ?p ?v - {i})
        else readers s j)" for j
      using np by (auto simp: readers_def fun_eq_iff)
    have "queue_part (g_queue ?t j) (readers ?t j) (current_version (locals ?t j)) (versions ?t (ch j))"
      if "j < g_num_thread s" for j
      using inv_queue_part [OF inv that] q(3) pi by (cases "j = ?p"; cases "j = i") (simp_all add: rd)
    then have "queue_inv ?t ch" by (simp add: queue_inv_parts)
    then have "mvcc_inv S ?t ch ds" using q(2) by (intro leave_frame [OF inv i pc]) simp_all
    with True q(1) show ?thesis by (simp add: leave_section_def Let_def lupd_def)
  qed
qed

end
