(* ===== verification/MvccGc.thy ===== *)
theory MvccGc
  imports MvccInv
begin

text \<open>
  The collector \<open>ThreadGarvageCollectionFunc\<close> keeps the invariant of the store. The
  cut moves the tail of one version list into the nodes being freed; the other steps
  move only the collector's own state or free a node no list holds.
\<close>

section \<open>The walk and the cut\<close>

text \<open>A collector step that only moves its own local state keeps the rest.\<close>

lemma gc_local:
  assumes inv: "mvcc_inv S s ch ds" and g: "gc_inv (gupd f s) ch ds"
  shows "mvcc_inv S (gupd f s) ch ds"
proof -
  let ?t = "gupd f s"
  have fld: "g_num_thread ?t = g_num_thread s" "singly_heap ?t = singly_heap s"
    "g_singly_list ?t = g_singly_list s" "g_atomic_counter ?t = g_atomic_counter s"
    "g_active_list ?t = g_active_list s" "g_queue ?t = g_queue s" "g_mutex ?t = g_mutex s"
    "locals ?t = locals s" by (simp_all add: gupd_def)
  show ?thesis
    unfolding mvcc_inv_def heap_inv_cong [OF fld(1-3)] version_inv_cong [OF fld(1,2,4,8)]
      active_inv_cong [OF fld(1,5,8)] mutex_inv_cong [OF fld(1,7,8)] queue_inv_cong [OF fld(1,2,6,8)]
      reader_inv_cong [OF fld(1,2,8)] sum_inv_cong [OF fld(1,2,8)]
    using inv g by (simp add: mvcc_inv_def)
qed

lemma gc_check_inv:
  assumes inv: "mvcc_inv S s ch ds" and pc: "gcpc (gc s) = G_Check"
  shows "gi (gc s) < g_num_thread s" "gminimum (gc s) \<le> minimum (g_queue s (gi (gc s)))"
    "delete_flag (gc s) \<Longrightarrow> chain slink (singly_heap s) (gtmp (gc s)) ds"
    "\<not> delete_flag (gc s) \<Longrightarrow> ds = []"
    "\<not> delete_flag (gc s) \<Longrightarrow> gback (gc s) = None \<Longrightarrow>
       \<exists>t. gtmp (gc s) = Some t \<and> t \<in> set (ch (gi (gc s))) \<and> gminimum (gc s) \<le> ver s t"
    "\<not> delete_flag (gc s) \<Longrightarrow> gback (gc s) = Some b \<Longrightarrow>
       b \<in> set (ch (gi (gc s))) \<and> slink (the (singly_heap s b)) = gtmp (gc s)"
  using inv pc by (simp_all add: mvcc_inv_def gc_inv_def Let_def)

text \<open>Where the walk has not cut yet, the current node is in the list.\<close>

lemma gc_tmp_in_list:
  assumes inv: "mvcc_inv S s ch ds" and pc: "gcpc (gc s) = G_Check" and d: "\<not> delete_flag (gc s)"
    and t: "gtmp (gc s) = Some t"
  shows "t \<in> set (ch (gi (gc s)))"
proof (cases "gback (gc s)")
  case None
  then show ?thesis using gc_check_inv(5) [OF inv pc d] t by simp
next
  case (Some b)
  note b = gc_check_inv(6) [OF inv pc d Some] and c = gc_check_inv(1) [OF inv pc]
  from b obtain us vs where uv: "ch (gi (gc s)) = us @ b # vs" by (auto simp: in_set_conv_decomp)
  from heap_invD(1) [OF inv_heap [OF inv] c] obtain x where
    "singly_heap s b = Some x" "chain slink (singly_heap s) (slink x) vs"
    unfolding uv using chain_suffix by blast
  with b t have "chain slink (singly_heap s) (Some t) vs" by simp
  with chain_hd uv show ?thesis by fastforce
qed

lemma gc_simple_inv:
  assumes inv: "mvcc_inv S s ch ds" and pc: "gcpc (gc s) \<in> {G_Loop, G_For, G_Head}"
    and step: "gc_step s = Some (Inr s')"
  shows "mvcc_inv S s' ch ds"
proof -
  have g: "gc_inv s ch ds" using inv by (simp add: mvcc_inv_def)
  consider "gcpc (gc s) = G_Loop" | "gcpc (gc s) = G_For" | "gcpc (gc s) = G_Head" using pc by auto
  then show ?thesis
  proof cases
    case 1
    have "gc_inv (gupd (gcpc_update (\<lambda>_. G_Done)) s) ch ds"
      "gc_inv (gupd (\<lambda>g. g\<lparr>gcpc := G_For, gi := 0\<rparr>) s) ch ds"
      using g 1 by (simp_all add: gc_inv_def Let_def gupd_def)
    then show ?thesis
      using gc_local [OF inv] inv step 1 by (auto simp: gc_step_def Let_def split: if_splits)
  next
    case 2
    have "gc_inv (gupd (gcpc_update (\<lambda>_. G_Loop)) s) ch ds"
      "gi (gc s) < g_num_thread s \<Longrightarrow> gc_inv (gupd (\<lambda>g. g\<lparr>gcpc := G_Head, gback := None,
         gminimum := minimum (g_queue s (gi g))\<rparr>) s) ch ds"
      using g 2 by (simp_all add: gc_inv_def Let_def gupd_def)
    then show ?thesis
      using gc_local [OF inv] inv step 2 by (auto simp: gc_step_def Let_def split: if_splits)
  next
    case 3
    let ?p = "gi (gc s)"
    from g 3 have p: "?p < g_num_thread s" "gminimum (gc s) \<le> minimum (g_queue s ?p)" "ds = []"
      "gback (gc s) = None" by (simp_all add: gc_inv_def Let_def)
    from list_head [OF inv_heap [OF inv] p(1)] obtain a where a: "g_singly_list s ?p = Some a"
      "a \<in> set (ch ?p)" "\<forall>b \<in> set (ch ?p). ver s b \<le> ver s a" by metis
    have "minimum (g_queue s ?p) \<le> ver s a" using inv_queue(9) [OF inv p(1)] a(3) by auto
    then have "gc_inv (gupd (\<lambda>g. g\<lparr>gcpc := G_Check, gtmp := g_singly_list s (gi g),
        delete_flag := False\<rparr>) s) ch ds"
      using p a by (simp add: gc_inv_def Let_def gupd_def)
    from gc_local [OF inv this] show ?thesis
      using step 3 by (simp add: gc_step_def Let_def)
  qed
qed

text \<open>
  The cut: the collector truncates the list behind \<open>gback\<close>; what is cut off is what it
  will free. Every node a reader or a later snapshot needs is in front of the cut.
\<close>

lemma gc_cut_inv:
  assumes inv: "mvcc_inv S s ch ds" and pc: "gcpc (gc s) = G_Check" and d: "\<not> delete_flag (gc s)"
    and t: "gtmp (gc s) = Some t" and lt: "ver s t < gminimum (gc s)"
  shows "\<exists>b x us vs. gback (gc s) = Some b \<and> singly_heap s b = Some x
    \<and> ch (gi (gc s)) = us @ b # vs
    \<and> mvcc_inv S (gupd (\<lambda>g. g\<lparr>gcpc := G_Move, delete_flag := True\<rparr>)
         (s\<lparr>singly_heap := (singly_heap s)(b \<mapsto> x\<lparr>slink := None\<rparr>)\<rparr>))
       (ch(gi (gc s) := us @ [b])) vs"
proof -
  let ?p = "gi (gc s)"
  note G = gc_check_inv [OF inv pc] and hD = heap_invD [OF inv_heap [OF inv]]
  have p: "?p < g_num_thread s" by (rule G(1))
  from G(5) [OF d] lt t obtain b where b: "gback (gc s) = Some b" by (cases "gback (gc s)") auto
  from G(6) [OF d b] obtain us vs where uv: "ch ?p = us @ b # vs" by (auto simp: in_set_conv_decomp)
  from hD(1) [OF p] obtain x where x: "singly_heap s b = Some x"
    and cv: "chain slink (singly_heap s) (slink x) vs" unfolding uv using chain_suffix by blast
  have lx: "slink x = Some t" using G(6) [OF d b] x t by simp
  let ?h = "(singly_heap s)(b \<mapsto> x\<lparr>slink := None\<rparr>)"
  let ?t = "gupd (\<lambda>g. g\<lparr>gcpc := G_Move, delete_flag := True\<rparr>) (s\<lparr>singly_heap := ?h\<rparr>)"
  let ?ch = "ch(?p := us @ [b])"
  have fld [simp]: "g_num_thread ?t = g_num_thread s" "singly_heap ?t = ?h"
    "g_singly_list ?t = g_singly_list s" "g_atomic_counter ?t = g_atomic_counter s"
    "g_active_list ?t = g_active_list s" "g_queue ?t = g_queue s" "g_mutex ?t = g_mutex s"
    "locals ?t = locals s"
    "gc ?t = (gc s)\<lparr>gcpc := G_Move, delete_flag := True\<rparr>" by (simp_all add: gupd_def)
  have ver [simp]: "ver ?t = ver s" using x by (auto simp: ver_def fun_eq_iff)
  have srt: "sorted_wrt (\<lambda>a b. ver s b < ver s a) (us @ b # vs)" using hD(3) [OF p] uv by simp
  have dist: "distinct (us @ b # vs)" using chain_distinct hD(1) [OF p] uv by metis
  from cv lx obtain ws where ws: "vs = t # ws" using chain_hd by fastforce
  have vs: "\<forall>a \<in> set vs. ver s a < gminimum (gc s)"
    using srt lt ws by (auto simp: sorted_wrt_append)
  have keep: "a \<in> set (us @ [b])" if "a \<in> set (ch ?p)" "minimum (g_queue s ?p) \<le> ver s a" for a
    using that vs G(2) uv by fastforce
  have sub: "set (?ch j) \<subseteq> set (ch j)" for j using uv by auto
  have bn: "b \<notin> set (ch j)" if "j < g_num_thread s" "j \<noteq> ?p" for j
    using inv_heap [OF inv] that p uv unfolding heap_inv_def by (metis Int_iff empty_iff in_set_conv_decomp)
  have 1: "heap_inv ?t ?ch vs"
    unfolding heap_inv_def fld ver
  proof (intro conjI allI impI)
    fix j assume j: "j < g_num_thread s"
    show "?ch j \<noteq> []" using hD(2) [OF j] by simp
    show "sorted_wrt (\<lambda>a b. ver s b < ver s a) (?ch j)"
      using hD(3) [OF j] srt by (auto simp: sorted_wrt_append)
    show "chain slink ?h (g_singly_list s j) (?ch j)"
    proof (cases "j = ?p")
      case True
      have "seg slink (singly_heap s) (g_singly_list s ?p) us (Some b)"
        using hD(1) [OF p] by (auto simp: uv seg_append)
      with True dist show ?thesis by (auto simp: seg_append seg_upd_other)
    next
      case False
      with hD(1) [OF j] bn [OF j] show ?thesis by (simp add: seg_upd_other)
    qed
    show "set (?ch j) \<inter> set vs = {}"
    proof (cases "j = ?p")
      case True
      with dist show ?thesis by auto
    next
      case False
      with inv_heap [OF inv] j p have "set (ch j) \<inter> set (ch ?p) = {}" by (simp add: heap_inv_def)
      with False uv show ?thesis by auto
    qed
    fix k assume "k < g_num_thread s" "j \<noteq> k"
    with inv_heap [OF inv] j have "set (ch j) \<inter> set (ch k) = {}" by (simp add: heap_inv_def)
    with sub [of j] sub [of k] show "set (?ch j) \<inter> set (?ch k) = {}" by blast
  qed
  have vi: "version_inv s ch" using inv by (simp add: mvcc_inv_def)
  have vsub: "versions s (?ch j) \<subseteq> versions s (ch j)" for j using sub by (rule image_mono)
  have hd: "hd (?ch j) = hd (ch j)" for j using uv by (cases us) auto
  have 2: "version_inv ?t ?ch"
    unfolding version_inv_def fld ver hd
  proof (intro conjI allI impI)
    fix j assume j: "j < g_num_thread s"
    show "current_version (locals s j) \<le> g_atomic_counter s" using vi j by (simp add: version_inv_def)
    show "0 < current_version (locals s j)" if "lpc s j \<in> active_pcs"
      using vi j that by (simp add: version_inv_def)
    have "if lpc s j \<in> pending_pcs then \<forall>w \<in> versions s (ch j). w < current_version (locals s j)
        else ver s (hd (ch j)) = current_version (locals s j)" using vi j by (simp add: version_inv_def)
    then show "if lpc s j \<in> pending_pcs then \<forall>w \<in> versions s (?ch j). w < current_version (locals s j)
        else ver s (hd (ch j)) = current_version (locals s j)"
      using vsub [of j] by (meson subsetD)
    fix k assume "k < g_num_thread s" "j \<noteq> k"
    with vi j have "insert (current_version (locals s j)) (versions s (ch j))
        \<inter> insert (current_version (locals s k)) (versions s (ch k)) \<subseteq> {0}"
      by (simp add: version_inv_def)
    moreover have "insert (current_version (locals s m)) (versions s (?ch m)) \<subseteq>
        insert (current_version (locals s m)) (versions s (ch m))" for m
      using vsub by (rule insert_mono)
    ultimately show "insert (current_version (locals s j)) (versions s (?ch j))
        \<inter> insert (current_version (locals s k)) (versions s (?ch k)) \<subseteq> {0}"
      by (meson Int_mono subset_trans)
  qed
  have 3: "active_inv ?t" "mutex_inv ?t"
    using inv active_inv_cong [of ?t s] mutex_inv_cong [of ?t s] by (simp_all add: mvcc_inv_def)
  have rd: "readers ?t = readers s" by (simp add: readers_def fun_eq_iff)
  have keepv: "\<forall>w \<in> versions s (ch ?p). minimum (g_queue s ?p) \<le> w \<longrightarrow> w \<in> versions s (us @ [b])"
    using keep by blast
  have 5: "queue_inv ?t ?ch"
    unfolding queue_inv_parts fld ver rd
  proof (intro allI impI)
    fix j assume j: "j < g_num_thread s"
    show "queue_part (g_queue s j) (readers s j) (current_version (locals s j)) (versions s (?ch j))"
      using inv_queue_part [OF inv j] queue_part_cut [OF _ keepv] by (cases "j = ?p") simp_all
  qed
  have 6: "reader_inv ?t ?ch"
    unfolding reader_inv_def fld
  proof (intro allI impI)
    fix r assume r: "r < g_num_thread s"
    let ?m = "locals s r"
    have "cursor_ok ?t ?ch ?m"
      if m: "tpc ?m \<in> {T_ReadOwn, T_Walk, T_Compute}" and c: "cursor_ok s ch ?m"
    proof (cases "is_thread_active ?m")
      case True
      have "tpc ?m \<in> active_pcs" using m by (auto simp: active_pcs_def)
      note q = reader_queued [OF inv r this True]
      let ?q = "picked_thread_index ?m"
      from c True obtain c where c: "cursor_singly_node ?m = Some c" "c \<in> set (ch ?q)"
        "\<forall>w \<in> versions s (ch ?q). w < active_thread_version ?m \<longrightarrow> w \<le> ver s c"
        "tpc ?m = T_Compute \<longrightarrow> ver s c < active_thread_version ?m" by (auto simp: cursor_ok_def)
      have "minimum (g_queue s ?q) \<le> ver s c"
        using c(3) inv_queue(5,9) [OF inv q(1)] q(2) by blast
      with c(2) keep have "c \<in> set (?ch ?q)" by (cases "?q = ?p") simp_all
      with c vsub [of ?q] True show ?thesis unfolding cursor_ok_def ver by blast
    qed (use c in \<open>simp add: cursor_ok_def\<close>)
    then show "reader_ok ?t ?ch r ?m" using inv_reader [OF inv r] by (simp add: reader_ok_def)
  qed
  have "b \<notin> set vs" using dist by simp
  then have 7: "gc_inv ?t ?ch vs"
    using p G(2) t cv lx by (simp add: gc_inv_def Let_def seg_upd_other)
  have 8: "sum_inv S ?t ?ch"
    unfolding sum_inv_def fld
  proof (intro allI impI conjI ballI)
    fix j a assume j: "j < g_num_thread s" and a: "a \<in> set (?ch j)"
    have "sA (the (singly_heap s a)) + sB (the (singly_heap s a)) = S j"
      using inv j a sub [of j] by (auto simp: mvcc_inv_def sum_inv_def)
    then show "sA (the (?h a)) + sB (the (?h a)) = S j" using x by auto
  qed (use inv_sum [OF inv] in simp)
  have "mvcc_inv S ?t ?ch vs" unfolding mvcc_inv_def using 1 2 3 5 6 7 8 by blast
  with b x uv show ?thesis by blast
qed

section \<open>The steps that do not cut\<close>

lemma gc_skip_inv:
  assumes inv: "mvcc_inv S s ch ds" and pc: "gcpc (gc s) = G_Check" and t: "gtmp (gc s) = Some t"
  shows "mvcc_inv S (gupd (gcpc_update (\<lambda>_. G_Move)) s) ch ds"
proof -
  note G = gc_check_inv [OF inv pc]
  have "gc_inv (gupd (gcpc_update (\<lambda>_. G_Move)) s) ch ds"
    using G(1-4) gc_tmp_in_list [OF inv pc _ t] t by (simp add: gc_inv_def Let_def gupd_def)
  then show ?thesis by (rule gc_local [OF inv])
qed

lemma gc_next_list_inv:
  assumes inv: "mvcc_inv S s ch ds" and pc: "gcpc (gc s) = G_Check" and t: "gtmp (gc s) = None"
  shows "mvcc_inv S (gupd (\<lambda>g. g\<lparr>gcpc := G_For, gi := gi g + 1\<rparr>) s) ch ds"
proof -
  note G = gc_check_inv [OF inv pc]
  have "ds = []" using G(3,4) t by (cases "delete_flag (gc s)") (auto simp: chain_Nil_iff)
  then have "gc_inv (gupd (\<lambda>g. g\<lparr>gcpc := G_For, gi := gi g + 1\<rparr>) s) ch ds"
    by (simp add: gc_inv_def Let_def gupd_def)
  then show ?thesis by (rule gc_local [OF inv])
qed

lemma gc_advance_inv:
  assumes inv: "mvcc_inv S s ch ds" and pc: "gcpc (gc s) = G_Move" and d: "\<not> delete_flag (gc s)"
  shows "\<exists>t n. gtmp (gc s) = Some t \<and> singly_heap s t = Some n
    \<and> mvcc_inv S (gupd (\<lambda>g. g\<lparr>gcpc := G_Check, gback := gtmp g, gtmp := slink n\<rparr>) s) ch ds"
proof -
  from inv pc d obtain t where t: "gtmp (gc s) = Some t" "t \<in> set (ch (gi (gc s)))" "ds = []"
    "gi (gc s) < g_num_thread s" "gminimum (gc s) \<le> minimum (g_queue s (gi (gc s)))"
    by (auto simp: mvcc_inv_def gc_inv_def Let_def)
  with seg_dom heap_invD(1) [OF inv_heap [OF inv]] obtain n where n: "singly_heap s t = Some n"
    by (metis domD)
  have "gc_inv (gupd (\<lambda>g. g\<lparr>gcpc := G_Check, gback := gtmp g, gtmp := slink n\<rparr>) s) ch ds"
    using t n d by (simp add: gc_inv_def Let_def gupd_def)
  from gc_local [OF inv this] show ?thesis using t n by blast
qed

text \<open>The \<open>free\<close>: the node is in no version list, so no list and no active reader loses it.\<close>

lemma gc_free_inv:
  assumes inv: "mvcc_inv S s ch ds" and pc: "gcpc (gc s) = G_Move" and d: "delete_flag (gc s)"
  shows "\<exists>t n ds'. gtmp (gc s) = Some t \<and> singly_heap s t = Some n \<and> ds = t # ds'
    \<and> mvcc_inv S (gupd (\<lambda>g. g\<lparr>gcpc := G_Check, gback := gtmp g, gtmp := slink n\<rparr>)
         (s\<lparr>singly_heap := (singly_heap s)(t := None)\<rparr>)) ch ds'"
proof -
  from inv pc d obtain t where t: "gtmp (gc s) = Some t"
    and c: "chain slink (singly_heap s) (Some t) ds"
    and p: "gi (gc s) < g_num_thread s" "gminimum (gc s) \<le> minimum (g_queue s (gi (gc s)))"
    by (auto simp: mvcc_inv_def gc_inv_def Let_def)
  from c obtain ds' where ds: "ds = t # ds'" by (cases ds) auto
  with c obtain n where n: "singly_heap s t = Some n"
    and c': "chain slink (singly_heap s) (slink n) ds'" by (auto split: option.splits)
  have t': "t \<notin> set ds'" using chain_distinct [OF c] ds by simp
  let ?h = "(singly_heap s)(t := None)"
  let ?t = "gupd (\<lambda>g. g\<lparr>gcpc := G_Check, gback := gtmp g, gtmp := slink n\<rparr>)
         (s\<lparr>singly_heap := ?h\<rparr>)"
  have fld [simp]: "g_num_thread ?t = g_num_thread s" "singly_heap ?t = ?h"
    "g_singly_list ?t = g_singly_list s" "g_atomic_counter ?t = g_atomic_counter s"
    "g_active_list ?t = g_active_list s" "g_queue ?t = g_queue s" "g_mutex ?t = g_mutex s"
    "locals ?t = locals s" by (simp_all add: gupd_def)
  have nt: "t \<notin> set (ch j)" if "j < g_num_thread s" for j
    using heap_invD(4) [OF inv_heap [OF inv] that] ds by auto
  have ver: "a \<in> set (ch j) \<Longrightarrow> ver ?t a = ver s a" if "j < g_num_thread s" for a j
    using nt [OF that] by (auto simp: ver_def)
  have vs: "versions ?t (ch j) = versions s (ch j)" if "j < g_num_thread s" for j
    using ver [OF that] by (rule image_cong [OF refl])
  have 1: "heap_inv ?t ch ds'"
    unfolding heap_inv_def fld
  proof (intro conjI allI impI)
    fix j assume j: "j < g_num_thread s"
    note h = heap_invD [OF inv_heap [OF inv] j]
    show "chain slink ?h (g_singly_list s j) (ch j)"
      using h(1) nt [OF j] by (simp add: seg_upd_other)
    show "ch j \<noteq> []" "set (ch j) \<inter> set ds' = {}" using h(2,4) ds by auto
    show "sorted_wrt (\<lambda>a b. ver ?t b < ver ?t a) (ch j)"
      using h(3) by (rule sorted_wrt_mono_rel [rotated]) (simp add: ver [OF j])
  qed (use inv_heap [OF inv] in \<open>simp add: heap_inv_def\<close>)
  have "hd (ch j) \<in> set (ch j)" if "j < g_num_thread s" for j
    using heap_invD(2) [OF inv_heap [OF inv] that] by simp
  then have 2: "version_inv ?t ch"
    using inv by (simp add: mvcc_inv_def version_inv_def vs ver)
  have 3: "active_inv ?t" "mutex_inv ?t"
    using inv active_inv_cong [of ?t s] mutex_inv_cong [of ?t s] by (simp_all add: mvcc_inv_def)
  have rd: "readers ?t = readers s" by (simp add: readers_def fun_eq_iff)
  have 5: "queue_inv ?t ch"
    using inv_queue_part [OF inv] by (simp add: queue_inv_parts rd vs)
  have 6: "reader_inv ?t ch"
    unfolding reader_inv_def fld
  proof (intro allI impI)
    fix r assume r: "r < g_num_thread s"
    note R = inv_reader [OF inv r]
    show "reader_ok ?t ch r (locals s r)"
    proof (cases "lpc s r \<in> {T_Loop, T_Pick, T_Done}")
      case False
      with reader_picked [OF R] have q: "picked_thread_index (locals s r) < g_num_thread s" by simp
      have "cursor_ok ?t ch (locals s r)" if k: "cursor_ok s ch (locals s r)"
      proof -
        from k obtain c where "cursor_singly_node (locals s r) = Some c" unfolding cursor_ok_def by blast
        with k show ?thesis unfolding cursor_ok_def vs [OF q] by (simp add: ver [OF q])
      qed
      with R show ?thesis by (simp add: reader_ok_def)
    qed (auto simp: reader_ok_def)
  qed
  have 7: "gc_inv ?t ch ds'"
    using p c' d t' by (simp add: gc_inv_def Let_def gupd_def seg_upd_other)
  have 8: "sum_inv S ?t ch"
    unfolding sum_inv_def fld using inv nt by (auto simp: mvcc_inv_def sum_inv_def)
  have "mvcc_inv S ?t ch ds'" unfolding mvcc_inv_def using 1 2 3 5 6 7 8 by blast
  with t n ds show ?thesis by blast
qed

section \<open>Every collector step\<close>

text \<open>What a collector step leaves of the lists: a prefix of each, with its contents.\<close>

definition gc_keeps :: "mvcc \<Rightarrow> (nat \<Rightarrow> addr list) \<Rightarrow> mvcc \<Rightarrow> (nat \<Rightarrow> addr list) \<Rightarrow> bool" where
  "gc_keeps s ch t ch' \<longleftrightarrow> g_num_thread t = g_num_thread s \<and> g_queue t = g_queue s
     \<and> (\<forall>i < g_num_thread s. (\<exists>zs. ch i = ch' i @ zs)
          \<and> (\<forall>a \<in> set (ch' i). \<exists>x l. singly_heap s a = Some x
                \<and> singly_heap t a = Some (x\<lparr>slink := l\<rparr>)))"

lemma gc_keeps_same:
  assumes "mvcc_inv S s ch ds" "g_num_thread t = g_num_thread s" "g_queue t = g_queue s"
    "\<And>i a. i < g_num_thread s \<Longrightarrow> a \<in> set (ch i) \<Longrightarrow> singly_heap t a = singly_heap s a"
  shows "gc_keeps s ch t ch"
  unfolding gc_keeps_def
proof (intro conjI allI impI ballI)
  fix i a assume i: "i < g_num_thread s" and a: "a \<in> set (ch i)"
  with seg_dom heap_invD(1) [OF inv_heap [OF assms(1)]] obtain x where
    "singly_heap s a = Some x" by (metis domD)
  moreover have "x = x\<lparr>slink := slink x\<rparr>" by simp
  ultimately show "\<exists>x l. singly_heap s a = Some x \<and> singly_heap t a = Some (x\<lparr>slink := l\<rparr>)"
    using assms(4) [OF i a] by metis
qed (use assms(2,3) in auto)

lemma gc_keeps_cut:
  assumes inv: "mvcc_inv S s ch ds" and p: "p < g_num_thread s" and c: "ch p = us @ b # vs"
    and b: "singly_heap s b = Some x"
    and t: "g_num_thread t = g_num_thread s" "g_queue t = g_queue s"
      "singly_heap t = (singly_heap s)(b \<mapsto> x\<lparr>slink := None\<rparr>)"
  shows "gc_keeps s ch t (ch(p := us @ [b]))"
  unfolding gc_keeps_def t
proof (intro conjI allI impI ballI)
  fix i assume i: "i < g_num_thread s"
  show "\<exists>zs. ch i = (ch(p := us @ [b])) i @ zs" using c by auto
  fix a assume a: "a \<in> set ((ch(p := us @ [b])) i)"
  show "\<exists>y l. singly_heap s a = Some y
      \<and> ((singly_heap s)(b \<mapsto> x\<lparr>slink := None\<rparr>)) a = Some (y\<lparr>slink := l\<rparr>)"
  proof (cases "a = b")
    case False
    from a c have "a \<in> set (ch i)" by (cases "i = p") auto
    with gc_keeps_same [OF inv refl refl] i have "\<exists>y l. singly_heap s a = Some y
      \<and> singly_heap s a = Some (y\<lparr>slink := l\<rparr>)" by (auto simp: gc_keeps_def)
    with False show ?thesis by simp
  qed (use b in auto)
qed simp_all

text \<open>The collector never faults, and every step keeps the invariant.\<close>

lemma gc_step_inv:
  assumes inv: "mvcc_inv S s ch ds" and pc: "gcpc (gc s) \<noteq> G_Done"
  shows "\<exists>s' ch' ds'. gc_step s = Some (Inr s') \<and> mvcc_inv S s' ch' ds' \<and> gc_keeps s ch s' ch'"
proof (cases "gcpc (gc s)")
  case G_Check
  show ?thesis
  proof (cases "gtmp (gc s)")
    case None
    from gc_next_list_inv [OF inv G_Check None] show ?thesis
      using G_Check None by (intro exI [of _ ch] exI [of _ ds] exI)
        (auto simp: gc_step_def Let_def gupd_def intro: gc_keeps_same [OF inv])
  next
    case (Some t)
    have "t \<in> dom (singly_heap s)"
    proof (cases "delete_flag (gc s)")
      case True
      with gc_check_inv(3) [OF inv G_Check] Some show ?thesis
        by (cases ds) (auto split: option.splits)
    next
      case False
      from gc_tmp_in_list [OF inv G_Check this Some] show ?thesis
        using seg_dom heap_invD(1) [OF inv_heap [OF inv] gc_check_inv(1) [OF inv G_Check]] by metis
    qed
    then obtain n where n: "singly_heap s t = Some n" by auto
    then have v: "ver s t = sversion n" by (simp add: ver_def)
    show ?thesis
    proof (cases "\<not> delete_flag (gc s) \<and> sversion n < gminimum (gc s)")
      case True
      let ?t = "\<lambda>b x. gupd (\<lambda>g. g\<lparr>gcpc := G_Move, delete_flag := True\<rparr>)
         (s\<lparr>singly_heap := (singly_heap s)(b \<mapsto> x\<lparr>slink := None\<rparr>)\<rparr>)"
      from True gc_cut_inv [OF inv G_Check _ Some] v obtain b x us vs where
        b: "gback (gc s) = Some b" "singly_heap s b = Some x" "ch (gi (gc s)) = us @ b # vs"
        "mvcc_inv S (?t b x) (ch(gi (gc s) := us @ [b])) vs" by auto
      have "gc_keeps s ch (?t b x) (ch(gi (gc s) := us @ [b]))"
        by (rule gc_keeps_cut [OF inv gc_check_inv(1) [OF inv G_Check] b(3,2)]) (simp_all add: gupd_def)
      with b True Some n G_Check show ?thesis
        by (intro exI [of _ "?t b x"] exI [of _ "ch(gi (gc s) := us @ [b])"] exI [of _ vs])
           (simp add: gc_step_def)
    next
      case False
      from False gc_skip_inv [OF inv G_Check Some] Some n G_Check show ?thesis
        by (intro exI [of _ ch] exI [of _ ds] exI)
          (auto simp: gc_step_def Let_def gupd_def intro: gc_keeps_same [OF inv])
    qed
  qed
next
  case G_Move
  show ?thesis
  proof (cases "delete_flag (gc s)")
    case True
    let ?t = "\<lambda>n. gupd (\<lambda>g. g\<lparr>gcpc := G_Check, gback := gtmp g, gtmp := slink n\<rparr>)"
    from gc_free_inv [OF inv G_Move True] obtain t n ds' where
      t: "gtmp (gc s) = Some t" "singly_heap s t = Some n" "ds = t # ds'"
      "mvcc_inv S (?t n (s\<lparr>singly_heap := (singly_heap s)(t := None)\<rparr>)) ch ds'" by blast
    have "gc_keeps s ch (?t n (s\<lparr>singly_heap := (singly_heap s)(t := None)\<rparr>)) ch"
      using heap_invD(4) [OF inv_heap [OF inv]] t(3)
      by (intro gc_keeps_same [OF inv]) (auto simp: gupd_def)
    with t True G_Move show ?thesis by (auto simp: gc_step_def Let_def)
  next
    case False
    from gc_advance_inv [OF inv G_Move False] False G_Move show ?thesis
      by (auto simp: gc_step_def Let_def gupd_def intro!: exI [of _ ch] exI [of _ ds]
          gc_keeps_same [OF inv])
  qed
next
  case G_Done
  with pc show ?thesis by simp
qed (use gc_simple_inv [OF inv] in
      \<open>auto simp: gc_step_def Let_def gupd_def intro!: exI [of _ ch] exI [of _ ds]
         gc_keeps_same [OF inv]\<close>)

end
