(* ===== verification/MvccRun.thy ===== *)
theory MvccRun
  imports MvccGc
begin

text \<open>
  Runs of the multi-version store: the state \<open>main\<close> builds satisfies the invariant,
  every event keeps it, and the properties of all reachable states follow. The
  properties are about runs that issue fewer than \<open>2^31\<close> versions, because
  \<open>AddRear\<close> takes the version as an \<open>int\<close>, and that start with \<open>minimum\<close> and
  \<open>delete_front\<close> of every queue zero, because \<open>CreateQueue\<close> leaves them as \<open>malloc\<close>
  returned them. What happens outside these limits is stated at the end.
\<close>

section \<open>Reachable states\<close>

inductive reach :: "(32 word \<times> 32 word) list \<Rightarrow> (nat \<Rightarrow> nat) \<Rightarrow> mvcc \<Rightarrow> bool"
  for ab :: "(32 word \<times> 32 word) list" and rawt :: "nat \<Rightarrow> nat"
where
  reach_init: "reach ab rawt (main_init ab (\<lambda>_. (0, 0)) rawt)"
| reach_step: "reach ab rawt s \<Longrightarrow> mstep e s = Some (Inr t) \<Longrightarrow> g_atomic_counter t < 2 ^ 31 \<Longrightarrow>
    reach ab rawt t"

definition sum_of :: "(32 word \<times> 32 word) list \<Rightarrow> nat \<Rightarrow> 32 word" where
  "sum_of ab i = fst (ab ! i) + snd (ab ! i)"

section \<open>The initial state\<close>

lemma insert_initial_fields [simp]:
  "g_num_thread (insert_initial k ab s) = g_num_thread s"
  "g_atomic_counter (insert_initial k ab s) = g_atomic_counter s"
  "g_active_list (insert_initial k ab s) = g_active_list s"
  "g_queue (insert_initial k ab s) = g_queue s"
  "g_mutex (insert_initial k ab s) = g_mutex s"
  "g_thread_throughput (insert_initial k ab s) = g_thread_throughput s"
  "locals (insert_initial k ab s) = locals s"
  "gc (insert_initial k ab s) = gc s"
  by (induction k ab s rule: insert_initial.induct) (simp_all add: InsertSinglyList_def)

lemma insert_initial_flags:
  "g_could_thread_run (insert_initial k ab s) = g_could_thread_run s"
  "g_is_verbosing (insert_initial k ab s) = g_is_verbosing s"
  by (induction k ab s rule: insert_initial.induct) (simp_all add: InsertSinglyList_def)

lemma insert_initial_lists:
  "g_singly_list (insert_initial k ab s) i =
     (if k \<le> i \<and> i < k + length ab then Some i else g_singly_list s i)"
  "singly_heap (insert_initial k ab s) i =
     (if k \<le> i \<and> i < k + length ab
      then Some \<lparr>sA = fst (ab ! (i - k)), sB = snd (ab ! (i - k)), sversion = 0,
                 slink = g_singly_list s i\<rparr>
      else singly_heap s i)"
  by (induction k ab s rule: insert_initial.induct)
     (auto simp: InsertSinglyList_def nth_Cons' Suc_diff_le not_le less_Suc_eq_le)

lemma main_init_fields [simp]:
  "g_num_thread (main_init ab raw rawt) = length ab"
  "g_atomic_counter (main_init ab raw rawt) = 0"
  "g_active_list (main_init ab raw rawt) = []"
  "g_queue (main_init ab raw rawt) i = CreateQueue (fst (raw i)) (snd (raw i))"
  "g_mutex (main_init ab raw rawt) = None"
  "g_thread_throughput (main_init ab raw rawt) = rawt"
  "locals (main_init ab raw rawt) i = init_local"
  "gcpc (gc (main_init ab raw rawt)) = G_Loop"
  by (simp_all add: main_init_def)

lemma main_init_lists:
  "i < length ab \<Longrightarrow> g_singly_list (main_init ab raw rawt) i = Some i"
  "i < length ab \<Longrightarrow> singly_heap (main_init ab raw rawt) i =
     Some \<lparr>sA = fst (ab ! i), sB = snd (ab ! i), sversion = 0, slink = None\<rparr>"
  by (simp_all add: main_init_def insert_initial_lists)

lemma main_init_inv:
  "mvcc_inv (sum_of ab) (main_init ab (\<lambda>_. (0, 0)) rawt) (\<lambda>i. [i]) []"
proof -
  let ?s = "main_init ab (\<lambda>_. (0, 0)) rawt"
  have v: "ver ?s i = 0" if "i < length ab" for i using that by (simp add: ver_def main_init_lists)
  have l: "init_local \<lparr>tpc := T_Loop\<rparr> = init_local" "tpc init_local = T_Loop"
    "current_version init_local = 0" by (simp_all add: init_local_def)
  have "heap_inv ?s (\<lambda>i. [i]) []"
    by (simp add: heap_inv_def main_init_lists)
  moreover have "version_inv ?s (\<lambda>i. [i])"
    by (simp add: version_inv_def v l pcs_defs)
  moreover have "active_inv ?s" "mutex_inv ?s"
    by (simp_all add: active_inv_def mutex_inv_def l pcs_defs)
  moreover have "readers ?s p v = {}" for p v by (simp add: readers_def l pcs_defs)
  then have "queue_inv ?s (\<lambda>i. [i])"
    using CreateQueue_nodes [of 0 0]
    by (auto simp: queue_inv_def queue_ok_def v l Let_def) (simp_all add: CreateQueue_def)
  moreover have "reader_inv ?s (\<lambda>i. [i])" by (simp add: reader_inv_def reader_ok_def l)
  moreover have "gc_inv ?s (\<lambda>i. [i]) []" by (simp add: gc_inv_def Let_def)
  moreover have "sum_inv (sum_of ab) ?s (\<lambda>i. [i])"
    by (simp add: sum_inv_def main_init_lists sum_of_def sum_ok_def l)
  ultimately show ?thesis by (simp add: mvcc_inv_def)
qed

section \<open>Every event keeps the invariant\<close>

lemma thread_step_inv:
  assumes inv: "mvcc_inv S s ch ds" and i: "i < g_num_thread s"
    and N: "g_atomic_counter s < 2 ^ 31" and step: "thread_step i c s = Some (Inr t)"
    and N': "g_atomic_counter t < 2 ^ 31"
  shows "\<exists>ch'. mvcc_inv S t ch' ds"
proof (cases "lpc s i")
  case T_Enter
  with step have a: "qcells (g_queue s (picked_thread_index (locals s i))) c = None"
    and e: "enter_section i c s = Inr t" by (auto simp: thread_step_def split: if_splits)
  from e have "g_atomic_counter t = (g_atomic_counter s + 1) mod 2 ^ 64"
    by (auto simp: enter_section_def Let_def rbind_eq_Inr_iff split: option.splits)
  with N N' have "g_atomic_counter s + 1 < 2 ^ 31" by simp
  from enter_section_inv [OF inv i T_Enter a this] e show ?thesis by auto
next
  case T_Leave
  from leave_section_inv [OF inv i T_Leave] step T_Leave show ?thesis
    by (auto simp: thread_step_def)
next
  case T_Insert
  with step show ?thesis
    using insert_update_inv [OF inv i T_Insert] by (auto simp: thread_step_def split: if_splits)
next
  case T_Compute
  with step show ?thesis using compute_update_inv [OF inv i T_Compute] by (auto simp: thread_step_def)
next
  case T_Walk
  with step show ?thesis using walk_cursor_inv [OF inv i T_Walk] by (auto simp: thread_step_def)
next
  case T_ReadOwn
  with step show ?thesis using read_own_inv [OF inv i T_ReadOwn] by (auto simp: thread_step_def)
qed (use step loop_head_inv [OF inv i] pick_thread_inv [OF inv i] lock_mutex_inv [OF inv i]
       unlock_mutex_inv [OF inv i] read_cursor_inv [OF inv i] finish_update_inv [OF inv i]
     in \<open>auto simp: thread_step_def\<close>)

lemma flags_inv:
  assumes "mvcc_inv S s ch ds"
  shows "mvcc_inv S (s\<lparr>g_is_verbosing := b\<rparr>) ch ds" "mvcc_inv S (s\<lparr>g_could_thread_run := b\<rparr>) ch ds"
proof -
  have "mvcc_inv S (s\<lparr>g_is_verbosing := b\<rparr>) ch ds = mvcc_inv S s ch ds"
    "mvcc_inv S (s\<lparr>g_could_thread_run := b\<rparr>) ch ds = mvcc_inv S s ch ds"
    by (rule mvcc_inv_cong; simp)+
  with assms show "mvcc_inv S (s\<lparr>g_is_verbosing := b\<rparr>) ch ds"
    "mvcc_inv S (s\<lparr>g_could_thread_run := b\<rparr>) ch ds" by simp_all
qed

lemma mstep_inv:
  assumes inv: "mvcc_inv S s ch ds" and N: "g_atomic_counter s < 2 ^ 31"
    and step: "mstep e s = Some (Inr t)" and N': "g_atomic_counter t < 2 ^ 31"
  shows "\<exists>ch' ds'. mvcc_inv S t ch' ds'"
proof (cases e)
  case (EThread i c)
  with step have "i < g_num_thread s" "thread_step i c s = Some (Inr t)" by (auto split: if_splits)
  from thread_step_inv [OF inv this(1) N this(2) N'] show ?thesis by blast
next
  case EGc
  then have "gcpc (gc s) \<noteq> G_Done" using step by (auto simp: gc_step_def)
  from gc_step_inv [OF inv this] EGc step show ?thesis by auto
next
  case (EVerbose b)
  with step flags_inv(1) [OF inv] show ?thesis by auto
next
  case EStop
  with step flags_inv(2) [OF inv] show ?thesis by auto
qed

lemma thread_step_threads:
  "thread_step i c s = Some (Inr t) \<Longrightarrow> g_num_thread t = g_num_thread s"
  by (auto simp: thread_step_def loop_head_def pick_thread_def lock_mutex_def unlock_mutex_def
      enter_section_def read_cursor_def read_own_def walk_cursor_def compute_update_def
      insert_update_def InsertSinglyList_def leave_section_def finish_update_def Let_def
      rbind_eq_Inr_iff obind_def split: pc.splits if_splits option.splits sum.splits)

lemma gc_step_frame:
  assumes "gc_step s = Some (Inr t)"
  shows "g_num_thread t = g_num_thread s \<and> g_atomic_counter t = g_atomic_counter s
    \<and> g_thread_throughput t = g_thread_throughput s \<and> locals t = locals s"
proof (cases "gcpc (gc s)")
  case G_Check
  with assms show ?thesis
    by (cases "gtmp (gc s)")
       (auto simp: gc_step_def Let_def rbind_eq_Inr_iff gupd_def split: if_splits)
qed (use assms in \<open>auto simp: gc_step_def Let_def rbind_eq_Inr_iff gupd_def\<close>)

lemma mstep_threads:
  assumes "mstep e s = Some (Inr t)"
  shows "g_num_thread t = g_num_thread s"
proof (cases e)
  case (EThread i c)
  with assms show ?thesis by (auto intro: thread_step_threads split: if_splits)
next
  case EGc
  with assms gc_step_frame show ?thesis by simp
qed (use assms in auto)

text \<open>What every reachable state has.\<close>

lemma reach_inv:
  assumes "reach ab rawt s"
  obtains ch ds where "mvcc_inv (sum_of ab) s ch ds" "g_num_thread s = length ab"
    "g_atomic_counter s < 2 ^ 31"
proof -
  have "(\<exists>ch ds. mvcc_inv (sum_of ab) s ch ds) \<and> g_num_thread s = length ab
    \<and> g_atomic_counter s < 2 ^ 31"
    using assms
  proof induction
    case reach_init
    then show ?case using main_init_inv by auto
  next
    case (reach_step s e t)
    then show ?case using mstep_inv mstep_threads by metis
  qed
  then show ?thesis using that by blast
qed

text \<open>One event issues at most one version, so a short schedule stays below the bound.\<close>

lemma mstep_counter:
  assumes "mstep e s = Some (Inr t)"
  shows "g_atomic_counter t \<le> g_atomic_counter s + 1"
proof (cases e)
  case (EThread i c)
  with assms show ?thesis
    by (auto simp: thread_step_def loop_head_def pick_thread_def lock_mutex_def unlock_mutex_def
      enter_section_def read_cursor_def read_own_def walk_cursor_def compute_update_def
      insert_update_def InsertSinglyList_def leave_section_def finish_update_def Let_def
      rbind_eq_Inr_iff obind_def split: pc.splits if_splits option.splits sum.splits)
next
  case EGc
  with assms gc_step_frame show ?thesis by simp
qed (use assms in auto)

lemma mrun_reach:
  assumes "reach ab rawt s" "mrun es s = Some (Inr t)" "g_atomic_counter s + length es < 2 ^ 31"
  shows "reach ab rawt t"
  using assms
proof (induction es s rule: mrun.induct)
  case (2 e es s)
  from 2(3) obtain u where u: "mstep e s = Some (Inr u)" "mrun es u = Some (Inr t)"
    by (auto simp: obind_def split: option.splits sum.splits)
  with mstep_counter [OF u(1)] 2(4) reach_step [OF 2(2) u(1)] show ?case
    by (intro 2(1) [OF _ u(2)]) simp_all
qed simp

text \<open>The form in which a concrete schedule is evaluated.\<close>

definition run_ends :: "event list \<Rightarrow> (32 word \<times> 32 word) list \<Rightarrow> (mvcc \<Rightarrow> bool) \<Rightarrow> bool" where
  "run_ends es ab P = (case mrun es (main_init ab (\<lambda>_. (0, 0)) (\<lambda>_. 0)) of
     Some (Inr t) \<Rightarrow> P t | _ \<Rightarrow> False)"

lemma run_ends_reach:
  assumes "run_ends es ab P" "length es < 2 ^ 31"
  shows "\<exists>t. reach ab (\<lambda>_. 0) t \<and> P t"
  using assms mrun_reach [OF reach_init, of es] unfolding run_ends_def
  by (auto split: option.splits sum.splits)

text \<open>The definitions a concrete schedule is evaluated with.\<close>

lemmas run_defs = thread_step_def loop_head_def pick_thread_def lock_mutex_def unlock_mutex_def
  enter_section_def read_cursor_def read_own_def walk_cursor_def compute_update_def
  insert_update_def InsertSinglyList_def leave_section_def finish_update_def lupd_def Let_def
  InsertGlobalActiveList_def InsertCaptureActiveList_def CaptureActiveList_def AddRear_def
  RemoveFront_def release_version_def init_local_def main_init_def CreateQueue_def
  gc_step_def gupd_def int_of_u64_def u64_of_int_def rem100_def replicate_numeral

text \<open>The events of one update of thread \<open>i\<close>: up to the end of its first section, and the rest.\<close>

definition begin_update :: "nat \<Rightarrow> nat \<Rightarrow> addr \<Rightarrow> event list" where
  "begin_update i p a = map (EThread i) [0, p, 0, a, 0]"

definition end_update :: "nat \<Rightarrow> nat \<Rightarrow> addr \<Rightarrow> event list" where
  "end_update i k a = map (EThread i) ([0, 0] @ replicate k 0 @ [0, a, 0, 0, 0, 0])"

lemmas schedule_defs = begin_update_def end_update_def run_ends_def

end
