(* ===== verification/MvccProps.thy ===== *)
theory MvccProps
  imports MvccRun
begin

text \<open>
  The properties of the multi-version store: the sums \<open>main\<close> compares, mutual
  exclusion, the snapshot an active reader sees, what the collector keeps, which steps
  can fault, and the schedules and start states on which the program does fault.
\<close>

section \<open>The sum\<close>

lemma after_loop_sum:
  assumes "mvcc_inv S s ch ds" "set is \<subseteq> {..<g_num_thread s}"
  shows "after_loop s is acc = Inr (foldl (\<lambda>acc i. acc + S i) acc is)"
  using assms(2)
proof (induction "is" arbitrary: acc)
  case (Cons i "is")
  then have i: "i < g_num_thread s" by simp
  from list_head [OF inv_heap [OF assms(1)] i] obtain a n where
    a: "g_singly_list s i = Some a" "a \<in> set (ch i)" "singly_heap s a = Some n" by metis
  with assms(1) i have "sA n + sB n = S i" by (force simp: mvcc_inv_def sum_inv_def)
  with Cons a show ?case by simp
qed simp

lemma before_correctness_sum:
  "before_correctness ab = foldl (\<lambda>acc i. acc + sum_of ab i) 0 [0..<length ab]"
proof -
  have "foldl (\<lambda>acc (a, b). acc + (a + b)) z ab = foldl (\<lambda>acc i. acc + sum_of ab i) z [0..<length ab]"
    for z :: "32 word"
    by (induction ab rule: rev_induct)
       (auto simp: sum_of_def nth_append split_def intro!: foldl_cong)
  then show ?thesis by (simp add: before_correctness_def)
qed

definition ab3 :: "(32 word \<times> 32 word) list" where
  "ab3 = [(10, 20), (30, 40), (50, 60)]"

text \<open>Thread 1 takes version 1; thread 2 captures it, and both finish.\<close>

definition two_updates :: "event list" where
  "two_updates = begin_update 1 2 200 @ begin_update 2 1 300 @ end_update 1 1 11 @ end_update 2 2 12"

text \<open>C1: on every run the sum of all values that \<open>main\<close> prints after the threads have
  run equals the sum it printed before.\<close>

theorem sums_agree:
  assumes "reach ab rawt s"
  shows "after_correctness s = Inr (before_correctness ab)"
proof -
  from reach_inv [OF assms] obtain ch ds where "mvcc_inv (sum_of ab) s ch ds"
    "g_num_thread s = length ab" by metis
  then show ?thesis
    by (simp add: after_correctness_def before_correctness_sum after_loop_sum atLeast0LessThan)
qed

theorem sums_agree_witness:
  "\<exists>t. reach ab3 (\<lambda>_. 0) t \<and> g_thread_throughput t 1 = 1 \<and> g_thread_throughput t 2 = 1
     \<and> after_correctness t = Inr (before_correctness ab3)"
proof -
  have "run_ends two_updates ab3 (\<lambda>t. g_thread_throughput t 1 = 1 \<and> g_thread_throughput t 2 = 1)"
    by (simp add: schedule_defs two_updates_def ab3_def run_defs)
  from run_ends_reach [OF this] show ?thesis
    using sums_agree by (auto simp: two_updates_def schedule_defs)
qed

section \<open>Mutual exclusion\<close>

definition in_section :: "pc \<Rightarrow> bool" where
  "in_section p = (p \<in> {T_Enter, T_Unlock1, T_Leave, T_Unlock2})"

text \<open>C6: no two threads are inside a critical section of \<open>ThreadFunc\<close> at once, and the
  one inside holds \<open>g_mutex\<close>.\<close>

theorem mutual_exclusion:
  assumes "reach ab rawt s" "i < g_num_thread s" "j < g_num_thread s"
    and "in_section (tpc (locals s i))" "in_section (tpc (locals s j))"
  shows "i = j \<and> g_mutex s = Some i"
proof -
  from reach_inv [OF assms(1)] obtain ch ds where "mvcc_inv (sum_of ab) s ch ds" by metis
  then have "mutex_inv s" by (simp add: mvcc_inv_def)
  with assms(2-5) show ?thesis by (simp add: mutex_inv_def in_section_def)
qed

theorem mutual_exclusion_witness:
  "\<exists>t. reach ab3 (\<lambda>_. 0) t \<and> in_section (tpc (locals t 1)) \<and> g_mutex t = Some 1"
proof -
  have "run_ends (map (EThread 1) [0, 2, 0]) ab3
      (\<lambda>t. 1 < g_num_thread t \<and> in_section (tpc (locals t 1)))"
    by (simp add: schedule_defs ab3_def run_defs in_section_def)
  from run_ends_reach [OF this] obtain t where t: "reach ab3 (\<lambda>_. 0) t"
    "1 < g_num_thread t" "in_section (tpc (locals t 1))" by auto
  from mutual_exclusion [OF t(1,2,2,3,3)] t show ?thesis by blast
qed

section \<open>The snapshot of an active reader\<close>

text \<open>C2: a thread whose target was active when it captured the active list computes with
  a node of the target's version list that is older than the captured version, and no
  node of that list older than the captured version is newer; so the read cannot fault.\<close>

theorem snapshot_read:
  assumes "reach ab rawt s" "i < g_num_thread s" "tpc (locals s i) = T_Compute"
    and "is_thread_active (locals s i)"
  shows "\<exists>c n as. cursor_singly_node (locals s i) = Some c \<and> singly_heap s c = Some n
    \<and> chain slink (singly_heap s) (g_singly_list s (picked_thread_index (locals s i))) as
    \<and> c \<in> set as \<and> sversion n < active_thread_version (locals s i)
    \<and> (\<forall>b \<in> set as. ver s b < active_thread_version (locals s i) \<longrightarrow> ver s b \<le> sversion n)"
proof -
  let ?p = "picked_thread_index (locals s i)"
  from reach_inv [OF assms(1)] obtain ch ds where inv: "mvcc_inv (sum_of ab) s ch ds" by metis
  have "lpc s i \<in> active_pcs" using assms(3) by (simp add: active_pcs_def)
  note h = heap_invD(1) [OF inv_heap [OF inv] reader_queued(1) [OF inv assms(2) this assms(4)]]
  have "cursor_ok s ch (locals s i)"
    using inv_reader [OF inv assms(2)] assms(3) by (simp add: reader_ok_def)
  with assms(3,4) obtain c where c: "cursor_singly_node (locals s i) = Some c" "c \<in> set (ch ?p)"
    "\<forall>w \<in> versions s (ch ?p). w < active_thread_version (locals s i) \<longrightarrow> w \<le> ver s c"
    "ver s c < active_thread_version (locals s i)" by (auto simp: cursor_ok_def)
  from seg_dom [OF h c(2)] obtain n where n: "singly_heap s c = Some n" by blast
  then have "ver s c = sversion n" by (simp add: ver_def)
  with c n h show ?thesis by (metis image_eqI)
qed

theorem snapshot_read_witness:
  "\<exists>t. reach ab3 (\<lambda>_. 0) t \<and> active_thread_version (locals t 2) = 1
     \<and> (\<exists>c n as. cursor_singly_node (locals t 2) = Some c \<and> singly_heap t c = Some n
       \<and> chain slink (singly_heap t) (g_singly_list t (picked_thread_index (locals t 2))) as
       \<and> c \<in> set as \<and> sversion n < active_thread_version (locals t 2)
       \<and> (\<forall>b \<in> set as. ver t b < active_thread_version (locals t 2) \<longrightarrow> ver t b \<le> sversion n))"
proof -
  have "run_ends (begin_update 1 2 200 @ begin_update 2 1 300 @ end_update 1 1 11
      @ map (EThread 2) [0, 0, 0, 0]) ab3
    (\<lambda>t. 2 < g_num_thread t \<and> tpc (locals t 2) = T_Compute \<and> is_thread_active (locals t 2)
       \<and> active_thread_version (locals t 2) = 1)"
    by (simp add: schedule_defs ab3_def run_defs)
  from run_ends_reach [OF this] obtain t where t: "reach ab3 (\<lambda>_. 0) t" "2 < g_num_thread t"
    "tpc (locals t 2) = T_Compute" "is_thread_active (locals t 2)"
    "active_thread_version (locals t 2) = 1" by (auto simp: schedule_defs)
  from snapshot_read [OF t(1-4)] t show ?thesis by blast
qed

section \<open>The collector\<close>


text \<open>Two rounds of updates of thread 1 read by thread 2; in a third, thread 2 is between
  its sections when the collector reaches the end of thread 1's list.\<close>

definition cut_schedule :: "event list" where
  "cut_schedule = two_updates @ begin_update 1 2 201 @ begin_update 2 1 301 @ end_update 1 1 21
     @ end_update 2 2 22 @ begin_update 1 2 202 @ begin_update 2 1 302 @ replicate 12 EGc"


section \<open>Which steps can fault\<close>

lemma thread_step_fault:
  assumes inv: "mvcc_inv S s ch ds" and i: "i < g_num_thread s"
    and N: "g_atomic_counter s + 1 < 2 ^ 31" and step: "thread_step i c s = Some (Inl f)"
  shows "lpc s i = T_Compute \<and> \<not> is_thread_active (locals s i) \<and> f = UseAfterFree"
proof (cases "lpc s i")
  case T_Compute
  then have e: "compute_update i s = Inl f" using step by (simp add: thread_step_def)
  have "cursor_ok s ch (locals s i)" using inv_reader [OF inv i] T_Compute by (simp add: reader_ok_def)
  then obtain a where "cursor_singly_node (locals s i) = Some a" by (auto simp: cursor_ok_def)
  with e have "f = UseAfterFree"
    by (cases "singly_heap s a") (auto simp: compute_update_def)
  with e compute_update_active [OF inv i T_Compute] T_Compute show ?thesis by auto
next
  case T_Enter
  with step have a: "qcells (g_queue s (picked_thread_index (locals s i))) c = None"
    "enter_section i c s = Inl f" by (auto simp: thread_step_def split: if_splits)
  from enter_section_inv [OF inv i T_Enter a(1) N] a(2) show ?thesis by auto
next
  case T_Leave
  with step show ?thesis using leave_section_inv [OF inv i T_Leave] by (auto simp: thread_step_def)
next
  case T_ReadOwn
  with step show ?thesis using read_own_inv [OF inv i T_ReadOwn] by (auto simp: thread_step_def)
next
  case T_Walk
  with step show ?thesis using walk_cursor_inv [OF inv i T_Walk] by (auto simp: thread_step_def)
qed (use step in \<open>auto simp: thread_step_def split: if_splits\<close>)


text \<open>Thread 0 takes its cursor at thread 1's first node while thread 1 is idle; two
  updates of thread 1 read by thread 2 raise the minimum, and the collector frees the node.\<close>

definition freed_cursor :: "event list" where
  "freed_cursor = begin_update 0 1 100 @ [EThread 0 0] @ two_updates @ begin_update 1 2 201
     @ begin_update 2 1 301 @ end_update 1 1 21 @ end_update 2 2 22 @ replicate 18 EGc
     @ map (EThread 0) [0, 0]"


text \<open>C13: the fault happens: a thread whose target is idle when it captures the active
  list keeps an unprotected cursor, and a schedule of three threads and the collector
  frees the node under it before it is read.\<close>

theorem inactive_reader_use_after_free:
  "mrun (freed_cursor @ [EThread 0 0]) (main_init ab3 (\<lambda>_. (0, 0)) (\<lambda>_. 0))
   = Some (Inl UseAfterFree)"
  by (simp add: schedule_defs two_updates_def freed_cursor_def ab3_def run_defs)

text \<open>\<open>CreateQueue\<close> does not initialise \<open>minimum\<close>; if \<open>malloc\<close> leaves a nonzero value
  there, the collector's first pass dereferences its null \<open>back\<close> pointer.\<close>

theorem uninitialised_minimum_null_deref:
  assumes "ab \<noteq> []" "0 < fst (raw 0)"
  shows "mrun (replicate 4 EGc) (main_init ab raw rawt) = Some (Inl NullDeref)"
proof -
  let ?s = "main_init ab raw rawt"
  have "g_singly_list ?s 0 = Some 0" "\<exists>n. singly_heap ?s 0 = Some n \<and> sversion n = 0"
    using assms(1) main_init_lists [of 0 ab raw rawt] by auto
  moreover have "g_could_thread_run ?s" "\<not> g_is_verbosing ?s"
    by (simp_all add: main_init_def insert_initial_flags)
  ultimately show ?thesis
    using assms by (auto simp: replicate_numeral gc_step_def gupd_def Let_def CreateQueue_def)
qed

theorem uninitialised_minimum_null_deref_witness:
  "mrun (replicate 4 EGc) (main_init ab3 (\<lambda>_. (7, 0)) (\<lambda>_. 0)) = Some (Inl NullDeref)"
  by (rule uninitialised_minimum_null_deref) (simp_all add: ab3_def)

section \<open>Versions\<close>

text \<open>C7: in every reachable state each thread's versions are strictly decreasing along its
  list, none is above the counter, and a nonzero version is in at most one thread's list.\<close>

theorem versions_decrease_and_are_unique:
  assumes "reach ab rawt s"
  shows "\<exists>ch. (\<forall>i < g_num_thread s. chain slink (singly_heap s) (g_singly_list s i) (ch i)
        \<and> ch i \<noteq> [] \<and> sorted_wrt (\<lambda>a b. ver s b < ver s a) (ch i)
        \<and> (\<forall>a \<in> set (ch i). ver s a \<le> g_atomic_counter s))
    \<and> (\<forall>i < g_num_thread s. \<forall>j < g_num_thread s. i \<noteq> j \<longrightarrow>
          set (ch i) \<inter> set (ch j) = {} \<and> ver s ` set (ch i) \<inter> ver s ` set (ch j) \<subseteq> {0})"
proof -
  from reach_inv [OF assms] obtain ch ds where inv: "mvcc_inv (sum_of ab) s ch ds" by metis
  have vi: "version_inv s ch" using inv by (simp add: mvcc_inv_def)
  show ?thesis
  proof (intro exI [of _ ch] conjI allI impI)
    fix i assume i: "i < g_num_thread s"
    show "chain slink (singly_heap s) (g_singly_list s i) (ch i)" "ch i \<noteq> []"
      "sorted_wrt (\<lambda>a b. ver s b < ver s a) (ch i)"
      using heap_invD(1-3) [OF inv_heap [OF inv] i] by simp_all
    have "ver s a \<le> current_version (locals s i)" if "a \<in> set (ch i)" for a
      by (rule issued_le [OF inv i]) (simp add: that)
    moreover have "current_version (locals s i) \<le> g_atomic_counter s"
      using vi i by (simp add: version_inv_def)
    ultimately show "\<forall>a \<in> set (ch i). ver s a \<le> g_atomic_counter s" by (meson le_trans)
    fix j assume j: "j < g_num_thread s" "i \<noteq> j"
    show "set (ch i) \<inter> set (ch j) = {}"
      using inv_heap [OF inv] i j by (simp add: heap_inv_def)
    have "insert (current_version (locals s i)) (versions s (ch i))
        \<inter> insert (current_version (locals s j)) (versions s (ch j)) \<subseteq> {0}"
      using vi i j by (simp add: version_inv_def)
    then show "versions s (ch i) \<inter> versions s (ch j) \<subseteq> {0}"
      by (rule subset_trans [OF Int_mono [OF subset_insertI subset_insertI]])
  qed
qed

theorem versions_decrease_and_are_unique_witness:
  "\<exists>t. reach ab3 (\<lambda>_. 0) t \<and> g_atomic_counter t = 2
    \<and> (\<exists>ch. (\<forall>i < g_num_thread t. chain slink (singly_heap t) (g_singly_list t i) (ch i)
        \<and> ch i \<noteq> [] \<and> sorted_wrt (\<lambda>a b. ver t b < ver t a) (ch i)
        \<and> (\<forall>a \<in> set (ch i). ver t a \<le> g_atomic_counter t))
    \<and> (\<forall>i < g_num_thread t. \<forall>j < g_num_thread t. i \<noteq> j \<longrightarrow>
          set (ch i) \<inter> set (ch j) = {} \<and> ver t ` set (ch i) \<inter> ver t ` set (ch j) \<subseteq> {0}))"
proof -
  have "run_ends two_updates ab3 (\<lambda>t. g_atomic_counter t = 2)"
    by (simp add: schedule_defs two_updates_def ab3_def run_defs)
  from run_ends_reach [OF this] obtain t where "reach ab3 (\<lambda>_. 0) t" "g_atomic_counter t = 2"
    by (auto simp: two_updates_def schedule_defs)
  with versions_decrease_and_are_unique [of ab3 "\<lambda>_. 0" t] show ?thesis by blast
qed

section \<open>The queue of a thread\<close>

text \<open>C8: the queue of thread \<open>p\<close> is sorted and holds each version exactly once per thread
  that captured it as \<open>p\<close>'s active version and has not left its second section yet, and
  \<open>minimum\<close> is below all of them.\<close>

theorem queue_holds_the_readers:
  assumes "reach ab rawt s" "p < g_num_thread s"
  shows "queue_ok (g_queue s p) \<and> sorted (qlist (g_queue s p))
    \<and> (\<forall>v. count_list (qlist (g_queue s p)) v = card (readers s p v))
    \<and> (\<forall>v \<in> set (qlist (g_queue s p)). minimum (g_queue s p) < v)"
proof -
  from reach_inv [OF assms(1)] obtain ch ds where inv: "mvcc_inv (sum_of ab) s ch ds" by metis
  show ?thesis using inv_queue [OF inv assms(2)] by blast
qed

theorem queue_holds_the_readers_witness:
  "\<exists>s. reach ab3 (\<lambda>_. 0) s \<and> qlist (g_queue s 1) = [5]
    \<and> queue_ok (g_queue s 1) \<and> sorted (qlist (g_queue s 1))
    \<and> (\<forall>v. count_list (qlist (g_queue s 1)) v = card (readers s 1 v))
    \<and> (\<forall>v \<in> set (qlist (g_queue s 1)). minimum (g_queue s 1) < v)"
proof -
  have "run_ends cut_schedule ab3 (\<lambda>s. 1 < g_num_thread s \<and> qlist (g_queue s 1) = [5])"
    by (simp add: schedule_defs two_updates_def cut_schedule_def ab3_def run_defs
        qlist_def qwalk.simps)
  from run_ends_reach [OF this] obtain s where "reach ab3 (\<lambda>_. 0) s"
    "1 < g_num_thread s" "qlist (g_queue s 1) = [5]"
    by (auto simp: cut_schedule_def two_updates_def schedule_defs)
  with queue_holds_the_readers [of ab3 "\<lambda>_. 0" s 1] show ?thesis by blast
qed

end
