(* ===== verification/MvccMain.thy ===== *)
theory MvccMain
  imports Complex_Main MvccProps
begin

text \<open>
  The rest of \<open>main\<close> of src/Project2/src/Project2.cpp: the command line, the dump the
  verbose option writes for each thread, and the report at the end (throughput and
  fairness). The walks of the dump are loops over the version lists, \<open>None\<close> if one does
  not return. The quotient \<open>main\<close> prints as a \<open>double\<close> is kept as numerator and
  denominator, so that no rounding is modelled.
\<close>

section \<open>The command line\<close>

text \<open>C's \<open>atoi\<close>: leading white space, a sign, digits; out of the range of \<open>int\<close> undefined.\<close>

definition is_space :: "char \<Rightarrow> bool" where
  "is_space c = (let n = of_char c :: nat in n = 32 \<or> 9 \<le> n \<and> n \<le> 13)"

definition is_digit :: "char \<Rightarrow> bool" where
  "is_digit c = (let n = of_char c :: nat in 48 \<le> n \<and> n \<le> 57)"

fun digits_value :: "int \<Rightarrow> string \<Rightarrow> int" where
  "digits_value acc [] = acc"
| "digits_value acc (c # cs) =
     (if is_digit c then digits_value (acc * 10 + (of_char c - 48)) cs else acc)"

definition atoi :: "string \<Rightarrow> int res" where
  "atoi s =
     (let s1 = dropWhile is_space s;
          v = (case s1 of [] \<Rightarrow> 0
               | c # cs \<Rightarrow> if c = CHR ''-'' then - digits_value 0 cs
                            else if c = CHR ''+'' then digits_value 0 cs
                            else digits_value 0 (c # cs))
      in if - (2 ^ 31) \<le> v \<and> v < 2 ^ 31 then Inr v else Inl IntOverflow)"

record options =
  num_thread :: int
  duration :: int
  verbose_flag :: bool

text \<open>\<open>None\<close>: the program prints the usage message and exits.\<close>

definition main_args :: "string list \<Rightarrow> options option res" where
  "main_args argv =
     (if length argv < 3 \<or> length argv > 4 then Inr None
      else rbind (atoi (argv ! 1)) (\<lambda>n. rbind (atoi (argv ! 2)) (\<lambda>d.
        if length argv = 4
        then if argv ! 3 = ''verbose''
             then Inr (Some \<lparr>num_thread = n, duration = d, verbose_flag = True\<rparr>)
             else Inr None
        else Inr (Some \<lparr>num_thread = n, duration = d, verbose_flag = False\<rparr>))))"

section \<open>The verbose dump\<close>

partial_function (option) dump_count ::
  "(addr \<rightharpoonup> SinglyNode) \<Rightarrow> ptr \<Rightarrow> nat \<Rightarrow> nat res option" where
  [code]: "dump_count h tmp num_singly_list =
     (case tmp of None \<Rightarrow> Some (Inr num_singly_list)
      | Some a \<Rightarrow> (case deref h tmp of Inl e \<Rightarrow> Some (Inl e)
          | Inr n \<Rightarrow> dump_count h (slink n) (num_singly_list + 1)))"

partial_function (option) dump_versions ::
  "(addr \<rightharpoonup> SinglyNode) \<Rightarrow> ptr \<Rightarrow> nat list \<Rightarrow> nat list res option" where
  [code]: "dump_versions h tmp2 out =
     (case tmp2 of None \<Rightarrow> Some (Inr out)
      | Some a \<Rightarrow> (case deref h tmp2 of Inl e \<Rightarrow> Some (Inl e)
          | Inr n \<Rightarrow> dump_versions h (slink n) (out @ [sversion n])))"

definition sizeof_SinglyNode :: nat where
  "sizeof_SinglyNode = 24"

text \<open>What is written to the file of thread \<open>i\<close>: bytes, versions, newest version.\<close>

definition verbose_thread :: "mvcc \<Rightarrow> nat \<Rightarrow> (nat \<times> nat list \<times> nat) res option" where
  "verbose_thread s i =
     (case deref (singly_heap s) (g_singly_list s i) of
        Inl e \<Rightarrow> Some (Inl e)
      | Inr n \<Rightarrow>
          obind (dump_count (singly_heap s) (g_singly_list s i) 0) (\<lambda>num.
          obind (dump_versions (singly_heap s) (g_singly_list s i) []) (\<lambda>vs.
          Some (Inr (num * sizeof_SinglyNode, vs, sversion n)))))"

text \<open>The files that could not be opened (\<open>fp[i]\<close> null) are skipped.\<close>

fun verbose_dump :: "mvcc \<Rightarrow> (nat \<Rightarrow> bool) \<Rightarrow> nat list \<Rightarrow> (nat \<times> nat list \<times> nat) list res option" where
  "verbose_dump s fp [] = Some (Inr [])"
| "verbose_dump s fp (i # is) =
     (if \<not> fp i then verbose_dump s fp is
      else obind (verbose_thread s i) (\<lambda>d. obind (verbose_dump s fp is) (\<lambda>ds. Some (Inr (d # ds)))))"

section \<open>The final report\<close>

definition total_throughput :: "nat list \<Rightarrow> nat" where
  "total_throughput xs = foldl (\<lambda>acc x. (acc + x) mod 2 ^ 64) 0 xs"

definition total_throughput_s :: "nat list \<Rightarrow> nat" where
  "total_throughput_s xs = foldl (\<lambda>acc x. (acc + x * x mod 2 ^ 64) mod 2 ^ 64) 0 xs"

text \<open>The quotient printed as the fairness, both parts in 64-bit arithmetic.\<close>

definition fairness :: "nat list \<Rightarrow> nat \<times> nat" where
  "fairness xs = (total_throughput xs * total_throughput xs mod 2 ^ 64,
     length xs * total_throughput_s xs mod 2 ^ 64)"

text \<open>The four numbers printed at the end; the integer division by the duration may trap.\<close>

definition main_report ::
  "mvcc \<Rightarrow> (32 word \<times> 32 word) list \<Rightarrow> int \<Rightarrow> (32 word \<times> 32 word \<times> nat \<times> nat \<times> nat) res" where
  "main_report s ab dur =
     rbind (after_correctness s) (\<lambda>after.
       let xs = map (g_thread_throughput s) [0..<g_num_thread s]
       in if u64_of_int dur = 0 then Inl DivZero
          else Inr (before_correctness ab, after,
                 g_atomic_counter s div u64_of_int dur, fairness xs))"

section \<open>Lemmas\<close>

lemma dump_count_chain:
  "chain slink h p as \<Longrightarrow> dump_count h p k = Some (Inr (k + length as))"
  by (induction as arbitrary: p k) (auto simp: dump_count.simps split: option.splits)

lemma dump_versions_chain:
  "chain slink h p as \<Longrightarrow>
   dump_versions h p out = Some (Inr (out @ map (\<lambda>a. sversion (the (h a))) as))"
  by (induction as arbitrary: p out) (auto simp: dump_versions.simps split: option.splits)

lemma foldl_wrap:
  fixes f :: "nat \<Rightarrow> nat"
  assumes "acc + sum_list (map f xs) < 2 ^ 64"
  shows "foldl (\<lambda>acc x. (acc + f x mod 2 ^ 64) mod 2 ^ 64) acc xs = acc + sum_list (map f xs)"
  using assms by (induction xs arbitrary: acc) auto

lemma cross_sum:
  fixes x :: nat
  shows "2 * x * sum_list xs \<le> length xs * (x * x) + sum_list (map (\<lambda>y. y * y) xs)"
proof (induction xs)
  case (Cons y xs)
  have "int (2 * x * y) \<le> int (x * x + y * y)"
    using zero_le_square [of "int x - int y"] by (simp add: algebra_simps)
  then have "2 * x * y \<le> x * x + y * y" by (simp only: of_nat_le_iff)
  with Cons show ?case by (simp add: algebra_simps)
qed simp

lemma sum_squared_le:
  fixes xs :: "nat list"
  shows "sum_list xs * sum_list xs \<le> length xs * sum_list (map (\<lambda>y. y * y) xs)"
proof (induction xs)
  case (Cons x xs)
  from add_mono [OF cross_sum [of x xs] Cons] show ?case by (simp add: algebra_simps)
qed simp

lemma squares_le:
  fixes xs :: "nat list"
  shows "sum_list (map (\<lambda>y. y * y) xs) \<le> sum_list xs * sum_list xs"
  by (induction xs) (auto simp: algebra_simps)

section \<open>Properties\<close>

text \<open>the dump of a thread in any reachable state ends, and writes the versions of its
  list in strictly decreasing order, 24 bytes per node, and the newest version.\<close>

theorem verbose_dump_of_reachable:
  assumes "reach ab rawt s" "i < g_num_thread s"
  shows "\<exists>vs. verbose_thread s i = Some (Inr (24 * length vs, vs, hd vs)) \<and> vs \<noteq> []
    \<and> sorted_wrt (>) vs"
proof -
  from reach_inv [OF assms(1)] obtain ch ds where inv: "mvcc_inv (sum_of ab) s ch ds" by metis
  note h = heap_invD [OF inv_heap [OF inv] assms(2)]
  let ?vs = "map (\<lambda>a. sversion (the (singly_heap s a))) (ch i)"
  from list_head [OF inv_heap [OF inv] assms(2)] obtain n where
    n: "g_singly_list s i = Some (hd (ch i))" "singly_heap s (hd (ch i)) = Some n" by metis
  have "hd ?vs = sversion n" using h(2) n(2) by (simp add: hd_map)
  then have "verbose_thread s i = Some (Inr (24 * length ?vs, ?vs, hd ?vs))"
    using dump_count_chain [OF h(1), of 0] dump_versions_chain [OF h(1), of "[]"] n
    by (simp add: verbose_thread_def sizeof_SinglyNode_def)
  moreover have "sorted_wrt (>) ?vs" using h(3) by (simp add: sorted_wrt_map ver_def)
  ultimately show ?thesis using h(2) by (intro exI [of _ ?vs]) simp
qed

theorem verbose_dump_of_reachable_witness:
  "\<exists>s vs. reach ab3 (\<lambda>_. 0) s \<and> g_atomic_counter s = 2
    \<and> verbose_thread s 1 = Some (Inr (24 * length vs, vs, hd vs)) \<and> vs \<noteq> [] \<and> sorted_wrt (>) vs"
proof -
  have "run_ends two_updates ab3 (\<lambda>t. 1 < g_num_thread t \<and> g_atomic_counter t = 2)"
    by (simp add: schedule_defs two_updates_def ab3_def run_defs)
  from run_ends_reach [OF this] obtain s where "reach ab3 (\<lambda>_. 0) s" "1 < g_num_thread s"
    "g_atomic_counter s = 2" by (auto simp: two_updates_def schedule_defs)
  with verbose_dump_of_reachable [of ab3 "\<lambda>_. 0" s 1] show ?thesis by blast
qed

text \<open>as long as the squares stay within 64 bits, the printed fairness is Jain's index
  of the throughputs: it lies between \<open>1/n\<close> and \<open>1\<close>.\<close>

theorem fairness_bounds:
  assumes "xs \<noteq> []" "0 < sum_list xs"
    and "length xs * (sum_list xs * sum_list xs) < 2 ^ 64"
  shows "1 / real (length xs) \<le> real (fst (fairness xs)) / real (snd (fairness xs))
    \<and> real (fst (fairness xs)) / real (snd (fairness xs)) \<le> 1"
proof -
  let ?S = "sum_list xs" and ?Q = "sum_list (map (\<lambda>y. y * y) xs)" and ?n = "length xs"
  have n: "1 \<le> ?n" using assms(1) by (cases xs) auto
  have "1 * (?S * ?S) \<le> ?n * (?S * ?S)" using n by (rule mult_le_mono1)
  from le_less_trans [OF this assms(3)] have SS: "?S * ?S < 2 ^ 64" by simp
  have nQ: "?n * ?Q < 2 ^ 64"
    using assms(3) mult_le_mono2 [OF squares_le, of ?n xs] by (rule le_less_trans [rotated])
  have Q: "?Q < 2 ^ 64" using squares_le [of xs] SS by (rule le_less_trans)
  have S: "?S < 2 ^ 64" using SS assms(2) by (metis le_square le_less_trans)
  have t: "total_throughput xs = ?S"
  proof -
    have "(\<lambda>acc x. (acc + x) mod 2 ^ 64) = (\<lambda>acc x. (acc + (x :: nat) mod 2 ^ 64) mod 2 ^ 64)"
      by (simp add: fun_eq_iff mod_add_right_eq)
    then show ?thesis
      unfolding total_throughput_def using foldl_wrap [of 0 "\<lambda>x. x" xs] S by simp
  qed
  have q: "total_throughput_s xs = ?Q"
    unfolding total_throughput_s_def using foldl_wrap [of 0 "\<lambda>x. x * x" xs] Q by simp
  have f: "fairness xs = (?S * ?S, ?n * ?Q)" using SS nQ by (simp add: fairness_def t q)
  have pos: "0 < ?n * ?Q"
    using sum_squared_le [of xs] assms(2) by (metis less_le_trans nat_0_less_mult_iff)
  have "real (?S * ?S) \<le> real (?n * ?Q)" using sum_squared_le [of xs] by (rule of_nat_mono)
  moreover have "real (?n * ?Q) \<le> real ?n * real (?S * ?S)"
    using mult_le_mono2 [OF squares_le, of ?n xs] by (metis of_nat_mono of_nat_mult)
  ultimately show ?thesis using pos n unfolding f by (simp add: field_simps)
qed

theorem fairness_bounds_witness:
  "1 / real (length [3, 1 :: nat]) \<le> real (fst (fairness [3, 1])) / real (snd (fairness [3, 1]))
    \<and> real (fst (fairness [3, 1])) / real (snd (fairness [3, 1])) \<le> 1"
  by (rule fairness_bounds) simp_all

end
