(* ===== verification/MvccProgress.thy ===== *)
theory MvccProgress
  imports MvccProps
begin

text \<open>
  Progress of the worker threads: the search for an older version ends, a thread that
  runs while the others pause completes its update, and a store with a single thread
  never performs one because \<open>ThreadFunc\<close> draws a target until it differs from itself.
\<close>

section \<open>The search ends\<close>

lemma mrun_append: "mrun (es @ es') s = obind (mrun es s) (mrun es')"
  by (induction es s rule: mrun.induct) (auto simp: obind_def split: option.splits sum.splits)

lemma walk_next:
  assumes inv: "mvcc_inv S s ch ds" and i: "i < g_num_thread s" and pc: "lpc s i = T_Walk"
    and act: "is_thread_active (locals s i)" and c: "cursor_singly_node (locals s i) = Some c"
    and step: "walk_cursor i s = Inr t"
  shows "lpc t i = T_Compute \<or> (\<exists>c'. lpc t i = T_Walk \<and> is_thread_active (locals t i)
    \<and> cursor_singly_node (locals t i) = Some c' \<and> ver t c' < ver s c)"
proof -
  let ?p = "picked_thread_index (locals s i)" and ?v = "active_thread_version (locals s i)"
  have "lpc s i \<in> active_pcs" using pc by (simp add: active_pcs_def)
  note q = reader_queued [OF inv i this act]
  have "cursor_ok s ch (locals s i)" using inv_reader [OF inv i] pc by (simp add: reader_ok_def)
  with c act have cp: "c \<in> set (ch ?p)" by (auto simp: cursor_ok_def)
  from inv_queue(9) [OF inv q(1)] obtain m where m: "m \<in> set (ch ?p)"
    "minimum (g_queue s ?p) = ver s m" by auto
  have mv: "ver s m < ?v" using inv_queue(5) [OF inv q] m(2) by simp
  note h = heap_invD [OF inv_heap [OF inv] q(1)]
  show ?thesis
  proof (cases "ver s c < ?v")
    case True
    with step c act seg_dom [OF h(1) cp] show ?thesis
      by (auto simp: walk_cursor_def Let_def ver_def)
  next
    case False
    then have "ver s m < ver s c" using mv by simp
    from chain_next [OF h(1,3) cp m(1) this] obtain n c' where
      n: "singly_heap s c = Some n" "slink n = Some c'" "ver s c' < ver s c" by blast
    then have "t = lupd i (\<lambda>l. l\<lparr>cursor_singly_node := slink n\<rparr>) s"
      using step c act False by (auto simp: walk_cursor_def Let_def ver_def)
    with n pc act show ?thesis by simp
  qed
qed

text \<open>The search changes nothing but the cursor and the program point of the thread.\<close>

definition walk_frame :: "nat \<Rightarrow> mvcc \<Rightarrow> mvcc \<Rightarrow> bool" where
  "walk_frame i s t \<longleftrightarrow> g_num_thread t = g_num_thread s \<and> g_mutex t = g_mutex s
     \<and> singly_heap t = singly_heap s \<and> g_thread_throughput t = g_thread_throughput s
     \<and> is_thread_active (locals t i) = is_thread_active (locals s i)"

lemma walk_cursor_frame: "walk_cursor i s = Inr t \<Longrightarrow> walk_frame i s t"
  unfolding walk_cursor_def Let_def walk_frame_def
  by (cases "is_thread_active (locals s i)") (auto simp: rbind_eq_Inr_iff lupd_def)

lemma walk_ends_active:
  assumes "mvcc_inv S s ch ds" "i < g_num_thread s" "lpc s i = T_Walk"
    "is_thread_active (locals s i)" "cursor_singly_node (locals s i) = Some c"
  shows "\<exists>k t. mrun (replicate k (EThread i 0)) s = Some (Inr t) \<and> lpc t i = T_Compute
    \<and> mvcc_inv S t ch ds \<and> walk_frame i s t"
  using assms
proof (induction "ver s c" arbitrary: s c rule: less_induct)
  case less
  from walk_cursor_inv [OF less.prems(1-3)] obtain u where
    u: "walk_cursor i s = Inr u" "mvcc_inv S u ch ds" by blast
  have st: "mstep (EThread i 0) s = Some (Inr u)"
    using u less.prems by (simp add: thread_step_def)
  note fr = walk_cursor_frame [OF u(1)]
  then have iu: "i < g_num_thread u" using less.prems(2) by (simp add: walk_frame_def)
  from walk_next [OF less.prems u(1)] show ?case
  proof
    assume "lpc u i = T_Compute"
    with st u(2) fr show ?thesis by (intro exI [of _ 1] exI [of _ u]) simp
  next
    assume "\<exists>c'. lpc u i = T_Walk \<and> is_thread_active (locals u i)
      \<and> cursor_singly_node (locals u i) = Some c' \<and> ver u c' < ver s c"
    then obtain k t where "mrun (replicate k (EThread i 0)) u = Some (Inr t)"
      "lpc t i = T_Compute" "mvcc_inv S t ch ds" "walk_frame i u t"
      using less.hyps [OF _ u(2) iu] by blast
    with st fr show ?thesis by (intro exI [of _ "Suc k"] exI [of _ t]) (simp add: walk_frame_def)
  qed
qed

lemma walk_ends:
  assumes inv: "mvcc_inv S s ch ds" and i: "i < g_num_thread s" and pc: "lpc s i = T_Walk"
  shows "\<exists>k t. mrun (replicate k (EThread i 0)) s = Some (Inr t) \<and> lpc t i = T_Compute
    \<and> mvcc_inv S t ch ds \<and> walk_frame i s t
    \<and> (\<not> is_thread_active (locals s i) \<longrightarrow>
         cursor_singly_node (locals t i) = cursor_singly_node (locals s i))"
proof (cases "is_thread_active (locals s i)")
  case True
  have "cursor_ok s ch (locals s i)" using inv_reader [OF inv i] pc by (simp add: reader_ok_def)
  then obtain c where "cursor_singly_node (locals s i) = Some c" by (auto simp: cursor_ok_def)
  from walk_ends_active [OF inv i pc True this] True show ?thesis by blast
next
  case False
  from walk_cursor_inv [OF inv i pc] obtain u where
    u: "walk_cursor i s = Inr u" "mvcc_inv S u ch ds" by blast
  with False have "lpc u i = T_Compute"
    "cursor_singly_node (locals u i) = cursor_singly_node (locals s i)"
    by (auto simp: walk_cursor_def Let_def)
  with u i pc walk_cursor_frame [OF u(1)] show ?thesis
    by (intro exI [of _ 1] exI [of _ u]) (simp add: thread_step_def)
qed



section \<open>A thread that runs by itself completes its update\<close>

text \<open>\<open>i\<close> alone brings its update from \<open>s\<close> to the end.\<close>

definition completes :: "nat \<Rightarrow> mvcc \<Rightarrow> bool" where
  "completes i s \<longleftrightarrow> (\<exists>cs t. mrun (map (EThread i) cs) s = Some (Inr t) \<and> tpc (locals t i) = T_Loop
     \<and> g_thread_throughput t i = (g_thread_throughput s i + 1) mod 2 ^ 64)"

lemma completes_step:
  assumes "mstep (EThread i c) s = Some (Inr u)" "completes i u"
    "g_thread_throughput u i = g_thread_throughput s i"
  shows "completes i s"
proof -
  from assms(2,3) obtain cs t where "mrun (map (EThread i) cs) u = Some (Inr t)"
    "tpc (locals t i) = T_Loop" "g_thread_throughput t i = (g_thread_throughput s i + 1) mod 2 ^ 64"
    by (auto simp: completes_def)
  with assms(1) show ?thesis unfolding completes_def
    by (intro exI [of _ "c # cs"] exI [of _ t]) simp
qed

lemma completes_leave:
  assumes inv: "mvcc_inv S s ch ds" and i: "i < g_num_thread s" and pc: "lpc s i = T_Leave"
  shows "completes i s"
proof -
  from leave_section_inv [OF inv i pc] obtain u where u: "leave_section i s = Some (Inr u)" by blast
  then have f: "lpc u i = T_Unlock2" "g_num_thread u = g_num_thread s"
    "g_thread_throughput u = g_thread_throughput s"
    by (auto simp: leave_section_def Let_def lupd_def obind_def split: if_splits option.splits sum.splits)
  have "mrun (map (EThread i) [0, 0, 0]) s
    = Some (Inr (finish_update i (unlock_mutex i T_Finish u)))"
    using u f i pc by (simp add: thread_step_def unlock_mutex_def lupd_def)
  with f show ?thesis unfolding completes_def
    by (intro exI [of _ "[0, 0, 0]"] exI) (auto simp: finish_update_def unlock_mutex_def lupd_def)
qed

lemma completes_lock2:
  assumes inv: "mvcc_inv S s ch ds" and i: "i < g_num_thread s" and pc: "lpc s i = T_Lock2"
    and m: "g_mutex s = None"
  shows "completes i s"
proof -
  let ?u = "lupd i (goto T_Leave) (s\<lparr>g_mutex := Some i\<rparr>)"
  have l: "lock_mutex i T_Leave s = Some ?u" using m by (simp add: lock_mutex_def)
  from lock_mutex_inv [OF inv i _ l] pc have "mvcc_inv S ?u ch ds" by simp
  then have "completes i ?u" by (rule completes_leave) (simp_all add: i)
  then show ?thesis
    by (rule completes_step [rotated]) (simp_all add: i pc l thread_step_def lupd_def)
qed

lemma completes_insert:
  assumes inv: "mvcc_inv S s ch ds" and i: "i < g_num_thread s" and pc: "lpc s i = T_Insert"
    and m: "g_mutex s = None" and a: "singly_heap s a = None"
  shows "completes i s"
proof -
  let ?u = "insert_update i a s"
  have "completes i ?u"
    by (rule completes_lock2 [OF insert_update_inv [OF inv i pc a]])
       (simp_all add: i m insert_update_def InsertSinglyList_def Let_def)
  then show ?thesis
    by (rule completes_step [of i a, rotated])
       (simp_all add: i pc a thread_step_def insert_update_def InsertSinglyList_def Let_def lupd_def)
qed

lemma completes_compute:
  assumes inv: "mvcc_inv S s ch ds" and i: "i < g_num_thread s" and pc: "lpc s i = T_Compute"
    and m: "g_mutex s = None" and a: "singly_heap s a = None" and u: "compute_update i s = Inr u"
  shows "completes i s"
proof -
  have f: "lpc u i = T_Insert" "g_num_thread u = g_num_thread s" "g_mutex u = None"
    "singly_heap u = singly_heap s" "g_thread_throughput u = g_thread_throughput s"
    using u m by (auto simp: compute_update_def rbind_eq_Inr_iff lupd_def)
  have "completes i u"
    by (rule completes_insert [OF compute_update_inv [OF inv i pc u] _ f(1,3)]) (use f i a in simp_all)
  then show ?thesis
    by (rule completes_step [of i 0, rotated]) (use f i pc u in \<open>simp_all add: thread_step_def\<close>)
qed

lemma completes_walk:
  assumes inv: "mvcc_inv S s ch ds" and i: "i < g_num_thread s" and pc: "lpc s i = T_Walk"
    and m: "g_mutex s = None" and a: "singly_heap s a = None"
    and c: "cursor_singly_node (locals s i) = Some c" "singly_heap s c = Some n"
  shows "completes i s"
proof -
  from walk_ends [OF inv i pc] obtain k t where
    t: "mrun (replicate k (EThread i 0)) s = Some (Inr t)" "lpc t i = T_Compute"
    "mvcc_inv S t ch ds" "walk_frame i s t" "\<not> is_thread_active (locals s i) \<longrightarrow>
       cursor_singly_node (locals t i) = cursor_singly_node (locals s i)" by blast
  have it: "i < g_num_thread t" using t(4) i by (simp add: walk_frame_def)
  have "\<exists>u. compute_update i t = Inr u"
  proof (cases "is_thread_active (locals s i)")
    case True
    then show ?thesis
      using t(4) by (intro compute_update_active [OF t(3) it t(2)]) (simp add: walk_frame_def)
  next
    case False
    with t(4,5) c show ?thesis by (simp add: compute_update_def walk_frame_def)
  qed
  then have "completes i t"
    using completes_compute [OF t(3) it t(2)] t(4) m a by (auto simp: walk_frame_def)
  then obtain cs v where cs: "mrun (map (EThread i) cs) t = Some (Inr v)" "lpc v i = T_Loop"
    "g_thread_throughput v i = (g_thread_throughput s i + 1) mod 2 ^ 64"
    using t(4) by (auto simp: completes_def walk_frame_def)
  have "mrun (map (EThread i) (replicate k 0 @ cs)) s = Some (Inr v)"
    using t(1) cs(1) by (simp add: mrun_append)
  with cs(2,3) show ?thesis unfolding completes_def by blast
qed

lemma completes_read:
  assumes inv: "mvcc_inv S s ch ds" and i: "i < g_num_thread s" and pc: "lpc s i = T_ReadCursor"
    and m: "g_mutex s = None" and a: "singly_heap s a = None"
  shows "completes i s"
proof -
  let ?u = "read_cursor i s" and ?p = "picked_thread_index (locals s i)"
  have "?p < g_num_thread s" using reader_picked [OF inv_reader [OF inv i]] pc by simp
  from list_head [OF inv_heap [OF inv] this] obtain c n where
    c: "g_singly_list s ?p = Some c" "singly_heap s c = Some n" by metis
  have iu: "i < g_num_thread ?u" "lpc ?u i = T_ReadOwn" "g_num_thread ?u = g_num_thread s"
    using i by (simp_all add: read_cursor_def)
  from read_own_inv [OF read_cursor_inv [OF inv i pc] iu(1,2)] obtain w where
    w: "read_own i ?u = Inr w" "mvcc_inv S w ch ds" by blast
  then have f: "lpc w i = T_Walk" "g_num_thread w = g_num_thread s" "g_mutex w = None"
    "singly_heap w = singly_heap s" "cursor_singly_node (locals w i) = Some c"
    "g_thread_throughput w = g_thread_throughput s"
    using m c by (auto simp: read_own_def read_cursor_def rbind_eq_Inr_iff lupd_def)
  have "completes i w"
    by (rule completes_walk [OF w(2) _ f(1,3) _ f(5)]) (use f i a c in simp_all)
  then have "completes i ?u"
    by (rule completes_step [of i 0, rotated])
       (use f i w in \<open>simp_all add: thread_step_def read_cursor_def lupd_def\<close>)
  then show ?thesis
    by (rule completes_step [of i 0, rotated])
       (simp_all add: i pc thread_step_def read_cursor_def lupd_def)
qed

lemma completes_enter:
  assumes inv: "mvcc_inv S s ch ds" and i: "i < g_num_thread s" and pc: "lpc s i = T_Enter"
    and a: "singly_heap s a = None" and N: "g_atomic_counter s + 1 < 2 ^ 31"
    and b: "qcells (g_queue s (picked_thread_index (locals s i))) b = None"
  shows "completes i s"
proof -
  from enter_section_inv [OF inv i pc b N] obtain u where
    u: "enter_section i b s = Inr u" "mvcc_inv S u ch ds" by blast
  then have f: "lpc u i = T_Unlock1" "g_num_thread u = g_num_thread s"
    "singly_heap u = singly_heap s" "g_thread_throughput u = g_thread_throughput s"
    by (auto simp: enter_section_def Let_def rbind_eq_Inr_iff lupd_def split: option.splits)
  let ?w = "unlock_mutex i T_ReadCursor u"
  have "completes i ?w"
    by (rule completes_read [OF unlock_mutex_inv [OF u(2)]])
       (use f i a in \<open>simp_all add: unlock_mutex_def lupd_def\<close>)
  then have "completes i u"
    by (rule completes_step [of i 0, rotated])
       (use f i in \<open>simp_all add: thread_step_def unlock_mutex_def lupd_def\<close>)
  then show ?thesis
    by (rule completes_step [of i b, rotated]) (use f i pc b u in \<open>simp_all add: thread_step_def\<close>)
qed



section \<open>A single thread\<close>

text \<open>with one thread the program never performs an update: the drawn target is always
  the thread itself, so \<open>ThreadFunc\<close> stays in its drawing loop and no version is issued.\<close>

theorem single_thread_makes_no_update:
  assumes "reach [x] rawt s"
  shows "g_atomic_counter s = 0 \<and> tpc (locals s 0) \<in> {T_Loop, T_Pick, T_Done}
    \<and> g_thread_throughput s = rawt"
proof -
  have "g_num_thread s = 1 \<and> g_atomic_counter s = 0
    \<and> (lpc s 0 = T_Loop \<or> lpc s 0 = T_Pick \<or> lpc s 0 = T_Done) \<and> g_thread_throughput s = rawt"
    using assms
  proof induction
    case reach_init
    then show ?case by (simp add: init_local_def)
  next
    case (reach_step s e t)
    show ?case
    proof (cases e)
      case (EThread i c)
      with reach_step show ?thesis
        by (auto simp: thread_step_def loop_head_def pick_thread_def lupd_def split: if_splits)
    next
      case EGc
      with reach_step gc_step_frame [of s t] show ?thesis by simp
    qed (use reach_step in auto)
  qed
  then show ?thesis by simp
qed

theorem single_thread_makes_no_update_witness:
  "\<exists>t. reach [(1, 2)] (\<lambda>_. 0) t \<and> tpc (locals t 0) = T_Pick \<and> g_atomic_counter t = 0
     \<and> g_thread_throughput t = (\<lambda>_. 0)"
proof -
  have "run_ends [EThread 0 0, EThread 0 5, EGc, EThread 0 8] [(1, 2)] (\<lambda>t. tpc (locals t 0) = T_Pick)"
    by (simp add: schedule_defs run_defs)
  from run_ends_reach [OF this] obtain t where "reach [(1, 2)] (\<lambda>_. 0) t"
    "tpc (locals t 0) = T_Pick" by auto
  with single_thread_makes_no_update [of "(1, 2)" "\<lambda>_. 0" t] show ?thesis by blast
qed

end
