(* ===== verification/Bakery.thy ===== *)
theory Bakery
  imports Prelude
begin

text \<open>
  The bakery lock of Project2 (\<open>BakeryMax\<close>, \<open>bakery_lock\<close>, \<open>bakery_unlock\<close> of
  src/Project2/src/Project2.cpp), one step per access to the shared arrays:
  \<open>BakeryMax\<close> reads a ticket once for the comparison and once more to take it over,
  and the waiting condition reads the other thread's ticket up to three times. A
  ticket is an \<open>int\<close>; taking one above its range is a fault.
\<close>

section \<open>Definitions\<close>

datatype bpc = B_Idle | B_Cmp | B_Read | B_Ticket | B_Clear | B_WaitChoosing
  | B_Nonzero | B_Less | B_Equal | B_Section

record blocal =
  bpc :: bpc
  bj :: nat
  num_max :: nat

record bakery =
  nthreads :: nat
  g_bakery_number :: "nat \<Rightarrow> nat"
  g_bakery_choosing :: "nat \<Rightarrow> bool"
  blocals :: "nat \<Rightarrow> blocal"

definition bupd :: "nat \<Rightarrow> (blocal \<Rightarrow> blocal) \<Rightarrow> bakery \<Rightarrow> bakery" where
  "bupd i f s = s\<lparr>blocals := (blocals s)(i := f (blocals s i))\<rparr>"

text \<open>One iteration of the loop of \<open>BakeryMax\<close>: the comparison, then the second read.\<close>

definition BakeryMax_cmp :: "nat \<Rightarrow> bakery \<Rightarrow> bakery" where
  "BakeryMax_cmp i s =
     (let l = blocals s i
      in if bj l < nthreads s
         then if num_max l < g_bakery_number s (bj l)
              then bupd i (\<lambda>l. l\<lparr>bpc := B_Read\<rparr>) s
              else bupd i (\<lambda>l. l\<lparr>bj := bj l + 1\<rparr>) s
         else bupd i (\<lambda>l. l\<lparr>bpc := B_Ticket\<rparr>) s)"

definition BakeryMax_read :: "nat \<Rightarrow> bakery \<Rightarrow> bakery" where
  "BakeryMax_read i s =
     bupd i (\<lambda>l. l\<lparr>bpc := B_Cmp, num_max := g_bakery_number s (bj l), bj := bj l + 1\<rparr>) s"

text \<open>\<open>bakery_lock\<close> around \<open>BakeryMax\<close>.\<close>

definition lock_choose :: "nat \<Rightarrow> bakery \<Rightarrow> bakery" where
  "lock_choose i s = bupd i (\<lambda>l. l\<lparr>bpc := B_Cmp, bj := 0, num_max := 0\<rparr>)
     (s\<lparr>g_bakery_choosing := (g_bakery_choosing s)(i := True)\<rparr>)"

definition lock_ticket :: "nat \<Rightarrow> bakery \<Rightarrow> bakery res" where
  "lock_ticket i s =
     (let t = num_max (blocals s i) + 1
      in if t < 2 ^ 31
         then Inr (bupd i (\<lambda>l. l\<lparr>bpc := B_Clear\<rparr>)
                (s\<lparr>g_bakery_number := (g_bakery_number s)(i := t)\<rparr>))
         else Inl IntOverflow)"

definition lock_clear :: "nat \<Rightarrow> bakery \<Rightarrow> bakery" where
  "lock_clear i s = bupd i (\<lambda>l. l\<lparr>bpc := B_WaitChoosing, bj := 0\<rparr>)
     (s\<lparr>g_bakery_choosing := (g_bakery_choosing s)(i := False)\<rparr>)"

definition lock_wait_choosing :: "nat \<Rightarrow> bakery \<Rightarrow> bakery" where
  "lock_wait_choosing i s =
     (if bj (blocals s i) < nthreads s
      then if g_bakery_choosing s (bj (blocals s i)) then s
           else bupd i (\<lambda>l. l\<lparr>bpc := B_Nonzero\<rparr>) s
      else bupd i (\<lambda>l. l\<lparr>bpc := B_Section\<rparr>) s)"

definition next_thread :: "blocal \<Rightarrow> blocal" where
  "next_thread l = l\<lparr>bpc := B_WaitChoosing, bj := bj l + 1\<rparr>"

definition lock_nonzero :: "nat \<Rightarrow> bakery \<Rightarrow> bakery" where
  "lock_nonzero i s =
     (if g_bakery_number s (bj (blocals s i)) \<noteq> 0
      then bupd i (\<lambda>l. l\<lparr>bpc := B_Less\<rparr>) s else bupd i next_thread s)"

definition lock_less :: "nat \<Rightarrow> bakery \<Rightarrow> bakery" where
  "lock_less i s =
     (if g_bakery_number s (bj (blocals s i)) < g_bakery_number s i
      then bupd i (\<lambda>l. l\<lparr>bpc := B_Nonzero\<rparr>) s else bupd i (\<lambda>l. l\<lparr>bpc := B_Equal\<rparr>) s)"

definition lock_equal :: "nat \<Rightarrow> bakery \<Rightarrow> bakery" where
  "lock_equal i s =
     (if g_bakery_number s (bj (blocals s i)) = g_bakery_number s i \<and> bj (blocals s i) < i
      then bupd i (\<lambda>l. l\<lparr>bpc := B_Nonzero\<rparr>) s else bupd i next_thread s)"

definition bakery_unlock :: "nat \<Rightarrow> bakery \<Rightarrow> bakery" where
  "bakery_unlock i s = bupd i (\<lambda>l. l\<lparr>bpc := B_Idle\<rparr>)
     (s\<lparr>g_bakery_number := (g_bakery_number s)(i := 0)\<rparr>)"

text \<open>A step of thread \<open>i\<close>, which locks, enters its section and unlocks forever.\<close>

definition bakery_lock_step :: "nat \<Rightarrow> bakery \<Rightarrow> bakery res" where
  "bakery_lock_step i s =
     (case bpc (blocals s i) of
        B_Idle \<Rightarrow> Inr (lock_choose i s)
      | B_Cmp \<Rightarrow> Inr (BakeryMax_cmp i s)
      | B_Read \<Rightarrow> Inr (BakeryMax_read i s)
      | B_Ticket \<Rightarrow> lock_ticket i s
      | B_Clear \<Rightarrow> Inr (lock_clear i s)
      | B_WaitChoosing \<Rightarrow> Inr (lock_wait_choosing i s)
      | B_Nonzero \<Rightarrow> Inr (lock_nonzero i s)
      | B_Less \<Rightarrow> Inr (lock_less i s)
      | B_Equal \<Rightarrow> Inr (lock_equal i s)
      | B_Section \<Rightarrow> Inr (bakery_unlock i s))"

definition bakery_init :: "nat \<Rightarrow> bakery" where
  "bakery_init n = \<lparr>nthreads = n, g_bakery_number = (\<lambda>_. 0), g_bakery_choosing = (\<lambda>_. False),
     blocals = (\<lambda>_. \<lparr>bpc = B_Idle, bj = 0, num_max = 0\<rparr>)\<rparr>"

fun bakery_run :: "nat list \<Rightarrow> bakery \<Rightarrow> bakery res" where
  "bakery_run [] s = Inr s"
| "bakery_run (i # is) s = rbind (bakery_lock_step i s) (bakery_run is)"

inductive bakery_reach :: "nat \<Rightarrow> bakery \<Rightarrow> bool" for n :: nat where
  bakery_start: "bakery_reach n (bakery_init n)"
| bakery_step: "bakery_reach n s \<Longrightarrow> i < n \<Longrightarrow> bakery_lock_step i s = Inr t \<Longrightarrow> bakery_reach n t"

section \<open>The invariant\<close>

abbreviation bp :: "bakery \<Rightarrow> nat \<Rightarrow> bpc" where
  "bp s i \<equiv> bpc (blocals s i)"

abbreviation nr :: "bakery \<Rightarrow> nat \<Rightarrow> nat" where
  "nr s i \<equiv> g_bakery_number s i"

text \<open>Taking a ticket; holding one; waiting.\<close>

definition taking :: "bpc \<Rightarrow> bool" where
  "taking p \<longleftrightarrow> p = B_Cmp \<or> p = B_Read \<or> p = B_Ticket"

definition comparing :: "bpc \<Rightarrow> bool" where
  "comparing p \<longleftrightarrow> p = B_Nonzero \<or> p = B_Less \<or> p = B_Equal"

definition holding :: "bpc \<Rightarrow> bool" where
  "holding p \<longleftrightarrow> p = B_Clear \<or> p = B_WaitChoosing \<or> comparing p \<or> p = B_Section"

text \<open>\<open>i\<close> has got past \<open>j\<close>; \<open>i\<close> has at least seen that \<open>j\<close> was not choosing.\<close>

definition passed :: "bakery \<Rightarrow> nat \<Rightarrow> nat \<Rightarrow> bool" where
  "passed s i j \<longleftrightarrow> bp s i = B_Section
     \<or> (bp s i = B_WaitChoosing \<or> comparing (bp s i)) \<and> j < bj (blocals s i)"

definition checked :: "bakery \<Rightarrow> nat \<Rightarrow> nat \<Rightarrow> bool" where
  "checked s i j \<longleftrightarrow> passed s i j \<or> comparing (bp s i) \<and> j = bj (blocals s i)"

text \<open>\<open>j\<close>, taking a ticket, will take one above \<open>i\<close>'s.\<close>

definition exceeds :: "bakery \<Rightarrow> nat \<Rightarrow> nat \<Rightarrow> bool" where
  "exceeds s i j \<longleftrightarrow> (let l = blocals s j
     in (bpc l = B_Cmp \<longrightarrow> bj l \<le> i \<or> nr s i \<le> num_max l)
        \<and> (bpc l = B_Read \<longrightarrow> bj l \<le> i \<or> nr s i \<le> num_max l \<and> nr s i < nr s (bj l))
        \<and> (bpc l = B_Ticket \<longrightarrow> nr s i \<le> num_max l))"

definition local_ok :: "bakery \<Rightarrow> nat \<Rightarrow> bool" where
  "local_ok s i \<longleftrightarrow> (nr s i \<noteq> 0 \<longleftrightarrow> holding (bp s i))
     \<and> (g_bakery_choosing s i \<longleftrightarrow> taking (bp s i) \<or> bp s i = B_Clear)
     \<and> (bp s i = B_Ticket \<longrightarrow> nthreads s \<le> bj (blocals s i))
     \<and> (bp s i = B_Read \<or> comparing (bp s i) \<longrightarrow> bj (blocals s i) < nthreads s)"

definition pair_ok :: "bakery \<Rightarrow> nat \<Rightarrow> nat \<Rightarrow> bool" where
  "pair_ok s i j \<longleftrightarrow> (checked s i j \<longrightarrow> taking (bp s j) \<longrightarrow> exceeds s i j)
     \<and> (passed s i j \<longrightarrow> holding (bp s j) \<longrightarrow> nr s i < nr s j \<or> nr s i = nr s j \<and> i < j)
     \<and> (bp s i = B_Equal \<longrightarrow> bj (blocals s i) = j \<longrightarrow> holding (bp s j) \<longrightarrow> nr s i \<le> nr s j)"

definition bakery_inv :: "bakery \<Rightarrow> bool" where
  "bakery_inv s \<longleftrightarrow> (\<forall>i < nthreads s. local_ok s i)
     \<and> (\<forall>i < nthreads s. \<forall>j < nthreads s. i \<noteq> j \<longrightarrow> pair_ok s i j)"

lemmas bakery_defs = taking_def comparing_def holding_def passed_def checked_def exceeds_def
  local_ok_def pair_ok_def Let_def

lemma bupd_simps [simp]:
  "nthreads (bupd i f s) = nthreads s" "g_bakery_number (bupd i f s) = g_bakery_number s"
  "g_bakery_choosing (bupd i f s) = g_bakery_choosing s"
  "blocals (bupd i f s) = (blocals s)(i := f (blocals s i))"
  by (simp_all add: bupd_def)

lemma bakery_invD:
  assumes "bakery_inv s"
  shows "i < nthreads s \<Longrightarrow> local_ok s i"
    "i < nthreads s \<Longrightarrow> j < nthreads s \<Longrightarrow> i \<noteq> j \<Longrightarrow> pair_ok s i j"
  using assms by (auto simp: bakery_inv_def)

text \<open>A step of thread \<open>k\<close> that leaves the tickets alone.\<close>

lemma bakery_local_step:
  assumes inv: "bakery_inv s" and k: "k < nthreads s"
    and t: "nthreads t = nthreads s" "g_bakery_number t = g_bakery_number s"
      "\<And>i. i \<noteq> k \<Longrightarrow> g_bakery_choosing t i = g_bakery_choosing s i"
      "\<And>i. i \<noteq> k \<Longrightarrow> blocals t i = blocals s i"
    and l: "local_ok t k"
    and p: "\<And>j. j < nthreads s \<Longrightarrow> j \<noteq> k \<Longrightarrow> pair_ok t k j"
      "\<And>j. j < nthreads s \<Longrightarrow> j \<noteq> k \<Longrightarrow> pair_ok t j k"
  shows "bakery_inv t"
  unfolding bakery_inv_def t(1)
proof (intro conjI allI impI)
  fix i assume i: "i < nthreads s"
  show "local_ok t i"
    using bakery_invD(1) [OF inv i] l t by (cases "i = k") (simp_all add: local_ok_def)
  fix j assume j: "j < nthreads s" "i \<noteq> j"
  show "pair_ok t i j"
    using bakery_invD(2) [OF inv i j] p [of i] p [of j] i j t
    by (cases "i = k"; cases "j = k") (simp_all add: pair_ok_def checked_def passed_def exceeds_def)
qed

lemma lock_choose_inv:
  assumes inv: "bakery_inv s" and k: "k < nthreads s" and pc: "bp s k = B_Idle"
  shows "bakery_inv (lock_choose k s)"
proof (rule bakery_local_step [OF inv k])
  show "local_ok (lock_choose k s) k"
    using bakery_invD(1) [OF inv k] pc by (simp add: lock_choose_def bakery_defs)
  fix j assume "j < nthreads s" "j \<noteq> k"
  then show "pair_ok (lock_choose k s) k j" "pair_ok (lock_choose k s) j k"
    by (simp_all add: lock_choose_def bakery_defs)
qed (simp_all add: lock_choose_def)

lemma BakeryMax_cmp_inv:
  assumes inv: "bakery_inv s" and k: "k < nthreads s" and pc: "bp s k = B_Cmp"
  shows "bakery_inv (BakeryMax_cmp k s)"
proof (rule bakery_local_step [OF inv k])
  show "local_ok (BakeryMax_cmp k s) k"
    using bakery_invD(1) [OF inv k] pc by (auto simp: BakeryMax_cmp_def bakery_defs)
  fix j assume j: "j < nthreads s" "j \<noteq> k"
  show "pair_ok (BakeryMax_cmp k s) k j"
    using pc by (auto simp: BakeryMax_cmp_def bakery_defs)
  have a: "exceeds (BakeryMax_cmp k s) j k" if "exceeds s j k"
    using that pc j by (cases "bj (blocals s k) = j") (auto simp: BakeryMax_cmp_def exceeds_def Let_def)
  have c: "checked (BakeryMax_cmp k s) j k = checked s j k"
    using j by (auto simp: BakeryMax_cmp_def checked_def passed_def Let_def)
  have h: "\<not> holding (bp (BakeryMax_cmp k s) k)" "taking (bp s k)"
    using pc by (auto simp: BakeryMax_cmp_def holding_def comparing_def taking_def Let_def)
  show "pair_ok (BakeryMax_cmp k s) j k"
    using bakery_invD(2) [OF inv j(1) k j(2)] a h by (simp add: pair_ok_def c)
qed (auto simp: BakeryMax_cmp_def Let_def)

lemma BakeryMax_read_inv:
  assumes inv: "bakery_inv s" and k: "k < nthreads s" and pc: "bp s k = B_Read"
  shows "bakery_inv (BakeryMax_read k s)"
proof (rule bakery_local_step [OF inv k])
  show "local_ok (BakeryMax_read k s) k"
    using bakery_invD(1) [OF inv k] pc by (auto simp: BakeryMax_read_def bakery_defs)
  fix j assume j: "j < nthreads s" "j \<noteq> k"
  show "pair_ok (BakeryMax_read k s) k j"
    using pc by (auto simp: BakeryMax_read_def bakery_defs)
  have a: "exceeds (BakeryMax_read k s) j k" if "exceeds s j k"
    using that pc j by (cases "bj (blocals s k) = j") (auto simp: BakeryMax_read_def exceeds_def Let_def)
  have c: "checked (BakeryMax_read k s) j k = checked s j k"
    using j by (auto simp: BakeryMax_read_def checked_def passed_def Let_def)
  have h: "\<not> holding (bp (BakeryMax_read k s) k)" "taking (bp s k)"
    using pc by (auto simp: BakeryMax_read_def holding_def comparing_def taking_def Let_def)
  show "pair_ok (BakeryMax_read k s) j k"
    using bakery_invD(2) [OF inv j(1) k j(2)] a h by (simp add: pair_ok_def c)
qed (auto simp: BakeryMax_read_def Let_def)

text \<open>The waiting loop: the tickets and the other threads stay as they are.\<close>

lemma lock_clear_inv:
  assumes inv: "bakery_inv s" and k: "k < nthreads s" and pc: "bp s k = B_Clear"
  shows "bakery_inv (lock_clear k s)"
proof (rule bakery_local_step [OF inv k])
  show "local_ok (lock_clear k s) k"
    using bakery_invD(1) [OF inv k] pc by (simp add: lock_clear_def bakery_defs)
  fix j assume j: "j < nthreads s" "j \<noteq> k"
  show "pair_ok (lock_clear k s) k j" by (simp add: lock_clear_def bakery_defs)
  show "pair_ok (lock_clear k s) j k"
    using bakery_invD(2) [OF inv j(1) k j(2)] j pc by (simp add: lock_clear_def bakery_defs)
qed (simp_all add: lock_clear_def)

text \<open>Thread \<open>k\<close> moves within the waiting loop or into its section.\<close>

lemma waiting_step:
  assumes inv: "bakery_inv s" and k: "k < nthreads s"
    and pc: "holding (bp s k)" "bp s k \<noteq> B_Clear" and h: "holding (bpc (f (blocals s k)))"
      "bpc (f (blocals s k)) \<noteq> B_Clear"
    and b: "comparing (bpc (f (blocals s k))) \<Longrightarrow> bj (f (blocals s k)) < nthreads s"
    and p: "\<And>j. j < nthreads s \<Longrightarrow> j \<noteq> k \<Longrightarrow> pair_ok (bupd k f s) k j"
  shows "bakery_inv (bupd k f s)"
proof (rule bakery_local_step [OF inv k])
  have nt: "\<not> taking (bpc (f (blocals s k)))" "\<not> taking (bp s k)"
    using h pc by (auto simp: taking_def holding_def comparing_def)
  then have ne: "bpc (f (blocals s k)) \<noteq> B_Ticket" "bpc (f (blocals s k)) \<noteq> B_Read"
    by (auto simp: taking_def)
  show "local_ok (bupd k f s) k"
    using bakery_invD(1) [OF inv k] pc h b nt ne by (simp add: local_ok_def)
  fix j assume j: "j < nthreads s" "j \<noteq> k"
  show "pair_ok (bupd k f s) j k"
    using bakery_invD(2) [OF inv j(1) k j(2)] j h pc nt
    by (simp add: pair_ok_def checked_def passed_def)
qed (use p in simp_all)

lemma lock_wait_choosing_inv:
  assumes inv: "bakery_inv s" and k: "k < nthreads s" and pc: "bp s k = B_WaitChoosing"
  shows "bakery_inv (lock_wait_choosing k s)"
proof -
  let ?j = "bj (blocals s k)"
  have P: "pair_ok s k j" if "j < nthreads s" "j \<noteq> k" for j
    using bakery_invD(2) [OF inv k that(1)] that(2) by blast
  consider "?j < nthreads s" "g_bakery_choosing s ?j" | "?j < nthreads s" "\<not> g_bakery_choosing s ?j"
    | "nthreads s \<le> ?j" by linarith
  then show ?thesis
  proof cases
    case 1
    then show ?thesis using inv by (simp add: lock_wait_choosing_def)
  next
    case 2
    have "\<not> taking (bp s ?j)" using bakery_invD(1) [OF inv 2(1)] 2(2) by (simp add: local_ok_def)
    then have q: "pair_ok (bupd k (\<lambda>l. l\<lparr>bpc := B_Nonzero\<rparr>) s) k j"
      if "j < nthreads s" "j \<noteq> k" for j
      using P [OF that] pc that
      by (cases "j = ?j") (auto simp: pair_ok_def checked_def passed_def exceeds_def comparing_def)
    have "bakery_inv (bupd k (\<lambda>l. l\<lparr>bpc := B_Nonzero\<rparr>) s)"
    proof (rule waiting_step [OF inv k])
      show "pair_ok (bupd k (\<lambda>l. l\<lparr>bpc := B_Nonzero\<rparr>) s) k j" if "j < nthreads s" "j \<noteq> k" for j
        by (rule q [OF that])
    qed (use 2(1) pc in \<open>simp_all add: holding_def comparing_def\<close>)
    with 2 show ?thesis by (simp add: lock_wait_choosing_def)
  next
    case 3
    have q: "pair_ok (bupd k (\<lambda>l. l\<lparr>bpc := B_Section\<rparr>) s) k j"
      if "j < nthreads s" "j \<noteq> k" for j
      using P [OF that] pc that 3
      by (auto simp: pair_ok_def checked_def passed_def exceeds_def comparing_def)
    have "bakery_inv (bupd k (\<lambda>l. l\<lparr>bpc := B_Section\<rparr>) s)"
    proof (rule waiting_step [OF inv k])
      show "pair_ok (bupd k (\<lambda>l. l\<lparr>bpc := B_Section\<rparr>) s) k j" if "j < nthreads s" "j \<noteq> k" for j
        by (rule q [OF that])
    qed (use pc in \<open>simp_all add: holding_def comparing_def\<close>)
    with 3 show ?thesis by (simp add: lock_wait_choosing_def)
  qed
qed

lemma exceeds_other: "j \<noteq> k \<Longrightarrow> exceeds (bupd k f s) i j = exceeds s i j"
  by (simp add: exceeds_def)

lemma comparing_pcs: "comparing p \<Longrightarrow> p \<noteq> B_Section \<and> p \<noteq> B_WaitChoosing \<and> p \<noteq> B_Clear"
  by (auto simp: comparing_def)

lemma compare_step:
  assumes inv: "bakery_inv s" and k: "k < nthreads s" and pc: "comparing (bp s k)"
    and q: "comparing q" "q = B_Equal \<Longrightarrow> nr s k \<le> nr s (bj (blocals s k))"
  shows "bakery_inv (bupd k (\<lambda>l. l\<lparr>bpc := q\<rparr>) s)"
proof (rule waiting_step [OF inv k])
  have l: "local_ok s k" by (rule bakery_invD(1) [OF inv k])
  show "holding (bp s k)" "bp s k \<noteq> B_Clear" using pc by (auto simp: holding_def comparing_def)
  fix j assume j: "j < nthreads s" "j \<noteq> k"
  have "pair_ok s k j" using bakery_invD(2) [OF inv k j(1)] j(2) by blast
  moreover have "checked (bupd k (\<lambda>l. l\<lparr>bpc := q\<rparr>) s) k j = checked s k j"
    "passed (bupd k (\<lambda>l. l\<lparr>bpc := q\<rparr>) s) k j = passed s k j"
    using pc q(1) comparing_pcs by (auto simp: checked_def passed_def)
  ultimately show "pair_ok (bupd k (\<lambda>l. l\<lparr>bpc := q\<rparr>) s) k j"
    using q(2) j exceeds_other [OF j(2)] by (auto simp: pair_ok_def)
qed (use q pc bakery_invD(1) [OF inv k] in \<open>auto simp: holding_def comparing_def local_ok_def\<close>)

lemma next_step:
  assumes inv: "bakery_inv s" and k: "k < nthreads s" and pc: "comparing (bp s k)"
    and q: "let j = bj (blocals s k) in j \<noteq> k \<longrightarrow> holding (bp s j) \<longrightarrow>
      nr s k < nr s j \<or> nr s k = nr s j \<and> k < j"
  shows "bakery_inv (bupd k next_thread s)"
proof (rule waiting_step [OF inv k])
  show "holding (bp s k)" "bp s k \<noteq> B_Clear" using pc by (auto simp: holding_def comparing_def)
  fix j assume j: "j < nthreads s" "j \<noteq> k"
  have "pair_ok s k j" using bakery_invD(2) [OF inv k j(1)] j(2) by blast
  moreover have "checked (bupd k next_thread s) k j = checked s k j"
    "passed (bupd k next_thread s) k j \<longleftrightarrow> passed s k j \<or> j = bj (blocals s k)"
    using pc comparing_pcs by (auto simp: checked_def passed_def next_thread_def comparing_def less_Suc_eq)
  moreover have "bp (bupd k next_thread s) k \<noteq> B_Equal" by (simp add: next_thread_def)
  ultimately show "pair_ok (bupd k next_thread s) k j"
    using q j exceeds_other [OF j(2)] by (auto simp: pair_ok_def Let_def)
qed (auto simp: holding_def comparing_def next_thread_def)

lemma lock_compare_inv:
  assumes inv: "bakery_inv s" and k: "k < nthreads s" and pc: "comparing (bp s k)"
  shows "bp s k = B_Nonzero \<Longrightarrow> bakery_inv (lock_nonzero k s)"
    "bp s k = B_Less \<Longrightarrow> bakery_inv (lock_less k s)"
    "bp s k = B_Equal \<Longrightarrow> bakery_inv (lock_equal k s)"
proof -
  let ?j = "bj (blocals s k)"
  have j: "?j < nthreads s" using bakery_invD(1) [OF inv k] pc by (simp add: local_ok_def)
  have c: "comparing B_Nonzero" "comparing B_Less" "comparing B_Equal" by (simp_all add: comparing_def)
  note step = compare_step [OF inv k pc] and nxt = next_step [OF inv k pc]
  have z: "nr s ?j = 0 \<Longrightarrow> \<not> holding (bp s ?j)"
    using bakery_invD(1) [OF inv j] by (simp add: local_ok_def)
  show "bakery_inv (lock_nonzero k s)"
    using step [OF c(2)] nxt z by (simp add: lock_nonzero_def)
  show "bakery_inv (lock_less k s)"
    using step [OF c(1)] step [OF c(3)] by (simp add: lock_less_def)
  assume "bp s k = B_Equal"
  then have "?j \<noteq> k \<Longrightarrow> holding (bp s ?j) \<Longrightarrow> nr s k \<le> nr s ?j"
    using bakery_invD(2) [OF inv k j] by (simp add: pair_ok_def)
  then have "\<not> (nr s ?j = nr s k \<and> ?j < k) \<Longrightarrow> bakery_inv (bupd k next_thread s)"
    by (intro nxt) (auto simp: Let_def order.order_iff_strict)
  then show "bakery_inv (lock_equal k s)"
    using step [OF c(1)] by (simp add: lock_equal_def)
qed

lemma lock_ticket_inv:
  assumes inv: "bakery_inv s" and k: "k < nthreads s" and pc: "bp s k = B_Ticket"
    and step: "lock_ticket k s = Inr t"
  shows "bakery_inv t"
proof -
  let ?n = "Suc (num_max (blocals s k))"
  have t: "t = bupd k (\<lambda>l. l\<lparr>bpc := B_Clear\<rparr>) (s\<lparr>g_bakery_number := (nr s)(k := ?n)\<rparr>)"
    using step by (simp add: lock_ticket_def Let_def split: if_splits)
  have k0: "nr s k = 0" "g_bakery_choosing s k"
    using bakery_invD(1) [OF inv k] pc by (simp_all add: local_ok_def holding_def comparing_def taking_def)
  have loc: "local_ok t i" if i: "i < nthreads s" for i
    using bakery_invD(1) [OF inv i] k0 pc
    by (cases "i = k") (simp_all add: t local_ok_def holding_def comparing_def)
  have "pair_ok t i j" if i: "i < nthreads s" and j: "j < nthreads s" "i \<noteq> j" for i j
  proof (cases "i = k")
    case True
    then show ?thesis by (simp add: t pair_ok_def checked_def passed_def comparing_def)
  next
    case ik: False
    note P = bakery_invD(2) [OF inv i j]
    have cp: "checked t i j = checked s i j" "passed t i j = passed s i j"
      using ik by (simp_all add: t checked_def passed_def)
    show ?thesis
    proof (cases "j = k")
      case True
      have "checked s i k \<Longrightarrow> nr s i < ?n"
        using P True pc by (auto simp: pair_ok_def taking_def exceeds_def Let_def)
      moreover have "bp s i = B_Equal \<and> bj (blocals s i) = k \<Longrightarrow> checked s i k"
        by (simp add: checked_def comparing_def)
      ultimately show ?thesis
        using ik True cp by (auto simp: pair_ok_def checked_def t taking_def)
    next
      case jk: False
      have "exceeds s i j \<Longrightarrow> exceeds t i j"
        using ik jk k0(1) by (auto simp: t exceeds_def Let_def)
      with P ik jk cp show ?thesis by (simp add: pair_ok_def t)
    qed
  qed
  with loc show ?thesis by (simp add: bakery_inv_def t)
qed

text \<open>
  The unlock. A thread that is about to take over the ticket it has just compared
  cannot lose it in between, because that ticket is above another one still held.
\<close>

lemma bakery_unlock_inv:
  assumes inv: "bakery_inv s" and k: "k < nthreads s" and pc: "bp s k = B_Section"
  shows "bakery_inv (bakery_unlock k s)"
proof -
  let ?t = "bakery_unlock k s"
  have loc: "local_ok ?t i" if i: "i < nthreads s" for i
    using bakery_invD(1) [OF inv i] pc
    by (cases "i = k") (simp_all add: bakery_unlock_def local_ok_def holding_def comparing_def taking_def)
  have "pair_ok ?t i j" if i: "i < nthreads s" and j: "j < nthreads s" "i \<noteq> j" for i j
  proof (cases "i = k \<or> j = k")
    case True
    then show ?thesis
      by (auto simp: bakery_unlock_def pair_ok_def checked_def passed_def comparing_def
          holding_def taking_def)
  next
    case False
    note P = bakery_invD(2) [OF inv i j]
    have cp: "checked ?t i j = checked s i j" "passed ?t i j = passed s i j"
      using False by (simp_all add: bakery_unlock_def checked_def passed_def)
    have "exceeds ?t i j" if a: "exceeds s i j" and c: "checked s i j"
    proof -
      have "holding (bp s i)" using c by (auto simp: checked_def passed_def holding_def)
      moreover have "passed s k i" using pc by (simp add: passed_def)
      ultimately have "\<not> nr s i < nr s k"
        using bakery_invD(2) [OF inv k i] False by (auto simp: pair_ok_def)
      with a False show ?thesis by (auto simp: bakery_unlock_def exceeds_def Let_def)
    qed
    with P cp False show ?thesis by (simp add: pair_ok_def) (simp add: bakery_unlock_def)
  qed
  with loc show ?thesis by (simp add: bakery_inv_def) (simp add: bakery_unlock_def)
qed

lemma bakery_step_inv:
  assumes inv: "bakery_inv s" and k: "k < nthreads s" and step: "bakery_lock_step k s = Inr t"
  shows "bakery_inv t"
  using step lock_choose_inv [OF inv k] BakeryMax_cmp_inv [OF inv k] BakeryMax_read_inv [OF inv k]
    lock_ticket_inv [OF inv k] lock_clear_inv [OF inv k] lock_wait_choosing_inv [OF inv k]
    lock_compare_inv [OF inv k] bakery_unlock_inv [OF inv k]
  by (cases "bp s k") (simp_all add: bakery_lock_step_def comparing_def)

lemma bakery_step_threads: "bakery_lock_step k s = Inr t \<Longrightarrow> nthreads t = nthreads s"
  by (auto simp: bakery_lock_step_def lock_choose_def BakeryMax_cmp_def BakeryMax_read_def
      lock_ticket_def lock_clear_def lock_wait_choosing_def lock_nonzero_def lock_less_def
      lock_equal_def bakery_unlock_def Let_def split: bpc.splits if_splits)

lemma bakery_reach_inv: "bakery_reach n s \<Longrightarrow> bakery_inv s \<and> nthreads s = n"
proof (induction rule: bakery_reach.induct)
  case bakery_start
  then show ?case
    by (simp add: bakery_inv_def bakery_init_def local_ok_def pair_ok_def checked_def passed_def
        comparing_def holding_def taking_def)
next
  case (bakery_step s i t)
  then show ?case using bakery_step_inv bakery_step_threads by metis
qed

lemma bakery_run_reach:
  "bakery_reach n s \<Longrightarrow> set is \<subseteq> {..<n} \<Longrightarrow> bakery_run is s = Inr t \<Longrightarrow> bakery_reach n t"
  by (induction "is" s rule: bakery_run.induct) (auto simp: rbind_eq_Inr_iff intro: bakery_step)

section \<open>Properties\<close>

text \<open>C5: the bakery lock gives mutual exclusion for any number of threads, although
  \<open>BakeryMax\<close> and the waiting condition read the shared tickets several times.\<close>

theorem bakery_mutual_exclusion:
  assumes "bakery_reach n s" "i < n" "j < n"
    and "bpc (blocals s i) = B_Section" "bpc (blocals s j) = B_Section"
  shows "i = j"
proof (rule ccontr)
  assume "i \<noteq> j"
  with bakery_reach_inv [OF assms(1)] assms(2,3) have "pair_ok s i j" "pair_ok s j i"
    by (auto simp: bakery_inv_def)
  with assms(4,5) show False by (auto simp: pair_ok_def passed_def holding_def)
qed

theorem bakery_mutual_exclusion_witness:
  "\<exists>s. bakery_reach 2 s \<and> bpc (blocals s 0) = B_Section \<and> bpc (blocals s 1) \<noteq> B_Section"
proof -
  let ?is = "replicate 13 0 @ replicate 2 (1 :: nat)"
  obtain s where s: "bakery_run ?is (bakery_init 2) = Inr s" "bpc (blocals s 0) = B_Section"
    by (simp add: replicate_numeral bakery_init_def bakery_lock_step_def lock_choose_def
        BakeryMax_cmp_def BakeryMax_read_def lock_ticket_def lock_clear_def lock_wait_choosing_def
        lock_nonzero_def lock_less_def lock_equal_def next_thread_def bupd_def Let_def)
  have "bakery_reach 2 s" by (rule bakery_run_reach [OF bakery_start _ s(1)]) auto
  with s bakery_mutual_exclusion [of 2 s 0 1] show ?thesis by auto
qed

end
