(* ===== verification/HouseSearch.thy ===== *)
theory HouseSearch
  imports Prelude
begin

text \<open>
  The distance search of Project1 (src/Project1/src/Project1.cpp): \<open>InsertEdge\<close>,
  which builds the adjacency arrays, and \<open>Search\<close>, a breadth-first search from one
  house over the array \<open>search_array\<close> that keeps the depth by counting levels, with
  its early return when a recorded bound shows that the search cannot raise the
  maximum. Arrays are lists with checked bounds; a cell that was never written is
  \<open>None\<close>. Memory from \<open>malloc\<close> that the code reads before writing is an argument.
\<close>

section \<open>Data\<close>

definition MAX_EDGE_NUM :: nat where
  "MAX_EDGE_NUM = 10"

record Vertex =
  vcount :: nat
  is_house :: bool
  adjacency :: "nat list"
  vhouse :: nat

text \<open>The globals and what \<open>MyArg\<close> passes to the threads.\<close>

record MyArg =
  vertice :: "Vertex list"
  house :: "nat list"
  house_distance_least :: "nat list"
  house_distance_most :: "nat list"
  g_total_max :: nat
  g_i_max :: "nat list"
  g_house_distance_i_to_all :: "nat list list"

text \<open>\<open>house_num\<close> is the length of \<open>house\<close>; \<open>vertice_num + 1\<close> that of \<open>vertice\<close>.\<close>

abbreviation house_num :: "MyArg \<Rightarrow> nat" where
  "house_num w \<equiv> length (house w)"

abbreviation vertice_num :: "MyArg \<Rightarrow> nat" where
  "vertice_num w \<equiv> length (vertice w) - 1"

definition pred32 :: "nat \<Rightarrow> nat" where
  "pred32 n = (n + 2 ^ 32 - 1) mod 2 ^ 32"

section \<open>InsertEdge\<close>

definition InsertEdge :: "Vertex list \<Rightarrow> nat \<Rightarrow> nat \<Rightarrow> bool list \<Rightarrow> Vertex list res" where
  "InsertEdge vs start end house_vertice =
     rbind (aget vs start) (\<lambda>v.
     rbind (aset (adjacency v) (vcount v) end) (\<lambda>adj.
     rbind (aget house_vertice end) (\<lambda>hv.
       let v1 = v\<lparr>adjacency := adj, vcount := vcount v + 1\<rparr>;
           v2 = (if hv then v1\<lparr>is_house := True, vhouse := end\<rparr> else v1)
       in Inr (vs[start := v2]))))"

section \<open>Search\<close>

record slocal =
  distance :: nat
  search_array :: "nat option list"
  search_array_count :: nat
  total_count :: nat
  cycle_count :: nat
  visit_vertice :: "bool list"
  visit_house :: "bool list"
  least_flag :: bool
  least :: nat
  most :: nat
  count_end :: nat

text \<open>The loop that looks the house up and records its distance.\<close>

fun record_house :: "nat \<Rightarrow> nat \<Rightarrow> nat list \<Rightarrow> MyArg \<Rightarrow> slocal \<Rightarrow> (MyArg \<times> slocal) res" where
  "record_house start_num temp_house [] w l = Inr (w, l)"
| "record_house start_num temp_house (j # js) w l =
     rbind (aget (house w) j) (\<lambda>h.
       if h = temp_house
       then rbind (aget (g_house_distance_i_to_all w) start_num) (\<lambda>row.
            rbind (aset row j (distance l + 1)) (\<lambda>row'.
            rbind (aset (g_house_distance_i_to_all w) start_num row') (\<lambda>d.
              Inr (w\<lparr>g_house_distance_i_to_all := d\<rparr>, l\<lparr>count_end := count_end l + 1\<rparr>))))
       else record_house start_num temp_house js w l)"

text \<open>The loop over \<open>q\<close> that decides the early return.\<close>

fun prune_loop :: "nat \<Rightarrow> nat list \<Rightarrow> MyArg \<Rightarrow> bool res" where
  "prune_loop start_num [] w = Inr False"
| "prune_loop start_num (q # qs) w =
     rbind (aget (g_i_max w) q) (\<lambda>m.
       if m = 0 then prune_loop start_num qs w
       else rbind (aget (g_house_distance_i_to_all w) q) (\<lambda>row.
            rbind (aget row start_num) (\<lambda>d.
              if d \<noteq> 0 \<and> (d + m) mod 2 ^ 32 < g_total_max w then Inr True
              else prune_loop start_num qs w)))"

definition set_results :: "nat \<Rightarrow> nat \<Rightarrow> nat \<Rightarrow> MyArg \<Rightarrow> MyArg res" where
  "set_results start_num lo hi w =
     rbind (aset (house_distance_least w) start_num lo) (\<lambda>ls.
     rbind (aset (house_distance_most w) start_num hi) (\<lambda>ms.
       Inr (w\<lparr>house_distance_least := ls, house_distance_most := ms\<rparr>)))"

text \<open>The return once every house is found.\<close>

definition finish_search :: "nat \<Rightarrow> MyArg \<Rightarrow> slocal \<Rightarrow> MyArg res" where
  "finish_search start_num w l =
     rbind (set_results start_num (least l + 1) (most l + 1) w) (\<lambda>w1.
       let w2 = (if g_total_max w1 < most l + 1 then w1\<lparr>g_total_max := most l + 1\<rparr> else w1)
       in rbind (aset (g_i_max w2) start_num (most l + 1)) (\<lambda>ms. Inr (w2\<lparr>g_i_max := ms\<rparr>)))"

text \<open>
  A vertex next to a house that was not met yet. The flag of the result says that
  \<open>Search\<close> returned.
\<close>

definition new_house ::
  "nat \<Rightarrow> nat \<Rightarrow> MyArg \<Rightarrow> slocal \<Rightarrow> (MyArg \<times> slocal \<times> bool) res" where
  "new_house start_num temp_house w l =
     rbind (record_house start_num temp_house [start_num + 1..<house_num w] w l) (\<lambda>(w1, l1).
     rbind (if \<not> least_flag l1
            then let l2 = l1\<lparr>most := distance l1\<rparr>
                 in rbind (prune_loop start_num [0..<pred32 (house_num w1)] w1) (\<lambda>p. Inr (l2, p))
            else Inr (if distance l1 > 1
                      then l1\<lparr>least := distance l1, least_flag := False\<rparr> else l1, False))
       (\<lambda>(l3, pruned).
        if pruned
        then rbind (set_results start_num (least l3 + 1) (least l3 + 1) w1) (\<lambda>w2. Inr (w2, l3, True))
        else if count_end l3 = house_num w1
        then rbind (finish_search start_num w1 l3) (\<lambda>w2. Inr (w2, l3, True))
        else Inr (w1, l3, False)))"

definition house_step ::
  "nat \<Rightarrow> Vertex \<Rightarrow> MyArg \<Rightarrow> slocal \<Rightarrow> (MyArg \<times> slocal \<times> bool) res" where
  "house_step start_num v w l =
     (if is_house v
      then rbind (aget (visit_house l) (vhouse v)) (\<lambda>seen.
             if seen then Inr (w, l, False)
             else rbind (aset (visit_house l) (vhouse v) True) (\<lambda>vh.
               new_house start_num (vhouse v) w (l\<lparr>visit_house := vh\<rparr>)))
      else Inr (w, l, False))"

text \<open>The \<open>do ... while\<close> loop over the neighbours: it runs once even for none.\<close>

fun add_neighbours :: "Vertex \<Rightarrow> nat list \<Rightarrow> slocal \<Rightarrow> slocal res" where
  "add_neighbours v [] l = Inr l"
| "add_neighbours v (j # js) l =
     rbind (aget (adjacency v) j) (\<lambda>a.
     rbind (aget (visit_vertice l) a) (\<lambda>seen.
       if seen then add_neighbours v js l
       else rbind (aset (search_array l) (search_array_count l) (Some a)) (\<lambda>sa.
            rbind (aset (visit_vertice l) a True) (\<lambda>vv.
              add_neighbours v js (l\<lparr>search_array := sa, visit_vertice := vv,
                search_array_count := search_array_count l + 1,
                total_count := total_count l + 1\<rparr>)))))"

definition next_level :: "nat \<Rightarrow> slocal \<Rightarrow> slocal" where
  "next_level i l =
     (if i = cycle_count l
      then l\<lparr>cycle_count := cycle_count l + total_count l, total_count := 0,
             distance := distance l + 1\<rparr>
      else l)"

text \<open>
  The loop over \<open>i\<close>. The last argument is the rest of the indices of \<open>search_array\<close>;
  when it is used up, \<open>search_array[i]\<close> is out of bounds.
\<close>

fun search_loop :: "nat \<Rightarrow> nat list \<Rightarrow> MyArg \<Rightarrow> slocal \<Rightarrow> MyArg res" where
  "search_loop start_num [] w l = Inl OutOfBounds"
| "search_loop start_num (i # is) w l =
     rbind (aget (search_array l) i) (\<lambda>c. case c of None \<Rightarrow> Inl Uninit | Some current_vertex \<Rightarrow>
     rbind (aget (vertice w) current_vertex) (\<lambda>v.
     rbind (house_step start_num v w l) (\<lambda>(w1, l1, returned).
       if returned then Inr w1
       else rbind (add_neighbours v [0..<max 1 (vcount v)] l1) (\<lambda>l2.
              search_loop start_num is w1 (next_level i l2)))))"

text \<open>
  \<open>Search\<close> with the cleared \<open>visit_vertice\<close> of \<open>ThreadFunc\<close>; \<open>raw_visit_house\<close> is what
  \<open>malloc\<close> left in \<open>visit_house\<close>.
\<close>

definition Search :: "bool list \<Rightarrow> nat \<Rightarrow> MyArg \<Rightarrow> MyArg res" where
  "Search raw_visit_house start_num w =
     rbind (aget (house w) start_num) (\<lambda>s.
     rbind (aset (replicate (vertice_num w) None) 0 (Some s)) (\<lambda>sa.
     rbind (aset (replicate (vertice_num w + 1) False) s True) (\<lambda>vv.
       search_loop start_num [0..<vertice_num w] w
         \<lparr>distance = 0, search_array = sa, search_array_count = 1, total_count = 0,
          cycle_count = 0, visit_vertice = vv, visit_house = raw_visit_house,
          least_flag = True, least = 0, most = 0, count_end = 1 + start_num\<rparr>)))"

end
