(* ===== verification/Levels.thy ===== *)
theory Levels
  imports Main
begin

text \<open>
  The depth of a vertex in a breadth-first search, shared by the two solutions of Project1:
  the length of a shortest path from the start.
\<close>

section \<open>Depth in a graph\<close>

definition lev :: "(nat \<times> nat) set \<Rightarrow> nat \<Rightarrow> nat \<Rightarrow> nat \<Rightarrow> bool" where
  "lev E s v m \<longleftrightarrow> (s, v) \<in> E ^^ m \<and> (\<forall>k < m. (s, v) \<notin> E ^^ k)"

lemma lev_unique: "lev E s v m \<Longrightarrow> lev E s v n \<Longrightarrow> m = n"
  unfolding lev_def by (metis linorder_neqE_nat)

lemma lev_exists: "(s, v) \<in> E ^^ m \<Longrightarrow> \<exists>k \<le> m. lev E s v k"
proof (induction m rule: less_induct)
  case (less m)
  show ?case
  proof (cases "\<exists>k < m. (s, v) \<in> E ^^ k")
    case True
    then obtain k where "k < m" "(s, v) \<in> E ^^ k" by blast
    with less.IH [of k] show ?thesis by (meson le_trans less_imp_le)
  next
    case False
    with less.prems show ?thesis unfolding lev_def by blast
  qed
qed

lemma lev_edge: "lev E s u m \<Longrightarrow> (u, v) \<in> E \<Longrightarrow> \<exists>k \<le> Suc m. lev E s v k"
  using lev_exists [of s v "Suc m" E] unfolding lev_def by auto

lemma lev_pred: "lev E s v (Suc m) \<Longrightarrow> \<exists>u. lev E s u m \<and> (u, v) \<in> E"
proof -
  assume l: "lev E s v (Suc m)"
  then obtain u where u: "(s, u) \<in> E ^^ m" "(u, v) \<in> E" unfolding lev_def by auto
  from lev_exists [OF u(1)] obtain k where k: "k \<le> m" "lev E s u k" by blast
  have "k = m"
  proof (rule ccontr)
    assume "k \<noteq> m"
    with k have "Suc k < Suc m" "(s, v) \<in> E ^^ Suc k" using u(2) by (auto simp: lev_def)
    with l show False unfolding lev_def by blast
  qed
  with k u(2) show ?thesis by blast
qed

lemma lev_0 [simp]: "lev E s v 0 \<longleftrightarrow> v = s"
  by (auto simp: lev_def)

end
