(* ===== verification/HouseBfs.thy ===== *)
theory HouseBfs
  imports HouseSearch Levels
begin

text \<open>
  Correctness of \<open>Search\<close> of Project1: the level counting makes \<open>distance\<close> the depth of
  the current vertex in the breadth-first order, so on a graph in which no vertex is
  next to two houses the recorded distances are the lengths of shortest paths, and a
  search from which all later houses can be reached returns without a fault.
\<close>

section \<open>The breadth-first order\<close>

text \<open>
  \<open>A\<close> is the part of \<open>search_array\<close> in use, \<open>i\<close> the next index, \<open>d\<close> the depth, \<open>c\<close> the
  last index of the current level and \<open>t\<close> the number of vertices of the next level.
\<close>

definition bfs ::
  "(nat \<times> nat) set \<Rightarrow> nat \<Rightarrow> nat \<Rightarrow> nat \<Rightarrow> nat list \<Rightarrow> nat \<Rightarrow> nat \<Rightarrow> bool" where
  "bfs E s d i A c t \<longleftrightarrow> distinct A \<and> length A = c + 1 + t \<and> i \<le> c + 1 \<and> (i = c + 1 \<longrightarrow> t = 0)
     \<and> (\<forall>k \<le> c. \<exists>m \<le> d. lev E s (A ! k) m)
     \<and> (\<forall>k. i \<le> k \<longrightarrow> k \<le> c \<longrightarrow> lev E s (A ! k) d)
     \<and> (\<forall>k. c < k \<longrightarrow> k < length A \<longrightarrow> lev E s (A ! k) (Suc d))
     \<and> (\<forall>v m. m \<le> d \<longrightarrow> lev E s v m \<longrightarrow> v \<in> set (take (Suc c) A))
     \<and> (\<forall>k < i. E `` {A ! k} \<subseteq> set A)"

lemma bfs_start: "bfs E s 0 0 [s] 0 0"
  by (auto simp: bfs_def)

lemma bfsD:
  assumes "bfs E s d i A c t"
  shows "distinct A" "length A = c + 1 + t" "i \<le> c + 1" "i = c + 1 \<Longrightarrow> t = 0"
    "k \<le> c \<Longrightarrow> \<exists>m \<le> d. lev E s (A ! k) m" "i \<le> k \<Longrightarrow> k \<le> c \<Longrightarrow> lev E s (A ! k) d"
    "c < k \<Longrightarrow> k < length A \<Longrightarrow> lev E s (A ! k) (Suc d)"
    "m \<le> d \<Longrightarrow> lev E s v m \<Longrightarrow> v \<in> set (take (Suc c) A)"
    "k < i \<Longrightarrow> E `` {A ! k} \<subseteq> set A"
  using assms unfolding bfs_def by blast+

text \<open>A neighbour of the current vertex that was not met is one level deeper.\<close>

lemma bfs_new:
  assumes b: "bfs E s d i A c t" and i: "i \<le> c" and v: "(A ! i, v) \<in> E" "v \<notin> set A"
  shows "lev E s v (Suc d)"
proof -
  from lev_edge [OF bfsD(6) [OF b le_refl i] v(1)] obtain k where
    k: "k \<le> Suc d" "lev E s v k" by blast
  have "\<not> k \<le> d" using bfsD(8) [OF b _ k(2)] v(2) by (meson in_set_takeD)
  with k show ?thesis by (simp add: le_Suc_eq)
qed

lemma bfs_visit:
  assumes b: "bfs E s d i A c t" and i: "i \<le> c"
    and N: "set N = E `` {A ! i} - set A" "distinct N"
  shows "bfs E s d (Suc i) (A @ N) c (t + length N) \<or> i = c"
    and "i = c \<Longrightarrow> bfs E s (Suc d) (Suc i) (A @ N) (c + (t + length N)) 0"
proof -
  note D = bfsD [OF b]
  have old: "(A @ N) ! k = A ! k" if "k < length A" for k using that by (simp add: nth_append)
  have len: "c < length A" using D(2) by simp
  have new: "lev E s ((A @ N) ! k) (Suc d)" if "c < k" "k < length (A @ N)" for k
  proof (cases "k < length A")
    case True
    then show ?thesis using D(7) that by (simp add: old)
  next
    case False
    then have "(A @ N) ! k \<in> set N" using that by (simp add: nth_append)
    then show ?thesis using bfs_new [OF b i] N(1) by auto
  qed
  have dist: "distinct (A @ N)" using D(1) N by auto
  have edges: "E `` {(A @ N) ! k} \<subseteq> set (A @ N)" if "k < Suc i" for k
  proof (cases "k = i")
    case True
    then show ?thesis using N(1) i len by (auto simp: old)
  next
    case False
    then have "k < i" using that by simp
    with D(9) [OF this] i len show ?thesis by (auto simp: old)
  qed
  have low: "\<exists>m \<le> d. lev E s ((A @ N) ! k) m" if "k \<le> c" for k
    using D(5) [OF that] that len by (simp add: old)
  show "bfs E s d (Suc i) (A @ N) c (t + length N) \<or> i = c"
  proof (rule disjCI)
    assume ne: "i \<noteq> c"
    have "lev E s ((A @ N) ! k) d" if "Suc i \<le> k" "k \<le> c" for k
      using D(6) [of k] that len by (simp add: old)
    moreover have "v \<in> set (take (Suc c) (A @ N))" if "m \<le> d" "lev E s v m" for v m
      using D(8) [OF that] len by simp
    ultimately show "bfs E s d (Suc i) (A @ N) c (t + length N)"
      unfolding bfs_def using dist D(2) i ne low new edges by auto
  qed
  assume c: "i = c"
  have all: "v \<in> set (A @ N)" if m: "m \<le> Suc d" "lev E s v m" for v m
  proof (cases "m = Suc d")
    case True
    from lev_pred m(2) True obtain u where u: "lev E s u d" "(u, v) \<in> E" by blast
    from D(8) [OF le_refl u(1)] obtain k where "k < Suc c" "A ! k = u"
      using len by (auto simp: in_set_conv_nth)
    with edges [of k] c len u(2) show ?thesis by (auto simp: old)
  next
    case False
    then show ?thesis using m D(8) by (metis in_set_takeD le_SucE set_append UnI1)
  qed
  have "\<exists>m \<le> Suc d. lev E s ((A @ N) ! k) m" if "k < length (A @ N)" for k
    using low [of k] new [of k] that by (metis le_SucI le_refl not_le)
  with all show "bfs E s (Suc d) (Suc i) (A @ N) (c + (t + length N)) 0"
    unfolding bfs_def using dist D(2) c new edges by auto
qed

section \<open>The graph of the program\<close>

definition nbrs :: "MyArg \<Rightarrow> nat \<Rightarrow> nat set" where
  "nbrs w u = set (take (vcount (vertice w ! u)) (adjacency (vertice w ! u)))"

definition edges :: "MyArg \<Rightarrow> (nat \<times> nat) set" where
  "edges w = {(u, v). 1 \<le> u \<and> u \<le> vertice_num w \<and> v \<in> nbrs w u}"

text \<open>Every vertex has an edge, edges stay in the graph, houses are distinct vertices and
  each vertex stores a neighbouring house if it has one.\<close>

definition graph_ok :: "MyArg \<Rightarrow> bool" where
  "graph_ok w \<longleftrightarrow> vertice w \<noteq> [] \<and> distinct (house w) \<and> set (house w) \<subseteq> {1..vertice_num w}
     \<and> (\<forall>u \<in> {1..vertice_num w}. let v = vertice w ! u
          in 1 \<le> vcount v \<and> vcount v \<le> length (adjacency v) \<and> nbrs w u \<subseteq> {1..vertice_num w}
             \<and> (is_house v \<longrightarrow> vhouse v \<in> nbrs w u \<and> vhouse v \<in> set (house w)))"

text \<open>No vertex is next to two houses, and the stored house is that one.\<close>

definition single_house :: "MyArg \<Rightarrow> bool" where
  "single_house w \<longleftrightarrow> (\<forall>u \<in> {1..vertice_num w}. \<forall>h \<in> nbrs w u \<inter> set (house w).
     is_house (vertice w ! u) \<and> vhouse (vertice w ! u) = h)"

definition tables_ok :: "MyArg \<Rightarrow> bool" where
  "tables_ok w \<longleftrightarrow> house_num w < 2 ^ 32 \<and> length (house_distance_least w) = house_num w
     \<and> length (house_distance_most w) = house_num w \<and> length (g_i_max w) = house_num w
     \<and> length (g_house_distance_i_to_all w) = house_num w
     \<and> (\<forall>row \<in> set (g_house_distance_i_to_all w). length row = house_num w)"

lemma graph_okD:
  assumes "graph_ok w" "u \<in> {1..vertice_num w}"
  shows "u < length (vertice w)" "1 \<le> vcount (vertice w ! u)"
    "vcount (vertice w ! u) \<le> length (adjacency (vertice w ! u))"
    "nbrs w u \<subseteq> {1..vertice_num w}" "edges w `` {u} = nbrs w u"
    "is_house (vertice w ! u) \<Longrightarrow> vhouse (vertice w ! u) \<in> nbrs w u \<inter> set (house w)"
  using assms by (auto simp: graph_ok_def Let_def edges_def)

section \<open>The search array\<close>

text \<open>\<open>A\<close> is what the array holds and what is marked as visited.\<close>

definition holds :: "nat \<Rightarrow> slocal \<Rightarrow> nat list \<Rightarrow> bool" where
  "holds n l A \<longleftrightarrow> search_array l = map Some A @ replicate (n - length A) None
     \<and> search_array_count l = length A \<and> length A \<le> n \<and> distinct A \<and> set A \<subseteq> {1..n}
     \<and> length (visit_vertice l) = n + 1 \<and> (\<forall>v \<le> n. visit_vertice l ! v \<longleftrightarrow> v \<in> set A)"

lemma holds_push:
  assumes h: "holds n l A" and v: "v \<in> {1..n}" "v \<notin> set A"
  shows "length A < n" "holds n (l\<lparr>search_array := (search_array l)[length A := Some v],
    visit_vertice := (visit_vertice l)[v := True], search_array_count := Suc (length A),
    total_count := t\<rparr>) (A @ [v])"
proof -
  have "card (set A) < card {1..n}"
    using h v by (intro psubset_card_mono) (auto simp: holds_def)
  then show len: "length A < n" using h by (simp add: holds_def distinct_card)
  have "n - length A = Suc (n - Suc (length A))" using len by simp
  then have r: "replicate (n - length A) None = None # replicate (n - Suc (length A)) None"
    by (simp del: replicate_Suc add: replicate_Suc [symmetric])
  have "(map Some A @ replicate (n - length A) None)[length A := Some v]
      = map Some (A @ [v]) @ replicate (n - length (A @ [v])) None"
    unfolding r by (simp add: list_update_append)
  with h v len show "holds n (l\<lparr>search_array := (search_array l)[length A := Some v],
    visit_vertice := (visit_vertice l)[v := True], search_array_count := Suc (length A),
    total_count := t\<rparr>) (A @ [v])"
    by (auto simp: holds_def nth_list_update)
qed

lemma add_neighbours_spec:
  assumes "holds n l A" "\<forall>j \<in> set js. j < length (adjacency v) \<and> adjacency v ! j \<in> {1..n}"
  shows "\<exists>l' N. add_neighbours v js l = Inr l' \<and> holds n l' (A @ N)
    \<and> set N = (\<lambda>j. adjacency v ! j) ` set js - set A
    \<and> l' = l\<lparr>search_array := search_array l', visit_vertice := visit_vertice l',
        search_array_count := search_array_count l', total_count := total_count l + length N\<rparr>"
  using assms
proof (induction js arbitrary: l A)
  case Nil
  then show ?case by (intro exI [of _ l] exI [of _ "[]"]) simp
next
  case (Cons j js)
  let ?a = "adjacency v ! j"
  have j: "j < length (adjacency v)" "?a \<in> {1..n}" using Cons.prems(2) by auto
  have vv: "?a < length (visit_vertice l)" "visit_vertice l ! ?a \<longleftrightarrow> ?a \<in> set A"
    using Cons.prems(1) j(2) by (auto simp: holds_def)
  show ?case
  proof (cases "?a \<in> set A")
    case True
    from Cons.IH [OF Cons.prems(1)] Cons.prems(2) obtain l' N where
      "add_neighbours v js l = Inr l'" "holds n l' (A @ N)"
      "set N = (\<lambda>j. adjacency v ! j) ` set js - set A"
      "l' = l\<lparr>search_array := search_array l', visit_vertice := visit_vertice l',
        search_array_count := search_array_count l', total_count := total_count l + length N\<rparr>"
      by auto
    with True j vv show ?thesis by (intro exI [of _ l'] exI [of _ N]) (simp add: insert_Diff_if)
  next
    case False
    let ?l = "l\<lparr>search_array := (search_array l)[length A := Some ?a],
      visit_vertice := (visit_vertice l)[?a := True], search_array_count := Suc (length A),
      total_count := Suc (total_count l)\<rparr>"
    note h = holds_push [OF Cons.prems(1) j(2) False]
    have sc: "search_array_count l = length A" "length (search_array l) = n"
      using Cons.prems(1) by (auto simp: holds_def)
    from Cons.IH [OF h(2) [of "Suc (total_count l)"]] Cons.prems(2) obtain l' N where
      "add_neighbours v js ?l = Inr l'" "holds n l' (A @ ?a # N)"
      "set N = (\<lambda>j. adjacency v ! j) ` set js - set (A @ [?a])"
      "l' = ?l\<lparr>search_array := search_array l', visit_vertice := visit_vertice l',
        search_array_count := search_array_count l', total_count := Suc (total_count l) + length N\<rparr>"
      by auto
    with False j vv sc h(1) show ?thesis by (intro exI [of _ l'] exI [of _ "?a # N"]) auto
  qed
qed

section \<open>Recording the houses\<close>

definition same_graph :: "MyArg \<Rightarrow> MyArg \<Rightarrow> bool" where
  "same_graph w w' \<longleftrightarrow> vertice w' = vertice w \<and> house w' = house w \<and> tables_ok w'"

lemma same_graph_trans: "same_graph w w1 \<Longrightarrow> same_graph w1 w2 \<Longrightarrow> same_graph w w2"
  by (simp add: same_graph_def)

lemma pred32_small: "0 < n \<Longrightarrow> n < 2 ^ 32 \<Longrightarrow> pred32 n = n - 1"
  by (cases n) (simp_all add: pred32_def)

lemma record_house_miss:
  assumes "\<forall>j \<in> set js. j < house_num w \<and> house w ! j \<noteq> h"
  shows "record_house start h js w l = Inr (w, l)"
  using assms by (induction js) auto

lemma record_house_hit:
  assumes "tables_ok w" "start < house_num w" "distinct (house w)"
    and "\<forall>j \<in> set js. j < house_num w" "k \<in> set js" "house w ! k = h"
  shows "record_house start h js w l =
    Inr (w\<lparr>g_house_distance_i_to_all := (g_house_distance_i_to_all w)
           [start := (g_house_distance_i_to_all w ! start)[k := Suc (distance l)]]\<rparr>,
         l\<lparr>count_end := Suc (count_end l)\<rparr>)"
  using assms(4-5)
proof (induction js)
  case (Cons j js)
  have row: "length (g_house_distance_i_to_all w ! start) = house_num w"
    "start < length (g_house_distance_i_to_all w)"
    using assms(1,2) by (auto simp: tables_ok_def)
  show ?case
  proof (cases "j = k")
    case True
    with Cons.prems assms(6) row show ?thesis by simp
  next
    case False
    then have "house w ! j \<noteq> h"
      using Cons.prems assms(3,6) by (metis list.set_intros nth_eq_iff_index_eq set_ConsD)
    with False Cons show ?thesis by simp
  qed
qed simp

lemma prune_loop_total:
  assumes "tables_ok w" "start < house_num w" "\<forall>q \<in> set qs. q < house_num w"
  shows "\<exists>b. prune_loop start qs w = Inr b"
  using assms(3)
proof (induction qs)
  case (Cons q qs)
  then have "q < length (g_i_max w)" "q < length (g_house_distance_i_to_all w)"
    "start < length (g_house_distance_i_to_all w ! q)"
    using assms(1,2) by (auto simp: tables_ok_def)
  with Cons show ?case by auto
qed auto

text \<open>What the later steps of \<open>Search\<close> keep of the local state.\<close>

definition keeps :: "slocal \<Rightarrow> slocal \<Rightarrow> bool" where
  "keeps l l' \<longleftrightarrow> distance l' = distance l \<and> search_array l' = search_array l
     \<and> search_array_count l' = search_array_count l \<and> total_count l' = total_count l
     \<and> cycle_count l' = cycle_count l \<and> visit_vertice l' = visit_vertice l
     \<and> visit_house l' = visit_house l \<and> count_end l' = count_end l
     \<and> ((least_flag l \<longrightarrow> most l = 0) \<longrightarrow> (least_flag l' \<longrightarrow> most l' = 0))"

lemma finish_search_spec:
  assumes "tables_ok w" "start < house_num w"
  shows "\<exists>w'. finish_search start w l = Inr w' \<and> same_graph w w'
    \<and> g_house_distance_i_to_all w' = g_house_distance_i_to_all w
    \<and> house_distance_most w' ! start = Suc (most l) \<and> g_i_max w' ! start = Suc (most l)"
  using assms by (auto simp: finish_search_def set_results_def same_graph_def tables_ok_def Let_def)

lemma set_results_spec:
  assumes "tables_ok w" "start < house_num w"
  shows "\<exists>w'. set_results start lo hi w = Inr w' \<and> same_graph w w' \<and> g_i_max w' = g_i_max w
    \<and> g_house_distance_i_to_all w' = g_house_distance_i_to_all w"
  using assms by (auto simp: set_results_def same_graph_def tables_ok_def)

text \<open>After the house is recorded: go on, return early, or return with the results.\<close>

definition house_outcome :: "nat \<Rightarrow> MyArg \<Rightarrow> slocal \<Rightarrow> MyArg \<Rightarrow> slocal \<Rightarrow> bool \<Rightarrow> bool" where
  "house_outcome start w l w' l' b \<longleftrightarrow> same_graph w w' \<and> keeps l l'
     \<and> g_house_distance_i_to_all w' = g_house_distance_i_to_all w
     \<and> (\<not> b \<longrightarrow> count_end l \<noteq> house_num w \<and> g_i_max w' = g_i_max w)
     \<and> (b \<longrightarrow> g_i_max w' = g_i_max w \<or>
          count_end l = house_num w \<and> house_distance_most w' ! start = Suc (most l')
          \<and> (most l' = distance l \<or> most l' = 0))"

lemma new_house_spec:
  assumes r: "record_house start h [start + 1..<house_num w] w l = Inr (w1, l1)"
    and w1: "same_graph w w1" and start: "start < house_num w"
    and m: "least_flag l1 \<longrightarrow> most l1 = 0"
  shows "\<exists>w' l' b. new_house start h w l = Inr (w', l', b) \<and> house_outcome start w1 l1 w' l' b"
proof -
  have t1: "tables_ok w1" "start < house_num w1" "house_num w1 = house_num w"
    using w1 start by (simp_all add: same_graph_def)
  then have p: "pred32 (house_num w1) = house_num w1 - 1"
    by (intro pred32_small) (auto simp: tables_ok_def)
  then have "\<forall>q \<in> set [0..<pred32 (house_num w1)]. q < house_num w1" by auto
  from prune_loop_total [OF t1(1,2) this] obtain b where
    b: "prune_loop start [0..<pred32 (house_num w1)] w1 = Inr b" by blast
  define l3 where "l3 = (if \<not> least_flag l1 then l1\<lparr>most := distance l1\<rparr>
    else if distance l1 > 1 then l1\<lparr>least := distance l1, least_flag := False\<rparr> else l1)"
  define pr where "pr = (\<not> least_flag l1 \<and> b)"
  have k: "keeps l1 l3" "most l3 = distance l1 \<or> most l3 = 0" "count_end l3 = count_end l1"
    using m by (auto simp: l3_def keeps_def)
  have nh: "new_house start h w l =
    (if pr then rbind (set_results start (least l3 + 1) (least l3 + 1) w1) (\<lambda>w2. Inr (w2, l3, True))
     else if count_end l3 = house_num w1
     then rbind (finish_search start w1 l3) (\<lambda>w2. Inr (w2, l3, True))
     else Inr (w1, l3, False))"
    unfolding new_house_def r rbind_Inr prod.case by (simp add: b l3_def pr_def Let_def)
  from set_results_spec [OF t1(1,2)] finish_search_spec [OF t1(1,2), of l3] obtain w2 w3 where
    s: "set_results start (least l3 + 1) (least l3 + 1) w1 = Inr w2" "same_graph w1 w2"
      "g_i_max w2 = g_i_max w1" "g_house_distance_i_to_all w2 = g_house_distance_i_to_all w1"
    and f: "finish_search start w1 l3 = Inr w3" "same_graph w1 w3"
      "g_house_distance_i_to_all w3 = g_house_distance_i_to_all w1"
      "house_distance_most w3 ! start = Suc (most l3)" by blast
  have "same_graph w1 w1" using t1(1) by (simp add: same_graph_def)
  with nh s f k t1(3) show ?thesis unfolding house_outcome_def by auto
qed

section \<open>The invariant of the search\<close>

definition found :: "MyArg \<Rightarrow> nat \<Rightarrow> nat \<Rightarrow> nat \<Rightarrow> nat list \<Rightarrow> slocal \<Rightarrow> bool" where
  "found w start d i A l \<longleftrightarrow> length (visit_house l) = vertice_num w + 1
     \<and> (\<forall>h \<le> vertice_num w. visit_house l ! h \<longleftrightarrow>
          (\<exists>k < i. is_house (vertice w ! (A ! k)) \<and> vhouse (vertice w ! (A ! k)) = h))
     \<and> count_end l = 1 + start
          + card {j. start < j \<and> j < house_num w \<and> visit_house l ! (house w ! j)}
     \<and> (\<forall>j. start < j \<longrightarrow> j < house_num w \<longrightarrow> visit_house l ! (house w ! j) \<longrightarrow>
          lev (edges w) (house w ! start) (house w ! j) (g_house_distance_i_to_all w ! start ! j)
          \<and> g_house_distance_i_to_all w ! start ! j \<le> Suc d)
     \<and> (least_flag l \<longrightarrow> most l = 0)"

text \<open>A house met for the first time is one step further than the current vertex.\<close>

lemma first_meeting:
  assumes g: "graph_ok w" "single_house w" and b: "bfs (edges w) s d i A c t" and i: "i \<le> c"
    and A: "set A \<subseteq> {1..vertice_num w}"
    and u: "is_house (vertice w ! (A ! i))" "vhouse (vertice w ! (A ! i)) = h" "h \<noteq> s"
    and new: "\<not> (\<exists>k < i. is_house (vertice w ! (A ! k)) \<and> vhouse (vertice w ! (A ! k)) = h)"
  shows "lev (edges w) s h (Suc d)"
proof -
  have len: "c < length A" using bfsD(2) [OF b] by simp
  then have ui: "A ! i \<in> {1..vertice_num w}" using A i by (metis le_less_trans nth_mem subsetD)
  have e: "(A ! i, h) \<in> edges w" "h \<in> set (house w)"
    using graph_okD(5,6) [OF g(1) ui] u(1,2) by auto
  from lev_edge [OF bfsD(6) [OF b le_refl i] e(1)] obtain k where
    k: "k \<le> Suc d" "lev (edges w) s h k" by blast
  have "k = Suc d"
  proof (rule ccontr)
    assume "k \<noteq> Suc d"
    with k u(3) obtain m where m: "k = Suc m" "m < d" by (cases k) auto
    from lev_pred k(2) m(1) obtain q where q: "lev (edges w) s q m" "(q, h) \<in> edges w" by blast
    from bfsD(8) [OF b _ q(1)] m(2) obtain kk where kk: "kk \<le> c" "A ! kk = q"
      using len by (auto simp: in_set_conv_nth less_Suc_eq_le)
    have "kk < i"
    proof (rule ccontr)
      assume "\<not> kk < i"
      with bfsD(6) [OF b _ kk(1)] kk(2) q(1) lev_unique m(2) show False by (metis less_irrefl not_le)
    qed
    moreover have "is_house (vertice w ! q) \<and> vhouse (vertice w ! q) = h"
      using g(2) q(2) e(2) unfolding single_house_def edges_def by auto
    ultimately show False using new kk(2) by blast
  qed
  with k show ?thesis by simp
qed

text \<open>
  The house step: it keeps \<open>found\<close> and goes on with a house still missing, or it returns
  early, or it returns with every later house recorded.
\<close>

definition complete :: "MyArg \<Rightarrow> nat \<Rightarrow> bool" where
  "complete w start \<longleftrightarrow>
     (\<forall>j. start < j \<longrightarrow> j < house_num w \<longrightarrow>
        lev (edges w) (house w ! start) (house w ! j) (g_house_distance_i_to_all w ! start ! j))
     \<and> (house_distance_most w ! start = 1
        \<or> (\<exists>j. start < j \<and> j < house_num w
             \<and> house_distance_most w ! start = g_house_distance_i_to_all w ! start ! j)
          \<and> (\<forall>j. start < j \<longrightarrow> j < house_num w \<longrightarrow>
               g_house_distance_i_to_all w ! start ! j \<le> house_distance_most w ! start))"

lemma found_all:
  assumes "count_end l = house_num w" "start < house_num w"
    "count_end l = 1 + start + card {j. start < j \<and> j < house_num w \<and> visit_house l ! (house w ! j)}"
  shows "\<forall>j. start < j \<longrightarrow> j < house_num w \<longrightarrow> visit_house l ! (house w ! j)"
proof -
  let ?F = "{j. start < j \<and> j < house_num w \<and> visit_house l ! (house w ! j)}"
  have "card ?F = card {start<..<house_num w}" using assms by simp
  then have F: "?F = {start<..<house_num w}" by (intro card_subset_eq) auto
  have "j \<in> ?F" if "start < j" "j < house_num w" for j unfolding F using that by simp
  then show ?thesis by simp
qed

lemma found_mono:
  assumes "found w start d i A l" "d \<le> d'"
  shows "found w start d' i A l"
proof -
  have "x \<le> Suc d \<Longrightarrow> x \<le> Suc d'" for x using assms(2) by simp
  with assms(1) show ?thesis unfolding found_def by simp
qed

text \<open>The record after house \<open>h\<close> is marked and, if it is a later one, entered.\<close>

lemma found_new:
  assumes g: "graph_ok w" "single_house w" "tables_ok w" and start: "start < house_num w"
    and b: "bfs (edges w) (house w ! start) d i A c t" and i: "i \<le> c"
    and A: "set A \<subseteq> {1..vertice_num w}" and f: "found w start d i A l" and d: "distance l = d"
    and u: "is_house (vertice w ! (A ! i))" "vhouse (vertice w ! (A ! i)) = h"
    and new: "\<not> visit_house l ! h"
  shows "\<exists>w1 l1. record_house start h [start + 1..<house_num w] w
      (l\<lparr>visit_house := (visit_house l)[h := True]\<rparr>) = Inr (w1, l1)
    \<and> same_graph w w1 \<and> found w1 start d (Suc i) A l1 \<and> g_i_max w1 = g_i_max w
    \<and> l1 = l\<lparr>visit_house := (visit_house l)[h := True], count_end := count_end l1\<rparr>
    \<and> (count_end l1 \<noteq> count_end l \<longrightarrow> (\<exists>j. start < j \<and> j < house_num w
         \<and> g_house_distance_i_to_all w1 ! start ! j = Suc d))"
proof -
  let ?l = "l\<lparr>visit_house := (visit_house l)[h := True]\<rparr>"
  have len: "c < length A" using bfsD(2) [OF b] by simp
  then have ui: "A ! i \<in> {1..vertice_num w}" using A i by (metis le_less_trans nth_mem subsetD)
  have hh: "h \<in> nbrs w (A ! i)" "h \<in> set (house w)" using graph_okD(6) [OF g(1) ui u(1)] u(2) by auto
  then have hn: "h \<le> vertice_num w" using g(1) by (auto simp: graph_ok_def)
  have vl: "length (visit_house l) = vertice_num w + 1" using f by (simp add: found_def)
  then have "h < length (visit_house l)" using hn by simp
  then have at: "(visit_house l)[h := True] ! x \<longleftrightarrow> x = h \<or> visit_house l ! x" for x
    by (simp add: nth_list_update)
  have nk: "\<not> (\<exists>k < i. is_house (vertice w ! (A ! k)) \<and> vhouse (vertice w ! (A ! k)) = h)"
    using f new hn by (simp add: found_def)
  have vis: "\<forall>x \<le> vertice_num w. (visit_house l)[h := True] ! x \<longleftrightarrow>
      (\<exists>k < Suc i. is_house (vertice w ! (A ! k)) \<and> vhouse (vertice w ! (A ! k)) = x)"
  proof (intro allI impI)
    fix x assume x: "x \<le> vertice_num w"
    have "visit_house l ! x \<longleftrightarrow>
        (\<exists>k < i. is_house (vertice w ! (A ! k)) \<and> vhouse (vertice w ! (A ! k)) = x)"
      using f x by (simp add: found_def)
    with u show "(visit_house l)[h := True] ! x \<longleftrightarrow>
        (\<exists>k < Suc i. is_house (vertice w ! (A ! k)) \<and> vhouse (vertice w ! (A ! k)) = x)"
      unfolding at by (auto simp: less_Suc_eq)
  qed
  note upd = at [of "house w ! j" for j]
  show ?thesis
  proof (cases "\<exists>j. start < j \<and> j < house_num w \<and> house w ! j = h")
    case False
    then have r: "record_house start h [start + 1..<house_num w] w ?l = Inr (w, ?l)"
      by (intro record_house_miss) auto
    have "{j. start < j \<and> j < house_num w \<and> (visit_house l)[h := True] ! (house w ! j)}
        = {j. start < j \<and> j < house_num w \<and> visit_house l ! (house w ! j)}"
      using False upd by blast
    then have "found w start d (Suc i) A ?l" using f vis upd False by (auto simp: found_def)
    with r g(3) show ?thesis by (intro exI [of _ w] exI [of _ ?l]) (simp add: same_graph_def)
  next
    case True
    then obtain k where k: "start < k" "k < house_num w" "house w ! k = h" by blast
    let ?D = "g_house_distance_i_to_all w"
    let ?D' = "?D[start := (?D ! start)[k := Suc d]]"
    let ?w = "w\<lparr>g_house_distance_i_to_all := ?D'\<rparr>"
    let ?l1 = "?l\<lparr>count_end := Suc (count_end l)\<rparr>"
    have dh: "distinct (house w)" using g(1) by (simp add: graph_ok_def)
    have r: "record_house start h [start + 1..<house_num w] w ?l = Inr (?w, ?l1)"
      using record_house_hit [OF g(3) start dh _ _ k(3), of "[start + 1..<house_num w]" ?l] k d by simp
    have "h \<noteq> house w ! start" using k start dh by (metis nth_eq_iff_index_eq less_irrefl)
    from first_meeting [OF g(1,2) b i A u this nk] have lv: "lev (edges w) (house w ! start) h (Suc d)" .
    have same: "edges ?w = edges w" by (simp add: edges_def nbrs_def)
    have len: "start < length ?D" "k < length (?D ! start)" "length (?D ! start) = house_num w"
      using g(3) start k by (auto simp: tables_ok_def)
    have D: "?D' ! start ! j = (if j = k then Suc d else ?D ! start ! j)" if "j < house_num w" for j
      using len by (simp add: nth_list_update)
    let ?F = "{j. start < j \<and> j < house_num w \<and> visit_house l ! (house w ! j)}"
    have kj: "house w ! j = h \<longleftrightarrow> j = k" if "j < house_num w" for j
      using that k dh by (metis nth_eq_iff_index_eq)
    have "{j. start < j \<and> j < house_num w \<and> (visit_house l)[h := True] ! (house w ! j)} = insert k ?F"
      using upd k kj by auto
    moreover have "k \<notin> ?F" using new k by simp
    moreover have "finite ?F" by (rule finite_subset [of _ "{..<house_num w}"]) auto
    ultimately have cnt: "card {j. start < j \<and> j < house_num w \<and> (visit_house l)[h := True] ! (house w ! j)}
        = Suc (card ?F)" by simp
    have rec: "lev (edges w) (house w ! start) (house w ! j) (?D' ! start ! j) \<and> ?D' ! start ! j \<le> Suc d"
      if j: "start < j" "j < house_num w" "(visit_house l)[h := True] ! (house w ! j)" for j
    proof (cases "j = k")
      case True
      then show ?thesis using lv k D [OF j(2)] by simp
    next
      case False
      then have "visit_house l ! (house w ! j)" using j upd kj by blast
      with f j False show ?thesis by (simp add: found_def D [OF j(2)])
    qed
    have "found ?w start d (Suc i) A ?l1"
      using f vis vl cnt rec unfolding found_def same by simp
    moreover have "same_graph w ?w"
      using g(3) start len(3)
      by (auto simp: same_graph_def tables_ok_def dest!: set_update_subset_insert [THEN subsetD])
    ultimately show ?thesis using r k D [OF k(2)] by (intro exI [of _ ?w] exI [of _ ?l1]) auto
  qed
qed

text \<open>What the search has between two iterations.\<close>

definition search_inv :: "MyArg \<Rightarrow> nat \<Rightarrow> nat \<Rightarrow> nat list \<Rightarrow> slocal \<Rightarrow> bool" where
  "search_inv w start i A l \<longleftrightarrow> graph_ok w \<and> single_house w \<and> tables_ok w \<and> start < house_num w
     \<and> bfs (edges w) (house w ! start) (distance l) i A (cycle_count l) (total_count l)
     \<and> holds (vertice_num w) l A \<and> found w start (distance l) i A l"

lemma edges_cong: "vertice w' = vertice w \<Longrightarrow> edges w' = edges w"
  by (simp add: edges_def nbrs_def)

lemma graph_cong:
  assumes "same_graph w w'"
  shows "graph_ok w' = graph_ok w" "single_house w' = single_house w"
proof -
  have e: "vertice w' = vertice w" "house w' = house w" using assms by (simp_all add: same_graph_def)
  show "graph_ok w' = graph_ok w" "single_house w' = single_house w"
    unfolding graph_ok_def single_house_def nbrs_def e by (rule refl)+
qed

lemma found_cong:
  assumes "same_graph w w'" "g_house_distance_i_to_all w' = g_house_distance_i_to_all w" "keeps l l'"
    and "found w start d i A l"
  shows "found w' start d i A l'"
proof -
  have v: "vertice w' = vertice w" "house w' = house w" using assms(1) by (simp_all add: same_graph_def)
  have k: "visit_house l' = visit_house l" "count_end l' = count_end l"
    "(least_flag l \<longrightarrow> most l = 0) \<Longrightarrow> (least_flag l' \<longrightarrow> most l' = 0)"
    using assms(3) by (simp_all add: keeps_def)
  show ?thesis
    using assms(4) k(3) unfolding found_def edges_cong [OF v(1)] v k(1,2) assms(2) by simp
qed

lemma complete_of_found:
  assumes f: "found w start d i A l" and start: "start < house_num w"
    and all: "count_end l = house_num w"
    and s: "same_graph w w'" "g_house_distance_i_to_all w' = g_house_distance_i_to_all w"
    and m: "house_distance_most w' ! start = Suc d \<or> house_distance_most w' ! start = 1"
    and j: "\<exists>j. start < j \<and> j < house_num w \<and> g_house_distance_i_to_all w ! start ! j = Suc d"
  shows "complete w' start"
proof -
  note D = f [unfolded found_def, THEN conjunct2, THEN conjunct2]
  from found_all [OF all start conjunct1 [OF D]] have "lev (edges w) (house w ! start) (house w ! j) (g_house_distance_i_to_all w ! start ! j)
      \<and> g_house_distance_i_to_all w ! start ! j \<le> Suc d" if "start < j" "j < house_num w" for j
    using f that by (simp add: found_def)
  moreover have "edges w' = edges w" using s(1) by (intro edges_cong) (simp add: same_graph_def)
  moreover have "house w' = house w" using s(1) by (simp add: same_graph_def)
  ultimately show ?thesis unfolding complete_def s(2) using m j by force
qed

lemma house_step_spec:
  assumes I: "search_inv w start i A l" and i: "i \<le> cycle_count l" and ce: "count_end l \<noteq> house_num w"
  shows "\<exists>w' l' b. house_step start (vertice w ! (A ! i)) w l = Inr (w', l', b) \<and> same_graph w w'
    \<and> (b \<longrightarrow> g_i_max w' = g_i_max w \<or> complete w' start)
    \<and> (\<not> b \<longrightarrow> g_i_max w' = g_i_max w \<and> count_end l' \<noteq> house_num w
         \<and> found w' start (distance l) (Suc i) A l' \<and> holds (vertice_num w) l' A
         \<and> distance l' = distance l \<and> cycle_count l' = cycle_count l \<and> total_count l' = total_count l)"
proof -
  let ?v = "vertice w ! (A ! i)" and ?d = "distance l"
  from I have g: "graph_ok w" "single_house w" "tables_ok w" and start: "start < house_num w"
    and b: "bfs (edges w) (house w ! start) ?d i A (cycle_count l) (total_count l)"
    and h: "holds (vertice_num w) l A" and f: "found w start ?d i A l"
    by (simp_all add: search_inv_def)
  have A: "set A \<subseteq> {1..vertice_num w}" using h by (simp add: holds_def)
  have "A ! i \<in> set A" using bfsD(2) [OF b] i by (simp add: nth_mem)
  with A have ui: "A ! i \<in> {1..vertice_num w}" by blast
  have same: "same_graph w w" using g(3) by (simp add: same_graph_def)
  have skip: "found w start ?d (Suc i) A l"
    if "is_house ?v \<longrightarrow> (\<exists>k < i. is_house (vertice w ! (A ! k)) \<and> vhouse (vertice w ! (A ! k)) = vhouse ?v)"
  proof -
    have "(\<exists>k < Suc i. is_house (vertice w ! (A ! k)) \<and> vhouse (vertice w ! (A ! k)) = x) \<longleftrightarrow>
      (\<exists>k < i. is_house (vertice w ! (A ! k)) \<and> vhouse (vertice w ! (A ! k)) = x)" for x
      using that by (auto simp: less_Suc_eq)
    with f show ?thesis unfolding found_def by simp
  qed
  show ?thesis
  proof (cases "is_house ?v")
    case False
    then show ?thesis using skip same ce h
      by (intro exI [of _ w] exI [of _ l] exI [of _ False]) (simp add: house_step_def)
  next
    case True
    let ?h = "vhouse ?v"
    have hn: "?h \<le> vertice_num w" using graph_okD(6) [OF g(1) ui True] g(1) by (auto simp: graph_ok_def)
    have vl: "?h < length (visit_house l)" using f hn by (simp add: found_def)
    show ?thesis
    proof (cases "visit_house l ! ?h")
      case seen: True
      then have "\<exists>k < i. is_house (vertice w ! (A ! k)) \<and> vhouse (vertice w ! (A ! k)) = ?h"
        using f hn by (simp add: found_def)
      then show ?thesis using skip same ce h True seen vl
        by (intro exI [of _ w] exI [of _ l] exI [of _ False]) (simp add: house_step_def)
    next
      case new: False
      let ?l = "l\<lparr>visit_house := (visit_house l)[?h := True]\<rparr>"
      from found_new [OF g start b i A f refl True refl new] obtain w1 l1 where
        r: "record_house start ?h [start + 1..<house_num w] w ?l = Inr (w1, l1)" and
        w1: "same_graph w w1" "g_i_max w1 = g_i_max w" and f1: "found w1 start ?d (Suc i) A l1" and
        l1: "l1 = l\<lparr>visit_house := (visit_house l)[?h := True], count_end := count_end l1\<rparr>" and
        j1: "count_end l1 \<noteq> count_end l \<longrightarrow> (\<exists>j. start < j \<and> j < house_num w
          \<and> g_house_distance_i_to_all w1 ! start ! j = Suc ?d)" by blast
      have "least_flag l1 \<longrightarrow> most l1 = 0" using f1 by (simp add: found_def)
      from new_house_spec [OF r w1(1) start this] obtain w' l' bb where
        nh: "new_house start ?h w ?l = Inr (w', l', bb)" and o: "house_outcome start w1 l1 w' l' bb"
        by blast
      have hs: "house_step start ?v w l = Inr (w', l', bb)"
        using True new vl nh by (simp add: house_step_def)
      have o1: "same_graph w1 w'" "keeps l1 l'"
        "g_house_distance_i_to_all w' = g_house_distance_i_to_all w1" using o by (simp_all add: house_outcome_def)
      have hw: "house_num w1 = house_num w" using w1(1) by (simp add: same_graph_def)
      have k1: "distance l1 = ?d" "cycle_count l1 = cycle_count l" "total_count l1 = total_count l"
        "search_array l1 = search_array l" "search_array_count l1 = search_array_count l"
        "visit_vertice l1 = visit_vertice l" by (subst l1, simp)+
      have "same_graph w w'" by (rule same_graph_trans [OF w1(1) o1(1)])
      moreover have "g_i_max w' = g_i_max w \<or> complete w' start" if bb
      proof (cases "g_i_max w' = g_i_max w1")
        case False
        with o that have c: "count_end l1 = house_num w1"
          "house_distance_most w' ! start = Suc ?d \<or> house_distance_most w' ! start = 1"
          by (auto simp: house_outcome_def k1(1))
        have "complete w' start"
          by (rule complete_of_found [OF f1 _ c(1) o1(1,3) c(2)]) (use start hw c(1) ce j1 in auto)
        then show ?thesis ..
      qed (use w1(2) in simp)
      moreover have "found w' start ?d (Suc i) A l'" by (rule found_cong [OF o1(1,3,2) f1])
      moreover have "holds (vertice_num w) l' A"
        using h o1(2) k1 by (simp add: holds_def keeps_def)
      moreover have "\<not> bb \<Longrightarrow> g_i_max w' = g_i_max w \<and> count_end l' \<noteq> house_num w"
        using o w1(2) hw o1(2) by (simp add: house_outcome_def keeps_def)
      ultimately show ?thesis using hs o1(2) k1 by (auto simp: keeps_def)
    qed
  qed
qed

section \<open>The loop\<close>

text \<open>If the array is used up, every reachable later house has been counted.\<close>

lemma search_exhausted:
  assumes I: "search_inv w start i A l" and i: "i = Suc (cycle_count l)"
    and r: "\<forall>j. start < j \<longrightarrow> j < house_num w \<longrightarrow> (\<exists>m. lev (edges w) (house w ! start) (house w ! j) m)"
  shows "count_end l = house_num w"
proof -
  let ?E = "edges w" and ?s = "house w ! start"
  from I have g: "graph_ok w" "single_house w" and start: "start < house_num w"
    and b: "bfs ?E ?s (distance l) i A (cycle_count l) (total_count l)"
    and h: "holds (vertice_num w) l A" and f: "found w start (distance l) i A l"
    by (simp_all add: search_inv_def)
  have len: "length A = i" using bfsD(2,4) [OF b] i by simp
  have s: "?s \<in> set A" using bfsD(8) [OF b, of 0 ?s] by (auto dest: in_set_takeD)
  have closed: "u \<in> set A \<Longrightarrow> (u, v) \<in> ?E \<Longrightarrow> v \<in> set A" for u v
    using bfsD(9) [OF b] len by (metis Image_singleton_iff in_set_conv_nth subsetD)
  have reach: "(?s, v) \<in> ?E ^^ m \<Longrightarrow> v \<in> set A" for v m
    by (induction m arbitrary: v) (use s closed in auto)
  note D = f [unfolded found_def]
  have "visit_house l ! (house w ! j)" if j: "start < j" "j < house_num w" for j
  proof -
    let ?h = "house w ! j"
    have "?h \<noteq> ?s" using g(1) j start by (auto simp: graph_ok_def nth_eq_iff_index_eq)
    with r j obtain m where "lev ?E ?s ?h (Suc m)" by (metis lev_0 not0_implies_Suc)
    from lev_pred [OF this] obtain u where u: "lev ?E ?s u m" "(u, ?h) \<in> ?E" by blast
    then have "u \<in> set A" unfolding lev_def by (blast intro: reach)
    then obtain k where k: "k < i" "A ! k = u" using len by (auto simp: in_set_conv_nth)
    have hh: "?h \<in> set (house w)" using j by simp
    have "is_house (vertice w ! u) \<and> vhouse (vertice w ! u) = ?h"
      using g(2) u(2) hh unfolding single_house_def edges_def by auto
    moreover have "?h \<le> vertice_num w" using g(1) hh by (auto simp: graph_ok_def)
    ultimately show ?thesis using conjunct1 [OF conjunct2 [OF D]] k by blast
  qed
  then have "{j. start < j \<and> j < house_num w \<and> visit_house l ! (house w ! j)} = {start<..<house_num w}"
    by auto
  moreover have "count_end l = 1 + start
      + card {j. start < j \<and> j < house_num w \<and> visit_house l ! (house w ! j)}" using D by blast
  ultimately show ?thesis using start by simp
qed

lemma found_local:
  assumes "visit_house l' = visit_house l" "count_end l' = count_end l" "least_flag l' = least_flag l"
    "most l' = most l"
  shows "found w start d i A l' = found w start d i A l"
  by (unfold found_def assms) (rule refl)

lemma found_append:
  assumes "found w start d i A l" "i \<le> length A"
  shows "found w start d i (A @ N) l"
proof -
  have "(A @ N) ! k = A ! k" if "k < i" for k using assms(2) that by (simp add: nth_append)
  then have "(\<exists>k < i. is_house (vertice w ! ((A @ N) ! k)) \<and> vhouse (vertice w ! ((A @ N) ! k)) = h) \<longleftrightarrow>
    (\<exists>k < i. is_house (vertice w ! (A ! k)) \<and> vhouse (vertice w ! (A ! k)) = h)" for h by auto
  with assms(1) show ?thesis unfolding found_def by simp
qed

text \<open>The neighbours of the current vertex, and the move to the next index.\<close>

lemma next_step_inv:
  assumes I: "search_inv w start i A l" and i: "i \<le> cycle_count l" and w1: "same_graph w w1"
    and f1: "found w1 start (distance l) (Suc i) A l1" and h1: "holds (vertice_num w) l1 A"
    and l1: "distance l1 = distance l" "cycle_count l1 = cycle_count l" "total_count l1 = total_count l"
  shows "\<exists>l2 N. add_neighbours (vertice w ! (A ! i)) [0..<max 1 (vcount (vertice w ! (A ! i)))] l1 = Inr l2
    \<and> search_inv w1 start (Suc i) (A @ N) (next_level i l2) \<and> count_end (next_level i l2) = count_end l1"
proof -
  let ?v = "vertice w ! (A ! i)" and ?n = "vertice_num w"
  from I have g: "graph_ok w" "single_house w" "start < house_num w"
    and b: "bfs (edges w) (house w ! start) (distance l) i A (cycle_count l) (total_count l)"
    by (simp_all add: search_inv_def)
  have len: "i < length A" using bfsD(2) [OF b] i by simp
  have ui: "A ! i \<in> {1..?n}" using h1 nth_mem [OF len] by (auto simp: holds_def)
  note gu = graph_okD [OF g(1) ui]
  have js: "[0..<max 1 (vcount ?v)] = [0..<vcount ?v]" using gu(2) by (simp add: max_def)
  have nb: "nbrs w (A ! i) = (\<lambda>j. adjacency ?v ! j) ` set [0..<vcount ?v]"
    using gu(3) unfolding nbrs_def by (simp add: nth_image [symmetric] atLeast0LessThan)
  have adj: "\<forall>j \<in> set [0..<vcount ?v]. j < length (adjacency ?v) \<and> adjacency ?v ! j \<in> {1..?n}"
    using gu(3,4) nb by auto
  from add_neighbours_spec [OF h1 adj] obtain l2 N where
    a: "add_neighbours ?v [0..<vcount ?v] l1 = Inr l2" "holds ?n l2 (A @ N)"
      "set N = nbrs w (A ! i) - set A"
    and l2: "l2 = l1\<lparr>search_array := search_array l2, visit_vertice := visit_vertice l2,
      search_array_count := search_array_count l2, total_count := total_count l1 + length N\<rparr>"
    unfolding nb by blast
  have k: "distance l2 = distance l" "cycle_count l2 = cycle_count l"
    "total_count l2 = total_count l + length N" "visit_house l2 = visit_house l1"
    "count_end l2 = count_end l1" "least_flag l2 = least_flag l1" "most l2 = most l1"
    by (subst l2, simp add: l1)+
  have N: "set N = edges w `` {A ! i} - set A" "distinct N"
    using a(2,3) gu(5) by (auto simp: holds_def)
  have fd: "found w1 start d (Suc i) (A @ N) l1" if "distance l \<le> d" for d
    using found_mono [OF found_append [OF f1] that] len by simp
  have n: "visit_house (next_level i l2) = visit_house l1" "count_end (next_level i l2) = count_end l1"
    "least_flag (next_level i l2) = least_flag l1" "most (next_level i l2) = most l1"
    "distance l \<le> distance (next_level i l2)"
    using k by (simp_all add: next_level_def)
  have e: "edges w1 = edges w" "house w1 = house w" "vertice w1 = vertice w"
    using w1 edges_cong [of w1 w] by (simp_all add: same_graph_def)
  have "bfs (edges w1) (house w1 ! start) (distance (next_level i l2)) (Suc i) (A @ N)
      (cycle_count (next_level i l2)) (total_count (next_level i l2))"
    using bfs_visit [OF b i N] by (auto simp: next_level_def k e)
  moreover have "holds (vertice_num w1) (next_level i l2) (A @ N)"
    using a(2) by (simp add: holds_def next_level_def e)
  moreover have "found w1 start (distance (next_level i l2)) (Suc i) (A @ N) (next_level i l2)"
    unfolding found_local [OF n(1-4)] by (rule fd [OF n(5)])
  moreover have "graph_ok w1" "single_house w1" "tables_ok w1" "start < house_num w1"
    using graph_cong [OF w1] g w1 e by (simp_all add: same_graph_def)
  ultimately have "search_inv w1 start (Suc i) (A @ N) (next_level i l2)"
    unfolding search_inv_def by blast
  moreover have "count_end (next_level i l2) = count_end l1" using k(5) by (simp add: next_level_def)
  ultimately show ?thesis using a(1) js by auto
qed

lemma search_loop_spec:
  assumes "search_inv w start i A l" "count_end l \<noteq> house_num w" "i \<le> vertice_num w"
  shows "(\<forall>w'. search_loop start [i..<vertice_num w] w l = Inr w' \<longrightarrow>
      same_graph w w' \<and> (g_i_max w' = g_i_max w \<or> complete w' start))
    \<and> ((\<forall>j. start < j \<longrightarrow> j < house_num w \<longrightarrow> (\<exists>m. lev (edges w) (house w ! start) (house w ! j) m)) \<longrightarrow>
         (\<exists>w'. search_loop start [i..<vertice_num w] w l = Inr w'))"
  using assms
proof (induction "vertice_num w - i" arbitrary: i w A l)
  case 0
  have b: "bfs (edges w) (house w ! start) (distance l) i A (cycle_count l) (total_count l)"
    and h: "holds (vertice_num w) l A" using 0(2) by (simp_all add: search_inv_def)
  have "length A \<le> vertice_num w" using h by (simp add: holds_def)
  then have "i = Suc (cycle_count l)" using 0(1,4) bfsD(2,3) [OF b] by linarith
  with search_exhausted [OF 0(2)] 0(3) have "\<not> (\<forall>j. start < j \<longrightarrow> j < house_num w \<longrightarrow>
      (\<exists>m. lev (edges w) (house w ! start) (house w ! j) m))" by blast
  then show ?case using 0(1) by simp
next
  case (Suc k)
  let ?n = "vertice_num w" and ?v = "vertice w ! (A ! i)"
  have b: "bfs (edges w) (house w ! start) (distance l) i A (cycle_count l) (total_count l)"
    and h: "holds ?n l A" and g: "graph_ok w" using Suc.prems(1) by (simp_all add: search_inv_def)
  have lt: "i < ?n" using Suc.hyps(2) by simp
  then have js: "[i..<?n] = i # [Suc i..<?n]" by (rule upt_conv_Cons)
  show ?case
  proof (cases "i \<le> cycle_count l")
    case False
    then have i: "i = Suc (cycle_count l)" using bfsD(3) [OF b] by simp
    then have "length A = i" using bfsD(2,4) [OF b] by simp
    then have "search_array l ! i = None" "i < length (search_array l)"
      using h lt by (auto simp: holds_def nth_append)
    then have "search_loop start [i..<?n] w l = Inl Uninit" unfolding js by simp
    then show ?thesis using search_exhausted [OF Suc.prems(1) i] Suc.prems(2) by auto
  next
    case True
    then have len: "i < length A" using bfsD(2) [OF b] by simp
    then have sa: "search_array l ! i = Some (A ! i)" "i < length (search_array l)"
      using h lt by (auto simp: holds_def nth_append)
    have ui: "A ! i \<in> {1..?n}" using h nth_mem [OF len] by (auto simp: holds_def)
    from house_step_spec [OF Suc.prems(1) True Suc.prems(2)] obtain w1 l1 fin where
      s: "house_step start ?v w l = Inr (w1, l1, fin)" "same_graph w w1"
      "fin \<Longrightarrow> g_i_max w1 = g_i_max w \<or> complete w1 start"
      "\<not> fin \<Longrightarrow> g_i_max w1 = g_i_max w \<and> count_end l1 \<noteq> house_num w
         \<and> found w1 start (distance l) (Suc i) A l1 \<and> holds ?n l1 A
         \<and> distance l1 = distance l \<and> cycle_count l1 = cycle_count l \<and> total_count l1 = total_count l"
      by blast
    show ?thesis
    proof (cases fin)
      case fin: True
      then have "search_loop start [i..<?n] w l = Inr w1"
        unfolding js using sa graph_okD(1) [OF g ui] s(1) by simp
      with s(2,3) fin show ?thesis by auto
    next
      case False
      note s4 = s(4) [OF False]
      from next_step_inv [OF Suc.prems(1) True s(2)] s4 obtain l2 N where
        n: "add_neighbours ?v [0..<max 1 (vcount ?v)] l1 = Inr l2"
        "search_inv w1 start (Suc i) (A @ N) (next_level i l2)"
        "count_end (next_level i l2) = count_end l1" by blast
      have e: "edges w1 = edges w" "house w1 = house w" "vertice w1 = vertice w"
        using s(2) edges_cong [of w1 w] by (simp_all add: same_graph_def)
      have st: "search_loop start [i..<?n] w l = search_loop start [Suc i..<?n] w1 (next_level i l2)"
        unfolding js using sa graph_okD(1) [OF g ui] s(1) False n(1) by simp
      have "k = vertice_num w1 - Suc i" "Suc i \<le> vertice_num w1"
        "count_end (next_level i l2) \<noteq> house_num w1"
        using Suc.hyps(2) lt n(3) s4 e by simp_all
      note IH = Suc.hyps(1) [OF this(1) n(2) this(3,2), unfolded e conjunct1 [OF s4]]
      show ?thesis
        unfolding st using IH same_graph_trans [OF s(2)] by blast
    qed
  qed
qed

end
