(* ===== verification/HouseMain.thy ===== *)
theory HouseMain
  imports HouseSearch
begin

text \<open>
  The rest of Project1 (src/Project1/src/Project1.cpp): \<open>main\<close>, which reads the graph
  from a sequence of numbers and reduces the per-house results, and \<open>ThreadFunc\<close> as a
  machine. The test of \<open>g_cnt_global\<close> is a step of its own because it is made outside
  the lock; a \<open>Search\<close> is one step. An input that ends early is a fault.
\<close>

section \<open>Input\<close>

fun scan :: "nat list \<Rightarrow> (nat \<times> nat list) res" where
  "scan [] = Inl Uninit"
| "scan (x # xs) = Inr (x mod 2 ^ 32, xs)"

fun read_houses :: "nat \<Rightarrow> nat list \<Rightarrow> (nat list \<times> nat list) res" where
  "read_houses 0 inp = Inr ([], inp)"
| "read_houses (Suc n) inp = rbind (scan inp) (\<lambda>(temp, inp1).
     rbind (read_houses n inp1) (\<lambda>(hs, inp2). Inr (temp # hs, inp2)))"

fun mark_houses :: "nat list \<Rightarrow> bool list \<Rightarrow> bool list res" where
  "mark_houses [] hv = Inr hv"
| "mark_houses (h # hs) hv = rbind (aset hv h True) (mark_houses hs)"

text \<open>The edges of one start vertex: both directions of each.\<close>

fun read_edges :: "nat \<Rightarrow> nat \<Rightarrow> bool list \<Rightarrow> Vertex list \<Rightarrow> nat list \<Rightarrow> (Vertex list \<times> nat list) res" where
  "read_edges start 0 hv vs inp = Inr (vs, inp)"
| "read_edges start (Suc n) hv vs inp = rbind (scan inp) (\<lambda>(end_vertex, inp1).
     rbind (InsertEdge vs start end_vertex hv) (\<lambda>vs1.
     rbind (InsertEdge vs1 end_vertex start hv) (\<lambda>vs2. read_edges start n hv vs2 inp1)))"

fun read_lists :: "nat \<Rightarrow> bool list \<Rightarrow> Vertex list \<Rightarrow> nat list \<Rightarrow> (Vertex list \<times> nat list) res" where
  "read_lists 0 hv vs inp = Inr (vs, inp)"
| "read_lists (Suc n) hv vs inp = rbind (scan inp) (\<lambda>(start_vertex, inp1).
     rbind (scan inp1) (\<lambda>(edge_num, inp2).
     rbind (read_edges start_vertex edge_num hv vs inp2) (\<lambda>(vs1, inp3). read_lists n hv vs1 inp3)))"

text \<open>
  What \<open>malloc\<close> and the stack leave in the arrays that \<open>main\<close> does not initialise.
\<close>

record raw_memory =
  raw_vertex :: Vertex
  raw_flag :: bool
  raw_cell :: nat

definition zeroed :: raw_memory where
  "zeroed = \<lparr>raw_vertex = \<lparr>vcount = 0, is_house = False, adjacency = replicate MAX_EDGE_NUM 0,
     vhouse = 0\<rparr>, raw_flag = False, raw_cell = 0\<rparr>"

definition main_input :: "raw_memory \<Rightarrow> nat list \<Rightarrow> MyArg res" where
  "main_input r inp =
     rbind (scan inp) (\<lambda>(hn, inp1).
     rbind (read_houses hn inp1) (\<lambda>(hs, inp2).
     rbind (scan inp2) (\<lambda>(vn, inp3).
     rbind (mark_houses hs (replicate (vn + 1) (raw_flag r))) (\<lambda>hv.
     rbind (scan inp3) (\<lambda>(temp, inp4).
     rbind (read_lists temp hv (replicate (vn + 1) (raw_vertex r)) inp4) (\<lambda>(vs, inp5).
       Inr \<lparr>vertice = vs, house = hs, house_distance_least = replicate hn (raw_cell r),
            house_distance_most = replicate hn (raw_cell r), g_total_max = 0,
            g_i_max = replicate hn (raw_cell r),
            g_house_distance_i_to_all = replicate hn (replicate hn (raw_cell r))\<rparr>))))))"

section \<open>Threads\<close>

definition NUM_THREAD :: nat where
  "NUM_THREAD = 36"

definition thread_number :: "nat \<Rightarrow> nat" where
  "thread_number hn = (if NUM_THREAD < pred32 hn then NUM_THREAD else pred32 hn)"

datatype hpc = H_Test | H_Take | H_Search nat | H_Done

record hstate =
  arg :: MyArg
  g_cnt_global :: nat
  hpcs :: "hpc list"

definition ThreadFunc_step :: "nat \<Rightarrow> bool list \<Rightarrow> hstate \<Rightarrow> hstate res option" where
  "ThreadFunc_step i raw_visit_house s =
     (if i < length (hpcs s) then
        (case hpcs s ! i of
           H_Test \<Rightarrow> Some (Inr (s\<lparr>hpcs := (hpcs s)[i :=
             if g_cnt_global s < pred32 (house_num (arg s)) then H_Take else H_Done]\<rparr>))
         | H_Take \<Rightarrow> Some (Inr (s\<lparr>g_cnt_global := (g_cnt_global s + 1) mod 2 ^ 32,
             hpcs := (hpcs s)[i := H_Search (g_cnt_global s)]\<rparr>))
         | H_Search start_num \<Rightarrow> Some (rbind (Search raw_visit_house start_num (arg s)) (\<lambda>w.
             Inr (s\<lparr>arg := w, hpcs := (hpcs s)[i := H_Test]\<rparr>)))
         | H_Done \<Rightarrow> None)
      else None)"

definition start_threads :: "MyArg \<Rightarrow> hstate" where
  "start_threads w = \<lparr>arg = w, g_cnt_global = 0,
     hpcs = replicate (thread_number (house_num w)) H_Test\<rparr>"

fun run_threads :: "nat list \<Rightarrow> bool list \<Rightarrow> hstate \<Rightarrow> hstate res option" where
  "run_threads [] raw s = Some (Inr s)"
| "run_threads (i # is) raw s = obind (ThreadFunc_step i raw s) (run_threads is raw)"

section \<open>Result\<close>

fun result_loop :: "nat list \<Rightarrow> MyArg \<Rightarrow> nat \<Rightarrow> nat \<Rightarrow> (nat \<times> nat) res" where
  "result_loop [] w lo hi = Inr (lo, hi)"
| "result_loop (i # is) w lo hi =
     rbind (aget (house_distance_least w) i) (\<lambda>l.
     rbind (aget (house_distance_most w) i) (\<lambda>m.
       result_loop is w (if lo \<ge> l then l else lo) (if hi \<le> m then m else hi)))"

definition main_result :: "MyArg \<Rightarrow> (nat \<times> nat) res" where
  "main_result w = result_loop [0..<pred32 (house_num w)] w (2 ^ 31 - 1) 0"

text \<open>\<open>main\<close> with the threads run by the given schedule.\<close>

definition run_main :: "nat list \<Rightarrow> raw_memory \<Rightarrow> nat list \<Rightarrow> (nat \<times> nat) res option" where
  "run_main sched r inp =
     (case main_input r inp of Inl e \<Rightarrow> Some (Inl e)
      | Inr w \<Rightarrow> obind (run_threads sched (replicate (length (vertice w)) (raw_flag r)) (start_threads w))
          (\<lambda>s. if \<forall>p \<in> set (hpcs s). p = H_Done then Some (main_result (arg s)) else None))"

end
