(* ===== verification/HouseProps.thy ===== *)
theory HouseProps
  imports HouseBfs HouseMain "HOL-Library.Multiset" "HOL-Library.Code_Target_Nat"
begin

text \<open>
  The properties of Project1: the distances \<open>Search\<close> records and the searches that
  return, what \<open>InsertEdge\<close> stores, how the threads share the houses, the reduction in
  \<open>main\<close>, and the inputs and schedules on which the program goes wrong.
\<close>

section \<open>The search\<close>

lemma holds_start:
  assumes "s \<in> {1..n}" "search_array l = (replicate n None)[0 := Some s]" "search_array_count l = 1"
    "visit_vertice l = (replicate (n + 1) False)[s := True]"
  shows "holds n l [s]"
proof -
  obtain m where n: "n = Suc m" using assms(1) by (cases n) auto
  have "length (visit_vertice l) = n + 1" "\<forall>v \<le> n. visit_vertice l ! v \<longleftrightarrow> v = s"
    unfolding assms(4) using assms(1)
    by (auto simp: nth_list_update less_Suc_eq_le simp del: replicate_Suc)
  with assms(1-3) n show ?thesis by (simp add: holds_def)
qed

lemma Search_start:
  assumes g: "graph_ok w" "single_house w" "tables_ok w" and start: "Suc start < house_num w"
  defines "l \<equiv> \<lparr>distance = 0, search_array = (replicate (vertice_num w) None)[0 := Some (house w ! start)],
      search_array_count = 1, total_count = 0, cycle_count = 0,
      visit_vertice = (replicate (vertice_num w + 1) False)[house w ! start := True],
      visit_house = replicate (vertice_num w + 1) False,
      least_flag = True, least = 0, most = 0, count_end = 1 + start\<rparr>"
  shows "Search (replicate (vertice_num w + 1) False) start w
      = search_loop start [0..<vertice_num w] w l"
    and "search_inv w start 0 [house w ! start] l" "count_end l \<noteq> house_num w"
proof -
  let ?s = "house w ! start" and ?n = "vertice_num w"
  have hs: "house w ! j \<in> {1..?n}" if "j < house_num w" for j
    using g(1) nth_mem [OF that] unfolding graph_ok_def by blast
  then have s: "?s \<in> {1..?n}" using start by simp
  then have n: "0 < ?n" by (auto simp del: One_nat_def)
  then show "Search (replicate (?n + 1) False) start w = search_loop start [0..<?n] w l"
    using start s unfolding Search_def l_def by simp
  have "holds ?n l [?s]" by (rule holds_start [OF s]) (simp_all add: l_def)
  moreover have "\<not> replicate (?n + 1) False ! (house w ! j)" if "j < house_num w" for j
    using hs [OF that] by (simp add: less_Suc_eq_le del: replicate_Suc)
  then have e: "{j. start < j \<and> j < house_num w \<and> replicate (?n + 1) False ! (house w ! j)} = {}" by blast
  then have "found w start 0 0 [?s] l"
    unfolding found_def l_def by (auto simp: less_Suc_eq_le simp del: replicate_Suc)
  ultimately show "search_inv w start 0 [?s] l"
    using g start bfs_start unfolding search_inv_def by (simp add: l_def)
  show "count_end l \<noteq> house_num w" using start by (simp add: l_def)
qed

text \<open>A path of seven vertices with houses at both ends and in the middle.\<close>

definition path_input :: "nat list" where
  "path_input = [3, 1, 4, 7, 7, 6, 1, 1, 2, 2, 1, 3, 3, 1, 4, 4, 1, 5, 5, 1, 6, 6, 1, 7]"

definition path_vertex :: "nat list \<Rightarrow> nat \<Rightarrow> Vertex" where
  "path_vertex vs h = \<lparr>vcount = length vs, is_house = (h \<noteq> 0),
     adjacency = vs @ replicate (10 - length vs) 0, vhouse = h\<rparr>"

definition path_graph :: MyArg where
  "path_graph = \<lparr>vertice = [path_vertex [] 0, path_vertex [2] 0, path_vertex [1, 3] 1,
       path_vertex [2, 4] 4, path_vertex [3, 5] 0, path_vertex [4, 6] 4, path_vertex [5, 7] 7,
       path_vertex [6] 0],
     house = [1, 4, 7], house_distance_least = [0, 0, 0], house_distance_most = [0, 0, 0],
     g_total_max = 0, g_i_max = [0, 0, 0],
     g_house_distance_i_to_all = [[0, 0, 0], [0, 0, 0], [0, 0, 0]]\<rparr>"

lemma path_graph_ok:
  "graph_ok path_graph" "single_house path_graph" "tables_ok path_graph"
  "Suc 0 < house_num path_graph" "length (vertice path_graph) = 8"
  by code_simp+

text \<open>C14: on a graph in which no vertex is next to two houses, a \<open>Search\<close> that runs to its
  end has recorded, for every later house, the length of a shortest path to it, and its
  maximum is the largest of them or the value 1 of a search that met too few houses.\<close>

theorem Search_records_shortest_distances:
  assumes "graph_ok w" "single_house w" "tables_ok w" "Suc start < house_num w"
    and "Search (replicate (vertice_num w + 1) False) start w = Inr w'" "g_i_max w' \<noteq> g_i_max w"
  shows "complete w' start"
proof -
  note S = Search_start [OF assms(1-4)]
  from search_loop_spec [OF S(2,3)] assms(5,6) show ?thesis unfolding S(1) by simp
qed

theorem Search_records_shortest_distances_witness:
  "\<exists>w'. Search (replicate 8 False) 0 path_graph = Inr w' \<and> complete w' 0
     \<and> g_house_distance_i_to_all w' ! 0 = [0, 3, 6]"
proof -
  have "case Search (replicate 8 False) 0 path_graph of
    Inr w' \<Rightarrow> g_i_max w' = [6, 0, 0] \<and> g_house_distance_i_to_all w' ! 0 = [0, 3, 6] | _ \<Rightarrow> False"
    by code_simp
  then obtain w' where w': "Search (replicate 8 False) 0 path_graph = Inr w'"
    "g_i_max w' = [6, 0, 0]" "g_house_distance_i_to_all w' ! 0 = [0, 3, 6]"
    by (auto split: sum.splits)
  moreover have "g_i_max path_graph = [0, 0, 0]" by (simp add: path_graph_def)
  ultimately show ?thesis
    using Search_records_shortest_distances [OF path_graph_ok(1-4), of w'] by (simp add: path_graph_ok(5))
qed



section \<open>The input\<close>

text \<open>\<open>InsertEdge\<close> appends to the neighbours of the start vertex and changes nothing
  else, but the eleventh neighbour of a vertex is written outside its array.\<close>

theorem InsertEdge_appends:
  assumes "start < length vs" "length (adjacency (vs ! start)) = MAX_EDGE_NUM"
    and "vcount (vs ! start) \<le> MAX_EDGE_NUM" "end_vertex < length hv"
  shows "if vcount (vs ! start) = MAX_EDGE_NUM
    then InsertEdge vs start end_vertex hv = Inl OutOfBounds
    else \<exists>v. InsertEdge vs start end_vertex hv = Inr (vs[start := v])
      \<and> take (vcount v) (adjacency v)
          = take (vcount (vs ! start)) (adjacency (vs ! start)) @ [end_vertex]
      \<and> length (adjacency v) = MAX_EDGE_NUM \<and> vcount v = vcount (vs ! start) + 1
      \<and> (is_house v \<longleftrightarrow> is_house (vs ! start) \<or> hv ! end_vertex)
      \<and> vhouse v = (if hv ! end_vertex then end_vertex else vhouse (vs ! start))"
proof (cases "vcount (vs ! start) = MAX_EDGE_NUM")
  case True
  then show ?thesis using assms by (simp add: InsertEdge_def)
next
  case False
  then have "vcount (vs ! start) < length (adjacency (vs ! start))" using assms(2,3) by simp
  then have "take (Suc (vcount (vs ! start))) ((adjacency (vs ! start))[vcount (vs ! start) := end_vertex])
      = take (vcount (vs ! start)) (adjacency (vs ! start)) @ [end_vertex]"
    by (simp add: take_Suc_conv_app_nth)
  with assms False show ?thesis
    by (cases "hv ! end_vertex") (auto simp: InsertEdge_def Let_def)
qed

theorem InsertEdge_appends_witness:
  "\<exists>v. InsertEdge (vertice path_graph) 3 6 (replicate 8 False) = Inr ((vertice path_graph)[3 := v])
    \<and> take (vcount v) (adjacency v) = [2, 4, 6]"
proof -
  have p: "vertice path_graph ! 3 = path_vertex [2, 4] 4" "length (vertice path_graph) = 8"
    by (simp_all add: path_graph_def)
  then have "\<exists>v. InsertEdge (vertice path_graph) 3 6 (replicate 8 False) = Inr ((vertice path_graph)[3 := v])
    \<and> take (vcount v) (adjacency v) = take (vcount (vertice path_graph ! 3)) (adjacency (vertice path_graph ! 3)) @ [6]"
    using InsertEdge_appends [of 3 "vertice path_graph" 6 "replicate 8 False"]
    by (auto simp: path_vertex_def MAX_EDGE_NUM_def)
  moreover have "take (vcount (vertice path_graph ! 3)) (adjacency (vertice path_graph ! 3)) = [2, 4]"
    by (simp add: p path_vertex_def)
  ultimately show ?thesis by simp
qed

section \<open>The threads\<close>

lemma record_house_keeps: "record_house s h js w l = Inr (w', l') \<Longrightarrow> house w' = house w"
  by (induction js) (auto simp: rbind_eq_Inr_iff split: if_splits)

lemma set_results_keeps: "set_results s lo hi w = Inr w' \<Longrightarrow> house w' = house w"
  by (auto simp: set_results_def rbind_eq_Inr_iff)

lemma finish_search_keeps:
  assumes "finish_search s w l = Inr w'"
  shows "house w' = house w"
proof -
  from assms obtain w1 where w1: "set_results s (least l + 1) (most l + 1) w = Inr w1"
    and r: "(let w2 = (if g_total_max w1 < most l + 1 then w1\<lparr>g_total_max := most l + 1\<rparr> else w1)
       in rbind (aset (g_i_max w2) s (most l + 1)) (\<lambda>ms. Inr (w2\<lparr>g_i_max := ms\<rparr>))) = Inr w'"
    unfolding finish_search_def rbind_eq_Inr_iff by blast
  from r have "house w' = house w1" by (auto simp: Let_def rbind_eq_Inr_iff split: if_splits)
  with set_results_keeps [OF w1] show ?thesis by simp
qed

lemma new_house_keeps: "new_house s h w l = Inr (w', l', b) \<Longrightarrow> house w' = house w"
  unfolding new_house_def Let_def rbind_def
  by (auto dest!: record_house_keeps set_results_keeps finish_search_keeps
      split: sum.splits prod.splits if_splits)

lemma house_step_keeps: "house_step s v w l = Inr (w', l', b) \<Longrightarrow> house w' = house w"
  by (auto simp: house_step_def rbind_eq_Inr_iff dest: new_house_keeps split: if_splits)

lemma search_loop_keeps: "search_loop s is w l = Inr w' \<Longrightarrow> house w' = house w"
proof (induction s "is" w l rule: search_loop.induct)
  case (2 s i "is" w l)
  from 2(2) obtain c v w1 l1 b where
    s: "aget (search_array l) i = Inr (Some c)" "aget (vertice w) c = Inr v"
    "house_step s v w l = Inr (w1, l1, b)"
    and r: "(if b then Inr w1 else rbind (add_neighbours v [0..<max 1 (vcount v)] l1)
       (\<lambda>l2. search_loop s is w1 (next_level i l2))) = Inr w'"
    by (auto simp: rbind_eq_Inr_iff split: option.splits)
  have k: "house w1 = house w" by (rule house_step_keeps [OF s(3)])
  show ?case
  proof (cases b)
    case True
    with r k show ?thesis by simp
  next
    case False
    with r obtain l2 where "search_loop s is w1 (next_level i l2) = Inr w'"
      by (auto simp: rbind_eq_Inr_iff)
    from 2(1) [OF False this] k show ?thesis by simp
  qed
qed simp

lemma Search_keeps: "Search raw s w = Inr w' \<Longrightarrow> house w' = house w"
  by (auto simp: Search_def rbind_eq_Inr_iff dest!: search_loop_keeps)

text \<open>Runs of the threads with the houses whose search is finished.\<close>

inductive thread_run :: "MyArg \<Rightarrow> nat list \<Rightarrow> hstate \<Rightarrow> bool" for w :: MyArg where
  run_start: "thread_run w [] (start_threads w)"
| run_step: "thread_run w fin s \<Longrightarrow> ThreadFunc_step i raw s = Some (Inr t) \<Longrightarrow>
    thread_run w (case hpcs s ! i of H_Search n \<Rightarrow> n # fin | _ \<Rightarrow> fin) t"

fun searching :: "hpc \<Rightarrow> nat list" where
  "searching (H_Search n) = [n]"
| "searching _ = []"

definition running :: "hpc list \<Rightarrow> nat list" where
  "running ps = concat (map searching ps)"

definition takers :: "hpc list \<Rightarrow> nat" where
  "takers ps = length (filter (\<lambda>p. p = H_Take) ps)"

lemma running_split: "i < length ps \<Longrightarrow>
  running (ps[i := p]) = running (take i ps) @ searching p @ running (drop (Suc i) ps)"
  by (simp add: running_def upd_conv_take_nth_drop)

lemma running_nth: "i < length ps \<Longrightarrow>
  running ps = running (take i ps) @ searching (ps ! i) @ running (drop (Suc i) ps)"
  using running_split [of i ps "ps ! i"] by simp

lemma takers_split: "i < length ps \<Longrightarrow>
  takers (ps[i := p]) = takers (take i ps) + takers [p] + takers (drop (Suc i) ps)"
  by (simp add: takers_def upd_conv_take_nth_drop)

lemma takers_nth: "i < length ps \<Longrightarrow>
  takers ps = takers (take i ps) + takers [ps ! i] + takers (drop (Suc i) ps)"
  using takers_split [of i ps "ps ! i"] by simp

lemma takers_le: "takers ps \<le> length ps"
  by (simp add: takers_def)

definition run_inv :: "MyArg \<Rightarrow> nat list \<Rightarrow> hstate \<Rightarrow> bool" where
  "run_inv w fin s \<longleftrightarrow> house (arg s) = house w \<and> length (hpcs s) = thread_number (house_num w)
     \<and> mset (fin @ running (hpcs s)) = mset [0..<g_cnt_global s]
     \<and> g_cnt_global s + takers (hpcs s) \<le> house_num w + length (hpcs s)
     \<and> (H_Done \<in> set (hpcs s) \<longrightarrow> house_num w \<le> Suc (g_cnt_global s))"

lemma mset_swap:
  fixes F :: "'a multiset"
  assumes "F + (a + x + b) = U" "F' + y + U = F + x + V"
  shows "F' + (a + y + b) = V"
proof (rule add_left_imp_eq)
  have "(F + x) + (F' + (a + y + b)) = F' + y + (F + (a + x + b))" by (simp add: ac_simps)
  also have "\<dots> = (F + x) + V" unfolding assms(1) assms(2) ..
  finally show "(F + x) + (F' + (a + y + b)) = (F + x) + V" .
qed

text \<open>Replacing one program point: what it adds to the two counts.\<close>

lemma run_inv_upd:
  assumes I: "run_inv w fin s" and i: "i < length (hpcs s)"
    and w': "house (arg t) = house w" and ps: "hpcs t = (hpcs s)[i := q]"
    and m: "mset (fin' @ searching q) + mset [0..<g_cnt_global s]
      = mset (fin @ searching (hpcs s ! i)) + mset [0..<g_cnt_global t]"
    and k: "g_cnt_global t + takers (hpcs t) \<le> house_num w + length (hpcs s)"
    and d: "q = H_Done \<Longrightarrow> house_num w \<le> Suc (g_cnt_global t)" "g_cnt_global s \<le> g_cnt_global t"
  shows "run_inv w fin' t"
proof -
  let ?a = "mset (running (take i (hpcs s)))" and ?b = "mset (running (drop (Suc i) (hpcs s)))"
  have r: "mset (running (hpcs s)) = ?a + mset (searching (hpcs s ! i)) + ?b"
    unfolding running_nth [OF i] by simp
  have "mset (fin @ running (hpcs s)) = mset [0..<g_cnt_global s]" using I by (simp only: run_inv_def)
  then have "mset fin + (?a + mset (searching (hpcs s ! i)) + ?b) = mset [0..<g_cnt_global s]"
    by (simp only: mset_append r)
  from mset_swap [OF this m [unfolded mset_append]]
  have "mset (fin' @ running (hpcs t)) = mset [0..<g_cnt_global t]"
    unfolding ps running_split [OF i] mset_append by (simp only: add.assoc)
  moreover have "H_Done \<in> set (hpcs t) \<Longrightarrow> house_num w \<le> Suc (g_cnt_global t)"
    using I d set_update_subset_insert [of "hpcs s" i q] ps by (auto simp: run_inv_def)
  ultimately show ?thesis using I w' ps k by (simp add: run_inv_def)
qed

lemma run_inv_step:
  assumes I: "run_inv w fin s" and step: "ThreadFunc_step i raw s = Some (Inr t)"
    and hn: "0 < house_num w" "house_num w + NUM_THREAD < 2 ^ 32"
  shows "run_inv w (case hpcs s ! i of H_Search n \<Rightarrow> n # fin | _ \<Rightarrow> fin) t"
proof -
  let ?ps = "hpcs s" and ?c = "g_cnt_global s"
  have i: "i < length ?ps" using step by (auto simp: ThreadFunc_step_def split: if_splits)
  have h: "house (arg s) = house w" "length ?ps \<le> NUM_THREAD"
    "?c + takers ?ps \<le> house_num w + length ?ps"
    using I by (simp_all add: run_inv_def thread_number_def)
  have p: "pred32 (house_num w) = house_num w - 1" using hn by (intro pred32_small) simp_all
  note k = takers_split [OF i] takers_nth [OF i]
  show ?thesis
  proof (cases "?ps ! i")
    case H_Test
    have lt: "takers ?ps < length ?ps"
      using H_Test i k(2) takers_le [of "take i ?ps"] takers_le [of "drop (Suc i) ?ps"]
      by (simp add: takers_def)
    define q where "q = (if ?c < house_num w - 1 then H_Take else H_Done)"
    have t: "t = s\<lparr>hpcs := ?ps[i := q]\<rparr>"
      using step i H_Test h(1) p by (simp add: ThreadFunc_step_def q_def)
    have "?c + takers (?ps[i := q]) \<le> house_num w + length ?ps"
      using h(3) lt k(1) [of q] k(2) H_Test by (auto simp: q_def takers_def)
    then have "run_inv w fin t"
      by (intro run_inv_upd [OF I i, of t q]) (use t h(1) H_Test in \<open>auto simp: q_def split: if_splits\<close>)
    with H_Test show ?thesis by simp
  next
    case H_Take
    have "?c + 1 < 2 ^ 32" using h(2,3) H_Take k(2) hn by (simp add: takers_def)
    then have t: "t = s\<lparr>g_cnt_global := Suc ?c, hpcs := ?ps[i := H_Search ?c]\<rparr>"
      using step i H_Take by (simp add: ThreadFunc_step_def)
    have "Suc ?c + takers (?ps[i := H_Search ?c]) \<le> house_num w + length ?ps"
      using h(3) k(1) [of "H_Search ?c"] k(2) H_Take by (simp add: takers_def)
    then have "run_inv w fin t"
      by (intro run_inv_upd [OF I i, of t "H_Search ?c"]) (use t h(1) H_Take in auto)
    with H_Take show ?thesis by simp
  next
    case (H_Search n)
    with step i obtain w1 where s: "Search raw n (arg s) = Inr w1"
      and t: "t = s\<lparr>arg := w1, hpcs := ?ps[i := H_Test]\<rparr>"
      by (auto simp: ThreadFunc_step_def rbind_eq_Inr_iff)
    have "?c + takers (?ps[i := H_Test]) \<le> house_num w + length ?ps"
      using h(3) k(1) [of H_Test] k(2) H_Search by (simp add: takers_def)
    then have "run_inv w (n # fin) t"
      by (intro run_inv_upd [OF I i, of t H_Test]) (use t h(1) Search_keeps [OF s] H_Search in auto)
    with H_Search show ?thesis by simp
  next
    case H_Done
    with step i show ?thesis by (simp add: ThreadFunc_step_def)
  qed
qed

lemma thread_run_inv:
  assumes "thread_run w fin s" "0 < house_num w" "house_num w + NUM_THREAD < 2 ^ 32"
  shows "run_inv w fin s"
  using assms(1)
proof induction
  case run_start
  have "running (replicate n H_Test) = []" "takers (replicate n H_Test) = 0" for n
    by (induction n) (simp_all add: running_def takers_def)
  then show ?case by (auto simp: run_inv_def start_threads_def)
next
  case (run_step fin s i raw t)
  then show ?case using run_inv_step assms(2,3) by blast
qed

text \<open>C16: the threads share the houses: no house is searched twice, and when all threads have
  returned every house but the last one has been searched.\<close>

theorem threads_search_every_house:
  assumes "thread_run w fin s" "2 \<le> house_num w" "house_num w + NUM_THREAD < 2 ^ 32"
  shows "distinct fin \<and> ((\<forall>p \<in> set (hpcs s). p = H_Done) \<longrightarrow> {..<house_num w - 1} \<subseteq> set fin)"
proof -
  have pos: "0 < house_num w" using assms(2) by linarith
  then have I: "run_inv w fin s" by (rule thread_run_inv [OF assms(1) _ assms(3)])
  have "distinct (fin @ running (hpcs s))"
    using I mset_eq_imp_distinct_iff [of "fin @ running (hpcs s)" "[0..<g_cnt_global s]"]
    by (simp add: run_inv_def del: mset_append mset_upt)
  then have d: "distinct fin" by simp
  moreover have "{..<house_num w - 1} \<subseteq> set fin" if fi: "\<forall>p \<in> set (hpcs s). p = H_Done"
  proof -
    have "searching p = []" if "p \<in> set (hpcs s)" for p using fi that by auto
    then have "running (hpcs s) = []" by (simp add: running_def)
    then have "mset fin = mset [0..<g_cnt_global s]" using I by (simp add: run_inv_def)
    then have f: "set fin = {0..<g_cnt_global s}" by (metis mset_eq_setD set_upt)
    have "pred32 (house_num w) = house_num w - 1" using assms(3) by (intro pred32_small [OF pos]) simp
    then have "0 < length (hpcs s)" using I assms(2) by (simp add: run_inv_def thread_number_def NUM_THREAD_def)
    then have "H_Done \<in> set (hpcs s)" using fi by (metis length_greater_0_conv list.set_sel(1))
    then have "house_num w \<le> Suc (g_cnt_global s)" using I by (simp add: run_inv_def)
    then show ?thesis unfolding f by auto
  qed
  ultimately show ?thesis by blast
qed

lemma run_threads_thread_run:
  assumes "thread_run w fin s" "run_threads is raw s = Some (Inr t)"
  shows "\<exists>fin'. thread_run w fin' t"
  using assms
proof (induction "is" raw s arbitrary: fin rule: run_threads.induct)
  case (2 i "is" raw s)
  from 2(3) obtain u where u: "ThreadFunc_step i raw s = Some (Inr u)" "run_threads is raw u = Some (Inr t)"
    by (auto simp: obind_def split: option.splits sum.splits)
  from 2(1) [OF run_step [OF 2(2) u(1)] u(2)] show ?case .
qed auto

theorem threads_search_every_house_witness:
  "\<exists>fin s. thread_run path_graph fin s \<and> (\<forall>p \<in> set (hpcs s). p = H_Done)
     \<and> distinct fin \<and> {..<2} \<subseteq> set fin"
proof -
  have "case run_threads [0, 0, 1, 1, 0, 1, 0, 1] (replicate 8 False) (start_threads path_graph) of
    Some (Inr s) \<Rightarrow> (\<forall>p \<in> set (hpcs s). p = H_Done) | _ \<Rightarrow> False"
    by code_simp
  then obtain s where s: "run_threads [0, 0, 1, 1, 0, 1, 0, 1] (replicate 8 False)
      (start_threads path_graph) = Some (Inr s)" "\<forall>p \<in> set (hpcs s). p = H_Done"
    by (auto split: option.splits sum.splits)
  from run_threads_thread_run [OF run_start s(1)] obtain fin where r: "thread_run path_graph fin s" ..
  have "house_num path_graph = 3" by (simp add: path_graph_def)
  with threads_search_every_house [OF r] s(2) r show ?thesis by (auto simp: NUM_THREAD_def)
qed

section \<open>The result\<close>

lemma result_loop_minmax:
  assumes "\<forall>i \<in> set is. i < length (house_distance_least w) \<and> i < length (house_distance_most w)"
  shows "result_loop is w lo hi
    = Inr (fold min (map (\<lambda>i. house_distance_least w ! i) is) lo,
           fold max (map (\<lambda>i. house_distance_most w ! i) is) hi)"
  using assms
proof (induction "is" arbitrary: lo hi)
  case (Cons i "is")
  have "(if lo \<ge> house_distance_least w ! i then house_distance_least w ! i else lo)
      = min (house_distance_least w ! i) lo"
    "(if hi \<le> house_distance_most w ! i then house_distance_most w ! i else hi)
      = max (house_distance_most w ! i) hi" by (simp_all add: min_def max_def)
  with Cons show ?case by simp
qed simp

text \<open>C17: the numbers \<open>main\<close> prints are the minimum and the maximum of what the searches
  stored, over all houses but the last.\<close>

theorem main_result_minmax:
  assumes "tables_ok w" "2 \<le> house_num w"
  shows "main_result w = Inr
    (Min (insert (2 ^ 31 - 1) ((\<lambda>i. house_distance_least w ! i) ` {..<house_num w - 1})),
     Max ((\<lambda>i. house_distance_most w ! i) ` {..<house_num w - 1}))"
proof -
  let ?is = "[0..<house_num w - 1]"
  have p: "pred32 (house_num w) = house_num w - 1"
    using assms by (intro pred32_small) (linarith, simp add: tables_ok_def)
  have ne: "map (\<lambda>i. house_distance_most w ! i) ?is \<noteq> []" using assms(2) by simp
  have lo: "fold min (map (\<lambda>i. house_distance_least w ! i) ?is) (2 ^ 31 - 1)
    = Min (insert (2 ^ 31 - 1) ((\<lambda>i. house_distance_least w ! i) ` {..<house_num w - 1}))"
    using Min.set_eq_fold [of "2 ^ 31 - 1" "map (\<lambda>i. house_distance_least w ! i) ?is"]
    by (simp add: atLeast0LessThan)
  have "fold max (map (\<lambda>i. house_distance_most w ! i) ?is) 0
    = Max (insert 0 ((\<lambda>i. house_distance_most w ! i) ` {..<house_num w - 1}))"
    using Max.set_eq_fold [of 0 "map (\<lambda>i. house_distance_most w ! i) ?is"]
    by (simp add: atLeast0LessThan)
  also have "\<dots> = Max ((\<lambda>i. house_distance_most w ! i) ` {..<house_num w - 1})"
    using assms(2) by (subst Max_insert) (auto simp: lessThan_empty_iff)
  finally show ?thesis
    unfolding main_result_def p using assms(1) lo
    by (subst result_loop_minmax) (auto simp: tables_ok_def)
qed

theorem main_result_minmax_witness:
  "main_result (path_graph\<lparr>house_distance_least := [4, 3, 0], house_distance_most := [5, 9, 77]\<rparr>)
   = Inr (3, 9)"
proof -
  let ?w = "path_graph\<lparr>house_distance_least := [4, 3, 0], house_distance_most := [5, 9, 77]\<rparr>"
  have "tables_ok ?w" "2 \<le> house_num ?w" by (simp_all add: tables_ok_def path_graph_def)
  note m = main_result_minmax [OF this]
  have "{..<house_num ?w - 1} = {0, 1}" by (auto simp: path_graph_def)
  from m [unfolded this] show ?thesis by (simp add: path_graph_def)
qed

section \<open>Where the program goes wrong\<close>

text \<open>with two houses at distance 3 the printed minimum is 3 and the printed maximum 1: the
  first house a search meets does not count for the maximum.\<close>

theorem two_houses_wrong_maximum:
  "run_main [0, 0, 0, 0] zeroed [2, 1, 4, 4, 3, 1, 1, 2, 2, 1, 3, 3, 1, 4] = Some (Inr (3, 1))"
  by code_simp

text \<open>a vertex stores only the last of its neighbouring houses, so a search can miss a
  house: with three houses around one vertex it runs past the end of \<open>search_array\<close>.\<close>

theorem shared_neighbour_out_of_bounds:
  "run_main [0, 0, 0] zeroed [3, 2, 3, 4, 4, 1, 1, 3, 2, 3, 4] = Some (Inl OutOfBounds)"
  by code_simp

text \<open>\<open>g_cnt_global\<close> is tested outside the lock, so with four houses three threads can
  pass the test together and the last one searches from a house that does not exist.\<close>

theorem counter_race_out_of_bounds:
  "run_main [0, 0, 1, 1, 2, 0, 0, 1, 1, 2, 0, 1, 1] zeroed
     [4, 1, 4, 7, 10, 10, 9, 1, 1, 2, 2, 1, 3, 3, 1, 4, 4, 1, 5, 5, 1, 6, 6, 1, 7, 7, 1, 8,
      8, 1, 9, 9, 1, 10] = Some (Inl OutOfBounds)"
  by code_simp

end
