(* ===== verification/FlagBfs.thy ===== *)
theory FlagBfs
  imports Prelude "HOL-Library.Word"
begin

unbundle bit_operations_syntax

text \<open>
  The reference solution of Project1 (src/Project1/project1_TA.cpp): one breadth-first
  search per house, all running at once and marking the vertices with one bit each by an
  atomic fetch-and-or, and \<open>MakeResult\<close>, which turns the meetings they recorded into the
  two distances. A step of a thread ends where it touches the shared marks.
\<close>

section \<open>Data\<close>

definition MAX_NUM_HOUSE :: nat where "MAX_NUM_HOUSE = 64"
definition MAX_EDGE_PER_VERTEX :: nat where "MAX_EDGE_PER_VERTEX = 10"
definition MAX_VERTICES :: nat where "MAX_VERTICES = 10000000"
definition MAX_DEPTH :: nat where "MAX_DEPTH = MAX_VERTICES + 1"

type_synonym flag_t = "64 word"

definition FLAG :: "nat \<Rightarrow> flag_t" where
  "FLAG x = push_bit x 1"

record VisitInfo =
  vid :: nat
  depth :: nat

text \<open>The global arrays. \<open>g_graph v\<close> are the cells \<open>1 \<dots> g_graph[v][0]\<close> of the row.\<close>

record ta_input =
  g_house :: "nat list"
  g_graph :: "nat \<Rightarrow> nat list"
  g_vertex_flag :: "nat \<Rightarrow> flag_t"
  g_full_flag :: flag_t

section \<open>InputGraph\<close>

fun ta_scan :: "nat list \<Rightarrow> (nat \<times> nat list) res" where
  "ta_scan [] = Inl Uninit"
| "ta_scan (x # xs) = Inr (x, xs)"

fun input_houses :: "nat \<Rightarrow> nat \<Rightarrow> nat list \<Rightarrow> (nat list \<times> nat list) res" where
  "input_houses i 0 inp = Inr ([], inp)"
| "input_houses i (Suc n) inp =
     (if i < MAX_NUM_HOUSE
      then rbind (ta_scan inp) (\<lambda>(h, inp1). rbind (input_houses (Suc i) n inp1) (\<lambda>(hs, inp2).
             Inr (h # hs, inp2)))
      else Inl OutOfBounds)"

fun mark_starts :: "nat \<Rightarrow> nat list \<Rightarrow> ta_input \<Rightarrow> ta_input res" where
  "mark_starts i [] g = Inr g"
| "mark_starts i (h # hs) g =
     (if h \<le> MAX_VERTICES
      then mark_starts (Suc i) hs (g\<lparr>g_vertex_flag := (g_vertex_flag g)(h := FLAG i),
             g_full_flag := g_full_flag g OR FLAG i\<rparr>)
      else Inl OutOfBounds)"

definition add_neighbour :: "nat \<Rightarrow> nat \<Rightarrow> ta_input \<Rightarrow> ta_input res" where
  "add_neighbour v n g =
     (if v \<le> MAX_VERTICES \<and> length (g_graph g v) < MAX_EDGE_PER_VERTEX
      then Inr (g\<lparr>g_graph := (g_graph g)(v := g_graph g v @ [n])\<rparr>) else Inl OutOfBounds)"

fun input_edges :: "nat \<Rightarrow> nat \<Rightarrow> ta_input \<Rightarrow> nat list \<Rightarrow> (ta_input \<times> nat list) res" where
  "input_edges v 0 g inp = Inr (g, inp)"
| "input_edges v (Suc n) g inp = rbind (ta_scan inp) (\<lambda>(neighbor, inp1).
     rbind (add_neighbour v neighbor g) (\<lambda>g1.
     rbind (add_neighbour neighbor v g1) (\<lambda>g2. input_edges v n g2 inp1)))"

fun input_lists :: "nat \<Rightarrow> ta_input \<Rightarrow> nat list \<Rightarrow> (ta_input \<times> nat list) res" where
  "input_lists 0 g inp = Inr (g, inp)"
| "input_lists (Suc n) g inp = rbind (ta_scan inp) (\<lambda>(v, inp1).
     rbind (ta_scan inp1) (\<lambda>(num_edge, inp2).
     rbind (input_edges v num_edge g inp2) (\<lambda>(g1, inp3). input_lists n g1 inp3)))"

definition InputGraph :: "nat list \<Rightarrow> ta_input res" where
  "InputGraph inp =
     rbind (ta_scan inp) (\<lambda>(num_house, inp1).
     rbind (input_houses 0 num_house inp1) (\<lambda>(hs, inp2).
     rbind (mark_starts 0 hs \<lparr>g_house = hs, g_graph = (\<lambda>_. []), g_vertex_flag = (\<lambda>_. 0),
       g_full_flag = 0\<rparr>) (\<lambda>g.
     rbind (ta_scan inp2) (\<lambda>(num_vertices, inp3).
     rbind (ta_scan inp3) (\<lambda>(num_edge_list, inp4).
     rbind (input_lists num_edge_list g inp4) (\<lambda>(g1, inp5). Inr g1))))))"

section \<open>FindMinMaxPath\<close>

datatype fpc = F_Head | F_Test | F_Or | F_Done

record fthread =
  fpc :: fpc
  front :: nat
  queue :: "nat list"
  curr_node :: nat
  curr_depth :: nat
  next_edge :: nat
  visited_flag :: flag_t
  fences :: "nat list"
  visit_info :: "nat \<Rightarrow> VisitInfo"

record ta_state =
  input :: ta_input
  fthreads :: "nat \<Rightarrow> fthread"
  g_have_a_nice_weekend :: nat

text \<open>\<open>rear\<close> is the length of the queue; the array has \<open>MAX_VERTICES\<close> cells.\<close>

definition enqueue :: "nat \<Rightarrow> fthread \<Rightarrow> fthread res" where
  "enqueue v t = (if length (queue t) < MAX_VERTICES then Inr (t\<lparr>queue := queue t @ [v]\<rparr>)
     else Inl OutOfBounds)"

text \<open>
  The code before the loop. The comparison of the uninitialised \<open>curr_node\<close> there changes
  only \<open>curr_node\<close>, which the loop overwrites before it reads it.
\<close>

definition start_search :: "nat \<Rightarrow> nat \<Rightarrow> fthread" where
  "start_search i h = \<lparr>fpc = F_Head, front = 0, queue = [h, MAX_DEPTH], curr_node = 0,
     curr_depth = 0, next_edge = 0, visited_flag = FLAG i, fences = [0],
     visit_info = (\<lambda>_. \<lparr>vid = 0, depth = 0\<rparr>)\<rparr>"

definition init_threads :: "ta_input \<Rightarrow> ta_state" where
  "init_threads g = \<lparr>input = g, fthreads = (\<lambda>i. start_search i (g_house g ! i)),
     g_have_a_nice_weekend = 0\<rparr>"

text \<open>
  The head of the loop: dequeue a vertex or a depth fence. It ends at \<open>F_Head\<close> again only
  after a fence that does not end the loop.
\<close>

definition head_step :: "flag_t \<Rightarrow> fthread \<Rightarrow> fthread res" where
  "head_step full t =
     (if front t < length (queue t)
      then let c = queue t ! front t; t1 = t\<lparr>curr_node := c, front := front t + 1\<rparr>
           in if c \<ge> MAX_DEPTH
              then rbind (enqueue (curr_depth t + 1 + MAX_DEPTH) (t1\<lparr>curr_depth := curr_depth t + 1\<rparr>))
                (\<lambda>t2. Inr (t2\<lparr>fences := fences t2 @ [front t],
                   fpc := if visited_flag t2 = full then F_Done else F_Head\<rparr>))
              else Inr (t1\<lparr>next_edge := 0, fpc := F_Test\<rparr>)
      else Inr (t\<lparr>fpc := F_Done\<rparr>))"

text \<open>The first read of a neighbour's marks.\<close>

definition test_step :: "nat \<Rightarrow> ta_input \<Rightarrow> fthread \<Rightarrow> fthread" where
  "test_step i g t =
     (if next_edge t < length (g_graph g (curr_node t))
      then if g_vertex_flag g (g_graph g (curr_node t) ! next_edge t) AND FLAG i \<noteq> 0
           then t\<lparr>next_edge := next_edge t + 1\<rparr> else t\<lparr>fpc := F_Or\<rparr>
      else t\<lparr>fpc := F_Head\<rparr>)"

text \<open>The loop over the bits of the threads met for the first time. The depth has 16 bits.\<close>

fun record_meetings :: "nat \<Rightarrow> nat \<Rightarrow> flag_t \<Rightarrow> nat \<Rightarrow> nat \<Rightarrow> (nat \<Rightarrow> VisitInfo) \<Rightarrow> (nat \<Rightarrow> VisitInfo)" where
  "record_meetings 0 thd f v d info = info"
| "record_meetings (Suc k) thd f v d info =
     (if f = 0 then info
      else record_meetings k (Suc thd) (drop_bit 1 f) v d
        (if f AND 1 \<noteq> 0 then info(thd := \<lparr>vid = v, depth = d mod 2 ^ 16\<rparr>) else info))"

text \<open>The fetch-and-or, the bookkeeping of what it returned, and the enqueue.\<close>

definition or_step :: "nat \<Rightarrow> ta_input \<Rightarrow> fthread \<Rightarrow> (ta_input \<times> fthread) res" where
  "or_step i g t =
     (let v = g_graph g (curr_node t) ! next_edge t;
          flag_before = g_vertex_flag g v;
          g1 = g\<lparr>g_vertex_flag := (g_vertex_flag g)(v := flag_before OR FLAG i)\<rparr>;
          new = flag_before AND NOT (visited_flag t);
          t1 = t\<lparr>visited_flag := visited_flag t OR new,
                 visit_info := record_meetings 64 0 new v (curr_depth t + 1) (visit_info t)\<rparr>
      in rbind (enqueue v t1) (\<lambda>t2. Inr (g1, t2\<lparr>next_edge := next_edge t2 + 1, fpc := F_Test\<rparr>)))"

definition FindMinMaxPath_step :: "nat \<Rightarrow> ta_state \<Rightarrow> ta_state res option" where
  "FindMinMaxPath_step i s =
     (let t = fthreads s i; g = input s
      in if i < length (g_house g) then
        (case fpc t of
           F_Head \<Rightarrow> Some (rbind (head_step (g_full_flag g) t) (\<lambda>t1.
             Inr (s\<lparr>fthreads := (fthreads s)(i := t1), g_have_a_nice_weekend :=
               if fpc t1 = F_Head then curr_depth t1 else g_have_a_nice_weekend s\<rparr>)))
         | F_Test \<Rightarrow> Some (Inr (s\<lparr>fthreads := (fthreads s)(i := test_step i g t)\<rparr>))
         | F_Or \<Rightarrow> Some (rbind (or_step i g t) (\<lambda>(g1, t1).
             Inr (s\<lparr>input := g1, fthreads := (fthreads s)(i := t1)\<rparr>)))
         | F_Done \<Rightarrow> None)
      else None)"

section \<open>MakeResult\<close>

definition pairs :: "nat \<Rightarrow> (nat \<times> nat) list" where
  "pairs n = concat (map (\<lambda>i. map (Pair i) [i + 1..<n]) [0..<n])"

definition pair_dist :: "ta_state \<Rightarrow> nat \<times> nat \<Rightarrow> nat" where
  "pair_dist s p = depth (visit_info (fthreads s (fst p)) (snd p))
     + depth (visit_info (fthreads s (snd p)) (fst p))"

fun min_max_loop :: "nat list \<Rightarrow> nat \<Rightarrow> nat \<Rightarrow> nat \<times> nat" where
  "min_max_loop [] mn mx = (mn, mx)"
| "min_max_loop (d # ds) mn mx =
     min_max_loop ds (if mn > d then d else mn) (if mx < d then d else mx)"

text \<open>The loop over cells \<open>j \<dots> hi - 1\<close> of a queue: the index where it stops.\<close>

function fence_scan :: "nat list \<Rightarrow> nat \<Rightarrow> nat \<Rightarrow> nat \<Rightarrow> nat res" where
  "fence_scan q j hi v =
     (if j < hi then rbind (aget q j) (\<lambda>x. if x = v then Inr j else fence_scan q (j + 1) hi v)
      else Inr j)"
  by pat_completeness auto
termination by (relation "measure (\<lambda>(q, j, hi, v). hi - j)") auto

text \<open>The stopping index and the upper fence it is compared with.\<close>

definition depth_scan :: "fthread \<Rightarrow> nat \<Rightarrow> nat \<Rightarrow> nat \<Rightarrow> (nat \<times> nat) res" where
  "depth_scan t a b v =
     rbind (aget (fences t) a) (\<lambda>lo. rbind (aget (fences t) b) (\<lambda>hi.
     rbind (fence_scan (queue t) lo hi v) (\<lambda>j. Inr (j, hi))))"

text \<open>Does a candidate pair for the minimum leave the loop? Then the distance is one less.\<close>

definition min_candidate :: "ta_state \<Rightarrow> nat \<times> nat \<Rightarrow> bool res" where
  "min_candidate s p =
     (let t1 = fthreads s (fst p); t2 = fthreads s (snd p);
          i1 = visit_info t1 (snd p); i2 = visit_info t2 (fst p)
      in rbind (depth_scan t2 (depth i2) (depth i2 + 1) (vid i1)) (\<lambda>(j2, hi2).
         if j2 = hi2 then Inr True
         else rbind (depth_scan t1 (depth i1) (depth i1 + 1) (vid i2)) (\<lambda>(j1, hi1).
           Inr (j1 = hi1))))"

text \<open>Does a candidate pair for the maximum leave the loop? A depth of 0 makes the index -1.\<close>

definition max_candidate :: "ta_state \<Rightarrow> nat \<times> nat \<Rightarrow> bool res" where
  "max_candidate s p =
     (let t1 = fthreads s (fst p); t2 = fthreads s (snd p);
          i1 = visit_info t1 (snd p); i2 = visit_info t2 (fst p)
      in if depth i2 = 0 then Inl OutOfBounds
         else rbind (depth_scan t2 (depth i2 - 1) (depth i2) (vid i1)) (\<lambda>(j2, hi2).
         if j2 < hi2 then Inr False
         else if depth i1 = 0 then Inl OutOfBounds
         else rbind (depth_scan t1 (depth i1 - 1) (depth i1) (vid i2)) (\<lambda>(j1, hi1).
           Inr (j1 = hi1))))"

fun any_candidate :: "('a \<Rightarrow> bool res) \<Rightarrow> 'a list \<Rightarrow> bool res" where
  "any_candidate f [] = Inr False"
| "any_candidate f (p # ps) = rbind (f p) (\<lambda>b. if b then Inr True else any_candidate f ps)"

definition MakeResult :: "ta_state \<Rightarrow> (int \<times> int) res" where
  "MakeResult s =
     (let ps = pairs (length (g_house (input s)));
          (mn, mx) = min_max_loop (map (pair_dist s) ps) 999999999 0
      in rbind (any_candidate (min_candidate s) (filter (\<lambda>p. pair_dist s p = mn) ps)) (\<lambda>shorter.
         rbind (any_candidate (max_candidate s) (filter (\<lambda>p. pair_dist s p = mx) ps)) (\<lambda>full.
           Inr (if shorter then int mn - 1 else int mn, if full then int mx else int mx - 1))))"

fun ta_run :: "nat list \<Rightarrow> ta_state \<Rightarrow> ta_state res option" where
  "ta_run [] s = Some (Inr s)"
| "ta_run (i # is) s = obind (FindMinMaxPath_step i s) (ta_run is)"

text \<open>\<open>main\<close>, with the threads run by the given schedule until all have returned.\<close>

definition ta_main :: "nat list \<Rightarrow> nat list \<Rightarrow> (int \<times> int) res option" where
  "ta_main sched inp =
     (case InputGraph inp of
        Inl e \<Rightarrow> Some (Inl e)
      | Inr g \<Rightarrow> obind (ta_run sched (init_threads g)) (\<lambda>s.
          if list_all (\<lambda>i. fpc (fthreads s i) = F_Done) [0..<length (g_house g)]
          then Some (MakeResult s) else None))"

end
