(* ===== verification/FlagProps.thy ===== *)
theory FlagProps
  imports FlagBfs Levels
begin

text \<open>
  Correctness of the searches of the reference solution of Project1: the depth fences keep
  \<open>curr_depth\<close> the depth of the dequeued vertices, whatever the other threads do, so what a
  thread records about a meeting is the length of a shortest path; and of two threads that
  marked one vertex at least one has met the other. The last part runs the program on inputs
  where \<open>MakeResult\<close> reads past its fences.
\<close>

unbundle bit_operations_syntax

section \<open>A queue with depth fences\<close>

definition fcount :: "nat list \<Rightarrow> nat" where
  "fcount q = length (filter (\<lambda>x. MAX_DEPTH \<le> x) q)"

lemma fcount_simps [simp]:
  "fcount [] = 0" "fcount (xs @ ys) = fcount xs + fcount ys"
  "fcount (x # xs) = (if MAX_DEPTH \<le> x then Suc (fcount xs) else fcount xs)"
  by (simp_all add: fcount_def)

lemma fcount_take_Suc:
  "p < length q \<Longrightarrow> fcount (take (Suc p) q) = (if MAX_DEPTH \<le> q ! p then Suc (fcount (take p q)) else fcount (take p q))"
  by (simp add: take_Suc_conv_app_nth)

lemma fcount_take_mono: "a \<le> b \<Longrightarrow> fcount (take a q) \<le> fcount (take b q)"
proof -
  assume "a \<le> b"
  then obtain c where "b = a + c" using le_Suc_ex by blast
  then show ?thesis by (simp add: take_add)
qed

text \<open>
  \<open>f\<close> is \<open>front\<close>, \<open>d\<close> is \<open>curr_depth\<close>, \<open>mk\<close> says which vertices carry the mark of the thread,
  and the neighbours of the first \<open>c\<close> entries are all in the queue.
\<close>

definition bq :: "(nat \<times> nat) set \<Rightarrow> nat \<Rightarrow> (nat \<Rightarrow> bool) \<Rightarrow> nat \<Rightarrow> nat list \<Rightarrow> nat \<Rightarrow> nat \<Rightarrow> bool" where
  "bq E s mk f q d c \<longleftrightarrow> f \<le> length q
     \<and> (\<forall>p < length q. q ! p < MAX_DEPTH \<longrightarrow> lev E s (q ! p) (fcount (take p q)))
     \<and> d = fcount (take f q) \<and> fcount q = Suc d
     \<and> (\<forall>v < MAX_DEPTH. mk v \<longleftrightarrow> v \<in> set q)
     \<and> (\<forall>v m. m \<le> d \<longrightarrow> lev E s v m \<longrightarrow> v \<in> set q \<and> v < MAX_DEPTH)
     \<and> (\<forall>p < c. q ! p < MAX_DEPTH \<longrightarrow> E `` {q ! p} \<subseteq> set q)"

lemma bqD:
  assumes "bq E s mk f q d c"
  shows "f \<le> length q" "p < length q \<Longrightarrow> q ! p < MAX_DEPTH \<Longrightarrow> lev E s (q ! p) (fcount (take p q))"
    "d = fcount (take f q)" "fcount q = Suc d" "v < MAX_DEPTH \<Longrightarrow> mk v \<longleftrightarrow> v \<in> set q"
    "m \<le> d \<Longrightarrow> lev E s v m \<Longrightarrow> v \<in> set q" "m \<le> d \<Longrightarrow> lev E s v m \<Longrightarrow> v < MAX_DEPTH"
    "p < c \<Longrightarrow> q ! p < MAX_DEPTH \<Longrightarrow> E `` {q ! p} \<subseteq> set q"
  using assms unfolding bq_def by blast+

lemma bq_marked:
  assumes b: "bq E s mk f q d c" and v: "v < MAX_DEPTH" "mk v"
  shows "\<exists>m. lev E s v m"
proof -
  from bqD(5) [OF b v(1)] v(2) obtain p where "p < length q" "q ! p = v" by (auto simp: in_set_conv_nth)
  with bqD(2) [OF b] v(1) show ?thesis by blast
qed

lemma bq_start:
  assumes "s < MAX_DEPTH" "\<And>v. v < MAX_DEPTH \<Longrightarrow> mk v \<longleftrightarrow> v = s"
  shows "bq E s mk 0 [s, MAX_DEPTH] 0 0"
proof -
  have "lev E s ([s, MAX_DEPTH] ! p) (fcount (take p [s, MAX_DEPTH]))"
    if "p < length [s, MAX_DEPTH]" "[s, MAX_DEPTH] ! p < MAX_DEPTH" for p
    using that by (cases p) auto
  with assms show ?thesis unfolding bq_def by auto
qed

lemma bq_vertex:
  assumes b: "bq E s mk f q d f" and f: "f < length q" "q ! f < MAX_DEPTH"
  shows "bq E s mk (Suc f) q d f"
  using b f fcount_take_Suc [OF f(1)] unfolding bq_def by simp

text \<open>Past the fence of depth \<open>d\<close> every vertex one level deeper is in the queue.\<close>

lemma bq_next_level:
  assumes b: "bq E s mk f q d f" and f: "f < length q" "MAX_DEPTH \<le> q ! f"
    and l: "lev E s v (Suc d)"
  shows "v \<in> set q"
proof -
  from lev_pred [OF l] obtain u where u: "lev E s u d" "(u, v) \<in> E" by blast
  from bqD(6,7) [OF b le_refl u(1)] obtain p where p: "p < length q" "q ! p = u" "u < MAX_DEPTH"
    by (auto simp: in_set_conv_nth)
  then have "fcount (take p q) = d" using bqD(2) [OF b] u(1) lev_unique by blast
  moreover have "Suc d \<le> fcount (take p q)" if "f < p"
    using fcount_take_mono [of "Suc f" p q] that fcount_take_Suc [OF f(1)] f(2) bqD(3) [OF b] by simp
  ultimately have "p < f" using f(2) p by (metis Suc_n_not_le_n linorder_neqE_nat not_le)
  with bqD(8) [OF b] p u(2) show ?thesis by blast
qed

lemma bq_fence:
  assumes b: "bq E s mk f q d f" and f: "f < length q" "MAX_DEPTH \<le> q ! f"
    and E: "\<And>u v. (u, v) \<in> E \<Longrightarrow> v < MAX_DEPTH" and x: "MAX_DEPTH \<le> x"
  shows "bq E s mk (Suc f) (q @ [x]) (Suc d) (Suc f)"
proof -
  have "lev E s ((q @ [x]) ! p) (fcount (take p (q @ [x])))"
    if "p < length (q @ [x])" "(q @ [x]) ! p < MAX_DEPTH" for p
    using that x bqD(2) [OF b, of p] by (cases "p = length q") (auto simp: nth_append split: if_splits)
  moreover have "v \<in> set q \<and> v < MAX_DEPTH" if "m \<le> Suc d" "lev E s v m" for v m
  proof (cases "m = Suc d")
    case True
    with lev_pred [of E s v d] that(2) E have "v < MAX_DEPTH" by blast
    with True that(2) bq_next_level [OF b f] show ?thesis by blast
  next
    case False
    with that bqD(6,7) [OF b] show ?thesis by (meson le_Suc_eq)
  qed
  moreover have "E `` {(q @ [x]) ! p} \<subseteq> set q" if "p < Suc f" "(q @ [x]) ! p < MAX_DEPTH" for p
    using that f bqD(8) [OF b, of p] by (cases "p = f") (auto simp: nth_append)
  moreover have "mk v \<longleftrightarrow> v \<in> set (q @ [x])" if "v < MAX_DEPTH" for v
    using that x bqD(5) [OF b] by auto
  ultimately show ?thesis
    using f x bqD(3,4) [OF b] fcount_take_Suc [OF f(1)] unfolding bq_def by fastforce
qed

lemma bq_new_level:
  assumes b: "bq E s mk (Suc f) q d f" and f: "f < length q" "q ! f < MAX_DEPTH"
    and v: "(q ! f, v) \<in> E" "v < MAX_DEPTH" "\<not> mk v"
  shows "lev E s v (Suc d)"
proof -
  have "lev E s (q ! f) d" using bqD(2,3) [OF b] fcount_take_Suc [OF f(1)] f by force
  from lev_edge [OF this v(1)] obtain k where k: "k \<le> Suc d" "lev E s v k" by blast
  with bqD(5,6) [OF b] v(2,3) have "\<not> k \<le> d" by blast
  with k show ?thesis by (metis le_SucE)
qed

lemma bq_enqueue:
  assumes b: "bq E s mk (Suc f) q d f" and f: "f < length q" "q ! f < MAX_DEPTH"
    and v: "(q ! f, v) \<in> E" "v < MAX_DEPTH" "\<not> mk v"
    and mk': "\<And>x. mk' x \<longleftrightarrow> mk x \<or> x = v"
  shows "bq E s mk' (Suc f) (q @ [v]) d f"
proof -
  have "lev E s ((q @ [v]) ! p) (fcount (take p (q @ [v])))"
    if "p < length (q @ [v])" "(q @ [v]) ! p < MAX_DEPTH" for p
    using that bqD(2,4) [OF b] bq_new_level [OF b f v]
    by (cases "p = length q") (auto simp: nth_append)
  moreover have "mk' x \<longleftrightarrow> x \<in> set (q @ [v])" if "x < MAX_DEPTH" for x
    using that bqD(5) [OF b] mk' by auto
  moreover have "x \<in> set (q @ [v]) \<and> x < MAX_DEPTH" if "m \<le> d" "lev E s x m" for x m
    using bqD(6,7) [OF b that] by simp
  moreover have "E `` {(q @ [v]) ! p} \<subseteq> set (q @ [v])" if "p < f" "(q @ [v]) ! p < MAX_DEPTH" for p
    using that f bqD(8) [OF b, of p] by (auto simp: nth_append)
  ultimately show ?thesis using f v bqD(3,4) [OF b] unfolding bq_def by simp
qed

lemma bq_close:
  assumes "bq E s mk (Suc f) q d f" "E `` {q ! f} \<subseteq> set q"
  shows "bq E s mk (Suc f) q d (Suc f)"
  using assms unfolding bq_def by (auto simp: less_Suc_eq)

section \<open>The bits of a meeting\<close>

lemma bit_FLAG [simp]: "bit (FLAG i) b \<longleftrightarrow> b = i \<and> i < 64"
  by (auto simp: FLAG_def bit_exp_iff)

lemma FLAG_test: "i < 64 \<Longrightarrow> x AND FLAG i \<noteq> 0 \<longleftrightarrow> bit x i"
proof -
  assume i: "i < 64"
  have "bit (x AND FLAG i) b \<longleftrightarrow> bit x i \<and> b = i" for b using i by (auto simp: bit_and_iff)
  then show ?thesis using bit_eqI [of "x AND FLAG i" 0] by (metis bit_0_eq bot_apply bot_bool_def)
qed

lemma record_meetings_eq:
  "record_meetings k thd f v d info b =
     (if thd \<le> b \<and> b < thd + k \<and> bit f (b - thd) then \<lparr>vid = v, depth = d mod 2 ^ 16\<rparr> else info b)"
proof (induction k arbitrary: thd f info)
  case (Suc k)
  have one: "f AND 1 \<noteq> 0 \<longleftrightarrow> bit f 0" by (simp add: and_one_eq odd_iff_mod_2_eq_one bit_0)
  show ?case
  proof (cases "b = thd")
    case True then show ?thesis by (simp add: Suc.IH one flip: True)
  next
    case False
    then have "Suc thd \<le> b \<Longrightarrow> bit (drop_bit 1 f) (b - Suc thd) \<longleftrightarrow> bit f (b - thd)"
      by (simp add: bit_drop_bit_eq Suc_diff_Suc)
    with False show ?thesis by (auto simp: Suc.IH)
  qed
qed simp

lemma record_all [simp]:
  fixes f :: flag_t
  shows "record_meetings 64 0 f v d info b = (if bit f b then \<lparr>vid = v, depth = d mod 2 ^ 16\<rparr> else info b)"
  using bit_imp_le_length [of f b] by (auto simp: record_meetings_eq)

section \<open>The invariant of the searches\<close>

definition ta_edges :: "ta_input \<Rightarrow> (nat \<times> nat) set" where
  "ta_edges g = {(u, v). v \<in> set (g_graph g u)}"

definition input_ok :: "ta_input \<Rightarrow> bool" where
  "input_ok g \<longleftrightarrow> length (g_house g) \<le> 64 \<and> (\<forall>h \<in> set (g_house g). h < MAX_DEPTH)
     \<and> (\<forall>u. set (g_graph g u) \<subseteq> {..<MAX_DEPTH})"

text \<open>What thread \<open>i\<close> has recorded about thread \<open>b\<close>.\<close>

definition met :: "ta_input \<Rightarrow> nat \<Rightarrow> nat \<Rightarrow> VisitInfo \<Rightarrow> bool" where
  "met g i b x \<longleftrightarrow> bit (g_vertex_flag g (vid x)) b
     \<and> (\<exists>d. lev (ta_edges g) (g_house g ! i) (vid x) d \<and> depth x = d mod 2 ^ 16)"

definition in_loop :: "fthread \<Rightarrow> bool" where
  "in_loop t \<longleftrightarrow> fpc t = F_Test \<or> fpc t = F_Or"

definition loop_ok :: "ta_input \<Rightarrow> nat \<Rightarrow> fthread \<Rightarrow> bool" where
  "loop_ok g i t \<longleftrightarrow>
     (in_loop t \<longrightarrow> 0 < front t \<and> curr_node t = queue t ! (front t - 1) \<and> curr_node t < MAX_DEPTH
        \<and> set (take (next_edge t) (g_graph g (curr_node t))) \<subseteq> set (queue t))
     \<and> (fpc t = F_Or \<longrightarrow> next_edge t < length (g_graph g (curr_node t))
        \<and> \<not> bit (g_vertex_flag g (g_graph g (curr_node t) ! next_edge t)) i)"

definition thread_ok :: "ta_input \<Rightarrow> nat \<Rightarrow> fthread \<Rightarrow> bool" where
  "thread_ok g i t \<longleftrightarrow>
     bq (ta_edges g) (g_house g ! i) (\<lambda>v. bit (g_vertex_flag g v) i) (front t) (queue t)
       (curr_depth t) (if in_loop t then front t - 1 else front t)
     \<and> loop_ok g i t \<and> bit (visited_flag t) i
     \<and> (\<forall>b. bit (visited_flag t) b \<longrightarrow> b = i \<or> met g i b (visit_info t b))"

definition all_met :: "ta_state \<Rightarrow> bool" where
  "all_met s \<longleftrightarrow> (\<forall>i j v. i < length (g_house (input s)) \<longrightarrow> j < length (g_house (input s)) \<longrightarrow> i \<noteq> j \<longrightarrow>
     bit (g_vertex_flag (input s) v) i \<longrightarrow> bit (g_vertex_flag (input s) v) j \<longrightarrow>
     bit (visited_flag (fthreads s i)) j \<or> bit (visited_flag (fthreads s j)) i)"

definition ta_inv :: "ta_state \<Rightarrow> bool" where
  "ta_inv s \<longleftrightarrow> input_ok (input s) \<and> all_met s
     \<and> (\<forall>i < length (g_house (input s)). thread_ok (input s) i (fthreads s i))"

lemma input_okD:
  assumes "input_ok g"
  shows "length (g_house g) \<le> 64" "(u, v) \<in> ta_edges g \<Longrightarrow> v < MAX_DEPTH"
    "j < length (g_graph g u) \<Longrightarrow> (u, g_graph g u ! j) \<in> ta_edges g"
  using assms by (auto simp: input_ok_def ta_edges_def)

lemma head_ok:
  assumes t: "thread_ok g i t" and g: "input_ok g" and pc: "fpc t = F_Head"
    and r: "head_step full t = Inr t'"
  shows "thread_ok g i t'" "visited_flag t' = visited_flag t"
proof -
  let ?E = "ta_edges g" and ?s = "g_house g ! i" and ?mk = "\<lambda>v. bit (g_vertex_flag g v) i"
  have b: "bq ?E ?s ?mk (front t) (queue t) (curr_depth t) (front t)"
    using t pc by (simp add: thread_ok_def in_loop_def)
  have vis: "bit (visited_flag t) i" "\<forall>b. bit (visited_flag t) b \<longrightarrow> b = i \<or> met g i b (visit_info t b)"
    using t by (simp_all add: thread_ok_def)
  consider (fin) "\<not> front t < length (queue t)"
    | (fence) "front t < length (queue t)" "MAX_DEPTH \<le> queue t ! front t"
    | (vertex) "front t < length (queue t)" "queue t ! front t < MAX_DEPTH" by linarith
  then have "thread_ok g i t' \<and> visited_flag t' = visited_flag t"
  proof cases
    case fin
    with r b vis show ?thesis by (auto simp: head_step_def thread_ok_def loop_ok_def in_loop_def)
  next
    case fence
    from bq_fence [where x = "curr_depth t + 1 + MAX_DEPTH", OF b fence input_okD(2) [OF g]]
    have "bq ?E ?s ?mk (Suc (front t)) (queue t @ [curr_depth t + 1 + MAX_DEPTH]) (Suc (curr_depth t)) (Suc (front t))"
      by simp
    with fence r vis show ?thesis
      by (auto simp: head_step_def thread_ok_def loop_ok_def in_loop_def enqueue_def Let_def split: if_splits)
  next
    case vertex
    with r vis bq_vertex [OF b vertex] show ?thesis
      by (auto simp: head_step_def thread_ok_def loop_ok_def in_loop_def Let_def)
  qed
  then show "thread_ok g i t'" "visited_flag t' = visited_flag t" by blast+
qed

lemma test_ok:
  assumes t: "thread_ok g i t" and pc: "fpc t = F_Test" and i: "i < 64" and g: "input_ok g"
  shows "thread_ok g i (test_step i g t)" "visited_flag (test_step i g t) = visited_flag t"
proof -
  let ?E = "ta_edges g" and ?s = "g_house g ! i" and ?mk = "\<lambda>v. bit (g_vertex_flag g v) i"
  let ?row = "g_graph g (curr_node t)" and ?f = "front t - 1"
  have b: "bq ?E ?s ?mk (Suc ?f) (queue t) (curr_depth t) ?f" and f: "0 < front t"
    and c: "curr_node t = queue t ! ?f" "curr_node t < MAX_DEPTH" "set (take (next_edge t) ?row) \<subseteq> set (queue t)"
    using t pc by (auto simp: thread_ok_def in_loop_def loop_ok_def)
  note vis = t [unfolded thread_ok_def, THEN conjunct2, THEN conjunct2]
  show "visited_flag (test_step i g t) = visited_flag t" by (simp add: test_step_def)
  consider (fin) "\<not> next_edge t < length ?row" | (skip) "next_edge t < length ?row" "?mk (?row ! next_edge t)"
    | (new) "next_edge t < length ?row" "\<not> ?mk (?row ! next_edge t)" by blast
  then show "thread_ok g i (test_step i g t)"
  proof cases
    case fin
    then have "?E `` {queue t ! ?f} \<subseteq> set (queue t)" using c by (auto simp: ta_edges_def)
    from bq_close [OF b this] fin vis f show ?thesis
      by (simp add: test_step_def thread_ok_def loop_ok_def in_loop_def)
  next
    case skip
    then have "?row ! next_edge t \<in> set (queue t)"
      using bqD(5) [OF b] input_okD(2) [OF g input_okD(3) [OF g skip(1)]] by blast
    with skip c b f vis i pc show ?thesis
      by (simp add: test_step_def thread_ok_def loop_ok_def in_loop_def FLAG_test take_Suc_conv_app_nth)
  next
    case new
    with c b f vis i pc show ?thesis
      by (simp add: test_step_def thread_ok_def loop_ok_def in_loop_def FLAG_test)
  qed
qed

text \<open>Marking a vertex for thread \<open>i\<close>.\<close>

definition mark :: "nat \<Rightarrow> nat \<Rightarrow> ta_input \<Rightarrow> ta_input" where
  "mark i v g = g\<lparr>g_vertex_flag := (g_vertex_flag g)(v := g_vertex_flag g v OR FLAG i)\<rparr>"

lemma mark_simps [simp]:
  "g_house (mark i v g) = g_house g" "g_graph (mark i v g) = g_graph g" "g_full_flag (mark i v g) = g_full_flag g"
  "ta_edges (mark i v g) = ta_edges g" "input_ok (mark i v g) = input_ok g"
  by (simp_all add: mark_def ta_edges_def input_ok_def)

lemma mark_bit: "bit (g_vertex_flag (mark i v g) x) b \<longleftrightarrow> bit (g_vertex_flag g x) b \<or> x = v \<and> b = i \<and> i < 64"
  by (auto simp: mark_def bit_or_iff)

lemma met_mark: "met g j b x \<Longrightarrow> met (mark i v g) j b x"
  by (auto simp: met_def mark_bit)

lemma mark_other:
  assumes "thread_ok g j t" "j \<noteq> i"
  shows "thread_ok (mark i v g) j t"
  using assms met_mark [of g j _ _ i v]
  by (auto simp: thread_ok_def loop_ok_def mark_bit)

lemma or_ok:
  assumes t: "thread_ok g i t" and g: "input_ok g" and pc: "fpc t = F_Or" and i: "i < 64"
    and r: "or_step i g t = Inr (g', t')"
  defines "v \<equiv> g_graph g (curr_node t) ! next_edge t"
  shows "g' = mark i v g" "thread_ok g' i t'"
    "bit (visited_flag t') b \<longleftrightarrow> bit (visited_flag t) b \<or> bit (g_vertex_flag g v) b"
proof -
  let ?E = "ta_edges g" and ?s = "g_house g ! i" and ?mk = "\<lambda>v. bit (g_vertex_flag g v) i" and ?f = "front t - 1"
  let ?new = "g_vertex_flag g v AND NOT (visited_flag t)"
  have b: "bq ?E ?s ?mk (Suc ?f) (queue t) (curr_depth t) ?f" and f: "0 < front t"
    and c: "curr_node t = queue t ! ?f" "queue t ! ?f < MAX_DEPTH"
      "set (take (next_edge t) (g_graph g (curr_node t))) \<subseteq> set (queue t)"
    and e: "next_edge t < length (g_graph g (curr_node t))" "\<not> ?mk v"
    using t pc by (auto simp: thread_ok_def in_loop_def loop_ok_def v_def)
  have vis: "bit (visited_flag t) i" "\<And>b. bit (visited_flag t) b \<Longrightarrow> b = i \<or> met g i b (visit_info t b)"
    using t by (simp_all add: thread_ok_def)
  have ev: "(queue t ! ?f, v) \<in> ?E" "v < MAX_DEPTH"
    using input_okD(2,3) [OF g] e(1) c(1) unfolding v_def by metis+
  have fl: "?f < length (queue t)" using bqD(1) [OF b] f by linarith
  have t': "g' = mark i v g" "t' = t\<lparr>visited_flag := visited_flag t OR ?new,
      visit_info := record_meetings 64 0 ?new v (curr_depth t + 1) (visit_info t),
      queue := queue t @ [v], next_edge := next_edge t + 1, fpc := F_Test\<rparr>"
    using r by (auto simp: or_step_def Let_def enqueue_def v_def mark_def split: if_splits)
  show "g' = mark i v g" by (rule t'(1))
  have new: "bit ?new x \<longleftrightarrow> bit (g_vertex_flag g v) x \<and> \<not> bit (visited_flag t) x" for x
    by (auto simp: bit_and_iff bit_not_iff dest: bit_imp_le_length)
  then show "bit (visited_flag t') b \<longleftrightarrow> bit (visited_flag t) b \<or> bit (g_vertex_flag g v) b"
    by (auto simp: t'(2) bit_or_iff)
  have "bq ?E ?s (\<lambda>x. bit (g_vertex_flag g' x) i) (Suc ?f) (queue t @ [v]) (curr_depth t) ?f"
    by (rule bq_enqueue [OF b fl c(2) ev e(2)]) (use i in \<open>auto simp: t'(1) mark_bit\<close>)
  moreover have "met g' i x (visit_info t' x)" if "bit (visited_flag t') x" "x \<noteq> i" for x
    using that vis(2) [of x] met_mark [of g i x _ i v] bq_new_level [OF b fl c(2) ev e(2)] new [of x]
    by (auto simp: t' bit_or_iff met_def mark_bit)
  moreover have "loop_ok g' i t'"
    using f c e fl by (auto simp: t' loop_ok_def in_loop_def nth_append take_Suc_conv_app_nth v_def)
  moreover have "in_loop t'" "front t' = Suc ?f" "queue t' = queue t @ [v]" "curr_depth t' = curr_depth t"
    "bit (visited_flag t') i" "ta_edges g' = ?E" "g_house g' = g_house g"
    using f vis(1) by (simp_all add: t' in_loop_def bit_or_iff)
  ultimately show "thread_ok g' i t'" unfolding thread_ok_def by auto
qed

lemma step_inv:
  assumes I: "ta_inv s" and r: "FindMinMaxPath_step i s = Some (Inr s')"
  shows "ta_inv s'" "g_house (input s') = g_house (input s)" "g_graph (input s') = g_graph (input s)"
proof -
  let ?g = "input s" and ?t = "fthreads s i" and ?n = "length (g_house (input s))"
  have g: "input_ok ?g" and M: "all_met s" and T: "\<And>j. j < ?n \<Longrightarrow> thread_ok ?g j (fthreads s j)"
    using I by (auto simp: ta_inv_def)
  have i: "i < ?n" using r by (auto simp: FindMinMaxPath_step_def Let_def split: if_splits)
  then have i64: "i < 64" using input_okD(1) [OF g] by linarith
  have "ta_inv s' \<and> g_house (input s') = g_house ?g \<and> g_graph (input s') = g_graph ?g"
  proof (cases "fpc ?t")
    case F_Head
    with r i obtain t1 where t1: "head_step (g_full_flag ?g) ?t = Inr t1"
      and s': "input s' = ?g" "fthreads s' = (fthreads s)(i := t1)"
      by (auto simp: FindMinMaxPath_step_def Let_def rbind_eq_Inr_iff)
    from head_ok [OF T [OF i] g F_Head t1] T M g show ?thesis
      by (auto simp: s' ta_inv_def all_met_def)
  next
    case F_Test
    with r i have s': "input s' = ?g" "fthreads s' = (fthreads s)(i := test_step i ?g ?t)"
      by (auto simp: FindMinMaxPath_step_def Let_def)
    from test_ok [OF T [OF i] F_Test i64 g] T M g show ?thesis
      by (auto simp: s' ta_inv_def all_met_def)
  next
    case F_Or
    with r i obtain g1 t1 where t1: "or_step i ?g ?t = Inr (g1, t1)"
      and s': "input s' = g1" "fthreads s' = (fthreads s)(i := t1)"
      by (auto simp: FindMinMaxPath_step_def Let_def rbind_eq_Inr_iff)
    define v where "v = g_graph ?g (curr_node ?t) ! next_edge ?t"
    note O = or_ok [OF T [OF i] g F_Or i64 t1, folded v_def]
    have "all_met s'"
      using M unfolding all_met_def s' O(1) mark_simps by (auto simp: mark_bit O(3))
    then show ?thesis using O(1,2) T g mark_other [of ?g _ _ i v] by (auto simp: s' ta_inv_def)
  next
    case F_Done
    with r i show ?thesis by (simp add: FindMinMaxPath_step_def Let_def)
  qed
  then show "ta_inv s'" "g_house (input s') = g_house ?g" "g_graph (input s') = g_graph ?g" by blast+
qed

lemma run_inv_ta:
  "ta_inv s \<Longrightarrow> ta_run is s = Some (Inr s') \<Longrightarrow>
     ta_inv s' \<and> g_house (input s') = g_house (input s) \<and> g_graph (input s') = g_graph (input s)"
proof (induction "is" arbitrary: s)
  case (Cons i "is")
  then obtain s1 where s1: "FindMinMaxPath_step i s = Some (Inr s1)" "ta_run is s1 = Some (Inr s')"
    by (auto simp: obind_def split: option.splits sum.splits)
  from step_inv [OF Cons.prems(1) s1(1)] Cons.IH [OF _ s1(2)] show ?case by simp
qed simp

section \<open>The input\<close>

lemma input_houses_length: "input_houses i n inp = Inr (hs, r) \<Longrightarrow> i \<le> 64 \<Longrightarrow> i + length hs \<le> 64"
proof (induction i n inp arbitrary: hs r rule: input_houses.induct)
  case (2 i n inp)
  then show ?case by (fastforce simp: rbind_eq_Inr_iff MAX_NUM_HOUSE_def split: if_splits)
qed simp

lemma mark_starts_ok:
  assumes "mark_starts i hs g = Inr g'" "distinct hs" "i + length hs \<le> 64"
  shows "(\<forall>h \<in> set hs. h \<le> MAX_VERTICES) \<and> (\<forall>v. v \<notin> set hs \<longrightarrow> g_vertex_flag g' v = g_vertex_flag g v)
    \<and> (\<forall>k < length hs. g_vertex_flag g' (hs ! k) = FLAG (i + k))"
  using assms
proof (induction i hs g rule: mark_starts.induct)
  case (2 i h hs g)
  then have h: "h \<le> MAX_VERTICES" "h \<notin> set hs" by (auto split: if_splits)
  note IH = 2(1) [OF h(1)]
  have "g_vertex_flag g' ((h # hs) ! k) = FLAG (i + k)" if "k < length (h # hs)" for k
    using that IH 2 h by (cases k) auto
  with IH 2 h show ?case by auto
qed simp

lemma mark_starts_frame:
  "mark_starts i hs g = Inr g' \<Longrightarrow> g_house g' = g_house g \<and> g_graph g' = g_graph g"
  by (induction i hs g rule: mark_starts.induct) (auto split: if_splits)

definition rows_ok :: "ta_input \<Rightarrow> bool" where
  "rows_ok g \<longleftrightarrow> (\<forall>u. set (g_graph g u) \<subseteq> {..<MAX_DEPTH}) \<and> sym (ta_edges g)"

lemma edge_ok:
  assumes g: "rows_ok g" and a: "add_neighbour v n g = Inr g1" "add_neighbour n v g1 = Inr g2"
  shows "rows_ok g2 \<and> g_house g2 = g_house g \<and> g_vertex_flag g2 = g_vertex_flag g"
proof -
  have b: "v < MAX_DEPTH" "n < MAX_DEPTH" using a by (auto simp: add_neighbour_def MAX_DEPTH_def split: if_splits)
  have g2: "g2 = g\<lparr>g_graph := g_graph g2\<rparr>"
    and r: "set (g_graph g2 u) = set (g_graph g u) \<union> (if u = v then {n} else {}) \<union> (if u = n then {v} else {})" for u
    using a by (auto simp: add_neighbour_def split: if_splits)
  have "(x, y) \<in> ta_edges g2 \<longleftrightarrow> (x, y) \<in> ta_edges g \<or> (x, y) = (v, n) \<or> (x, y) = (n, v)" for x y
    by (auto simp: ta_edges_def r)
  then have "sym (ta_edges g2)" using g unfolding rows_ok_def sym_def by auto
  moreover have "set (g_graph g2 u) \<subseteq> {..<MAX_DEPTH}" for u using g b unfolding rows_ok_def r by auto
  ultimately show ?thesis using g2 unfolding rows_ok_def by (metis ta_input.select_convs ta_input.surjective ta_input.update_convs(2))
qed

lemma input_edges_ok:
  "input_edges v n g inp = Inr (g', r) \<Longrightarrow> rows_ok g \<Longrightarrow>
     rows_ok g' \<and> g_house g' = g_house g \<and> g_vertex_flag g' = g_vertex_flag g"
proof (induction v n g inp rule: input_edges.induct)
  case (2 v n g inp)
  then obtain x inp1 g1 g2 where
    s: "ta_scan inp = Inr (x, inp1)" "add_neighbour v x g = Inr g1" "add_neighbour x v g1 = Inr g2"
      "input_edges v n g2 inp1 = Inr (g', r)"
    by (auto simp: rbind_eq_Inr_iff)
  from edge_ok [OF 2(3) s(2,3)] 2(1) [OF s(4)] show ?case by simp
qed simp

lemma input_lists_ok:
  "input_lists n g inp = Inr (g', r) \<Longrightarrow> rows_ok g \<Longrightarrow>
     rows_ok g' \<and> g_house g' = g_house g \<and> g_vertex_flag g' = g_vertex_flag g"
proof (induction n g inp rule: input_lists.induct)
  case (2 n g inp)
  then obtain x inp1 m inp2 g1 inp3 where
    s: "ta_scan inp = Inr (x, inp1)" "ta_scan inp1 = Inr (m, inp2)" "input_edges x m g inp2 = Inr (g1, inp3)"
      "input_lists n g1 inp3 = Inr (g', r)"
    by (auto simp: rbind_eq_Inr_iff)
  from input_edges_ok [OF s(3) 2(3)] 2(1) [OF s(4)] show ?case by simp
qed simp

lemma InputGraph_ok:
  assumes r: "InputGraph inp = Inr g" and d: "distinct (g_house g)"
  shows "input_ok g" "sym (ta_edges g)"
    "bit (g_vertex_flag g v) k \<longleftrightarrow> k < length (g_house g) \<and> g_house g ! k = v"
proof -
  from r obtain m inp1 hs inp2 g0 inp3 nv inp4 ne inp5 where s: "input_houses 0 m inp1 = Inr (hs, inp2)"
    "mark_starts 0 hs \<lparr>g_house = hs, g_graph = (\<lambda>_. []), g_vertex_flag = (\<lambda>_. 0), g_full_flag = 0\<rparr> = Inr g0"
    "input_lists ne g0 inp4 = Inr (g, inp5)"
    by (auto simp: InputGraph_def rbind_eq_Inr_iff)
  note len = input_houses_length [OF s(1), simplified]
  have "rows_ok g0" "g_house g0 = hs"
    using mark_starts_frame [OF s(2)] by (auto simp: rows_ok_def ta_edges_def sym_def)
  with input_lists_ok [OF s(3)] have g: "rows_ok g" "g_house g = hs" "g_vertex_flag g = g_vertex_flag g0" by auto
  from mark_starts_ok [OF s(2)] d g len have m: "\<forall>h \<in> set hs. h \<le> MAX_VERTICES"
    "v \<notin> set hs \<Longrightarrow> g_vertex_flag g v = 0" "\<And>k. k < length hs \<Longrightarrow> g_vertex_flag g (hs ! k) = FLAG k"
    by auto
  show "input_ok g" "sym (ta_edges g)" using g m len by (auto simp: input_ok_def rows_ok_def MAX_DEPTH_def)
  show "bit (g_vertex_flag g v) k \<longleftrightarrow> k < length (g_house g) \<and> g_house g ! k = v"
  proof (cases "v \<in> set hs")
    case True
    then obtain j where "j < length hs" "v = hs ! j" by (auto simp: in_set_conv_nth)
    with m(3) d g(2) len show ?thesis by (auto simp: nth_eq_iff_index_eq)
  qed (use m(2) g(2) in auto)
qed

lemma init_inv:
  assumes "InputGraph inp = Inr g" "distinct (g_house g)"
  shows "ta_inv (init_threads g)"
proof -
  note G = InputGraph_ok [OF assms]
  have "thread_ok g i (start_search i (g_house g ! i))" if i: "i < length (g_house g)" for i
  proof -
    have "bq (ta_edges g) (g_house g ! i) (\<lambda>v. bit (g_vertex_flag g v) i) 0 [g_house g ! i, MAX_DEPTH] 0 0"
      by (rule bq_start) (use i G(1) in \<open>auto simp: G(3) input_ok_def\<close>)
    with i G(1) show ?thesis
      by (auto simp: thread_ok_def start_search_def loop_ok_def in_loop_def input_ok_def)
  qed
  moreover have "all_met (init_threads g)" 
    unfolding all_met_def init_threads_def using assms(2) by (auto simp: G(3) nth_eq_iff_index_eq)
  ultimately show ?thesis using G(1) by (simp add: ta_inv_def init_threads_def)
qed

section \<open>Properties\<close>

text \<open>Rules that run the model on a concrete input.\<close>

lemmas numeral_calls =
  input_houses.simps(2) [of _ "pred_numeral n" for n, folded numeral_eq_Suc]
  input_edges.simps(2) [of _ "pred_numeral n" for n, folded numeral_eq_Suc]
  input_lists.simps(2) [of "pred_numeral n" for n, folded numeral_eq_Suc]
  input_houses.simps(2) [of _ 0, folded One_nat_def]
  input_edges.simps(2) [of _ 0, folded One_nat_def]
  input_lists.simps(2) [of 0, folded One_nat_def]

lemma FLAG_small: "FLAG 0 = 1" "FLAG (Suc 0) = 2" "FLAG (Suc (Suc 0)) = 4" "FLAG 1 = 2" "FLAG 2 = 4"
  by (simp_all add: FLAG_def)

lemmas ta_run_defs = InputGraph_def add_neighbour_def MAX_NUM_HOUSE_def MAX_EDGE_PER_VERTEX_def
  MAX_VERTICES_def MAX_DEPTH_def numeral_calls FLAG_small FindMinMaxPath_step_def init_threads_def
  start_search_def head_step_def test_step_def or_step_def enqueue_def Let_def replicate_numeral

lemma pairs_3: "pairs (Suc (Suc (Suc 0))) = [(0, 1), (0, 2), (1, 2)]"
  by code_simp

lemmas ta_result_defs = MakeResult_def pairs_3 pair_dist_def min_candidate_def max_candidate_def
  depth_scan_def Let_def fence_scan.simps

text \<open>The state a schedule leads to from an input with distinct houses.\<close>

definition ta_ends :: "nat list \<Rightarrow> nat list \<Rightarrow> (ta_input \<Rightarrow> ta_state \<Rightarrow> bool) \<Rightarrow> bool" where
  "ta_ends sched inp P = (case InputGraph inp of Inl e \<Rightarrow> False
     | Inr g \<Rightarrow> distinct (g_house g) \<and> (case ta_run sched (init_threads g) of
         Some (Inr s) \<Rightarrow> P g s | _ \<Rightarrow> False))"

lemma ta_endsE:
  assumes "ta_ends sched inp P"
  obtains g s where "InputGraph inp = Inr g" "distinct (g_house g)"
    "ta_run sched (init_threads g) = Some (Inr s)" "P g s"
proof -
  from assms obtain g where g: "InputGraph inp = Inr g" by (cases "InputGraph inp") (auto simp: ta_ends_def)
  with assms obtain r where "ta_run sched (init_threads g) = Some r"
    by (cases "ta_run sched (init_threads g)") (auto simp: ta_ends_def)
  with assms g show thesis by (cases r) (auto simp: ta_ends_def intro: that)
qed

text \<open>Houses 1 and 3 at the ends of a path of three vertices.\<close>

definition two_ends :: "nat list" where
  "two_ends = [2, 1, 3, 3, 2, 1, 1, 2, 2, 1, 3]"



text \<open>C19: if two threads have marked the same vertex, at least one of them has met the other.\<close>

theorem shared_vertex_is_a_meeting:
  assumes "InputGraph inp = Inr g" "distinct (g_house g)" "ta_run sched (init_threads g) = Some (Inr s)"
    and "i < length (g_house g)" "j < length (g_house g)" "i \<noteq> j"
    and "bit (g_vertex_flag (input s) v) i" "bit (g_vertex_flag (input s) v) j"
  shows "bit (visited_flag (fthreads s i)) j \<or> bit (visited_flag (fthreads s j)) i"
proof -
  have "ta_inv s" "g_house (input s) = g_house g"
    using run_inv_ta [OF init_inv [OF assms(1,2)] assms(3)] by (auto simp: init_threads_def)
  with assms(4-8) show ?thesis unfolding ta_inv_def all_met_def by metis
qed

theorem shared_vertex_is_a_meeting_witness:
  "\<exists>g s. ta_run [0, 0, 0, 1, 1, 1] (init_threads g) = Some (Inr s)
     \<and> (bit (visited_flag (fthreads s 0)) 1 \<or> bit (visited_flag (fthreads s 1)) 0)"
proof -
  have "ta_ends [0, 0, 0, 1, 1, 1] two_ends (\<lambda>g s. length (g_house g) = 2
      \<and> bit (g_vertex_flag (input s) 2) 0 \<and> bit (g_vertex_flag (input s) 2) 1)"
    by (simp add: ta_ends_def two_ends_def ta_run_defs)
  then obtain g s where s: "InputGraph two_ends = Inr g" "distinct (g_house g)"
    "ta_run [0, 0, 0, 1, 1, 1] (init_threads g) = Some (Inr s)" "length (g_house g) = 2"
    "bit (g_vertex_flag (input s) 2) 0" "bit (g_vertex_flag (input s) 2) 1"
    by (rule ta_endsE) blast
  with shared_vertex_is_a_meeting [OF s(1-3), of 0 1 2] show ?thesis by auto
qed

declare fence_scan.simps [simp del]

text \<open>Houses 1, 3 and 5 on a path of five vertices.\<close>

definition three_on_a_path :: "nat list" where
  "three_on_a_path = [3, 1, 3, 5, 5, 4, 1, 1, 2, 2, 1, 3, 3, 1, 4, 4, 1, 5]"

text \<open>The queue and the fences of a thread, and what it recorded about the other two.\<close>

definition saw :: "ta_state \<Rightarrow> nat \<Rightarrow> nat list \<Rightarrow> nat list \<Rightarrow> nat \<times> nat \<times> nat \<Rightarrow> nat \<times> nat \<times> nat \<Rightarrow> bool" where
  "saw s i q f a b \<longleftrightarrow> fpc (fthreads s i) = F_Done \<and> queue (fthreads s i) = q \<and> fences (fthreads s i) = f
     \<and> visit_info (fthreads s i) (fst a) = \<lparr>vid = fst (snd a), depth = snd (snd a)\<rparr>
     \<and> visit_info (fthreads s i) (fst b) = \<lparr>vid = fst (snd b), depth = snd (snd b)\<rparr>"

lemma in_turn_run:
  "ta_ends (replicate 23 0 @ replicate 18 1 @ replicate 5 2) three_on_a_path (\<lambda>g s.
     g_house g = [1, 3, 5] \<and> g_house (input s) = [1, 3, 5]
     \<and> saw s 0 [1, 10000001, 2, 10000002, 3, 10000003, 4, 10000004, 5, 10000005] [0, 1, 3, 5, 7] (1, 3, 2) (2, 5, 4)
     \<and> saw s 1 [3, 10000001, 2, 4, 10000002, 1, 5, 10000003] [0, 1, 4] (0, 2, 1) (2, 5, 2)
     \<and> saw s 2 [5, 10000001, 4, 10000002] [0, 1] (0, 4, 1) (1, 4, 1))"
  by (simp add: ta_ends_def three_on_a_path_def saw_def ta_run_defs)

lemma round_robin_run:
  "ta_ends (concat (replicate 7 [0, 1, 2]) @ concat (replicate 4 [0, 2]) @ replicate 6 2) three_on_a_path (\<lambda>g s.
     g_house g = [1, 3, 5] \<and> g_house (input s) = [1, 3, 5]
     \<and> saw s 0 [1, 10000001, 2, 10000002, 3, 10000003] [0, 1, 3] (1, 3, 2) (2, 3, 2)
     \<and> saw s 1 [3, 10000001, 2, 4, 10000002] [0, 1] (0, 2, 1) (2, 4, 1)
     \<and> saw s 2 [5, 10000001, 4, 10000002, 3, 10000003, 2, 10000004] [0, 1, 3, 5] (0, 2, 3) (1, 3, 2))"
  by (simp add: ta_ends_def three_on_a_path_def saw_def ta_run_defs)

lemma ta_main_run:
  assumes "InputGraph inp = Inr g" "ta_run sched (init_threads g) = Some (Inr s)"
    "\<And>i. i < length (g_house g) \<Longrightarrow> fpc (fthreads s i) = F_Done"
  shows "ta_main sched inp = Some (MakeResult s)"
  using assms by (simp add: ta_main_def list_all_iff)

text \<open>C20: the result depends on the schedule. On the path of five vertices the threads run one
  after the other give the distances 2 and 4; run in turns they make \<open>MakeResult\<close> read a
  fence that was never pushed, because a thread that has met all others stops before it.\<close>

theorem MakeResult_missing_fence:
  "ta_main (replicate 23 0 @ replicate 18 1 @ replicate 5 2) three_on_a_path = Some (Inr (2, 4))
   \<and> ta_main (concat (replicate 7 [0, 1, 2]) @ concat (replicate 4 [0, 2]) @ replicate 6 2)
       three_on_a_path = Some (Inl OutOfBounds)"
proof
  obtain g s where s: "InputGraph three_on_a_path = Inr g"
    "ta_run (replicate 23 0 @ replicate 18 1 @ replicate 5 2) (init_threads g) = Some (Inr s)"
    "g_house g = [1, 3, 5]" "g_house (input s) = [1, 3, 5]"
    "saw s 0 [1, 10000001, 2, 10000002, 3, 10000003, 4, 10000004, 5, 10000005] [0, 1, 3, 5, 7] (1, 3, 2) (2, 5, 4)"
    "saw s 1 [3, 10000001, 2, 4, 10000002, 1, 5, 10000003] [0, 1, 4] (0, 2, 1) (2, 5, 2)"
    "saw s 2 [5, 10000001, 4, 10000002] [0, 1] (0, 4, 1) (1, 4, 1)"
    by (rule ta_endsE [OF in_turn_run]) blast
  have "fpc (fthreads s i) = F_Done" if "i < length (g_house g)" for i
    using that s(3,5-7) by (auto simp: saw_def less_Suc_eq numeral_2_eq_2)
  then have "ta_main (replicate 23 0 @ replicate 18 1 @ replicate 5 2) three_on_a_path = Some (MakeResult s)"
    by (rule ta_main_run [OF s(1,2)])
  moreover have "MakeResult s = Inr (2, 4)"
    using s(4-7) by (simp add: ta_result_defs saw_def)
  ultimately show "ta_main (replicate 23 0 @ replicate 18 1 @ replicate 5 2) three_on_a_path = Some (Inr (2, 4))"
    by simp
next
  let ?sched = "concat (replicate 7 [0, 1, 2]) @ concat (replicate 4 [0, 2]) @ replicate 6 2"
  obtain g s where s: "InputGraph three_on_a_path = Inr g"
    "ta_run ?sched (init_threads g) = Some (Inr s)"
    "g_house g = [1, 3, 5]" "g_house (input s) = [1, 3, 5]"
    "saw s 0 [1, 10000001, 2, 10000002, 3, 10000003] [0, 1, 3] (1, 3, 2) (2, 3, 2)"
    "saw s 1 [3, 10000001, 2, 4, 10000002] [0, 1] (0, 2, 1) (2, 4, 1)"
    "saw s 2 [5, 10000001, 4, 10000002, 3, 10000003, 2, 10000004] [0, 1, 3, 5] (0, 2, 3) (1, 3, 2)"
    by (rule ta_endsE [OF round_robin_run]) blast
  have "fpc (fthreads s i) = F_Done" if "i < length (g_house g)" for i
    using that s(3,5-7) by (auto simp: saw_def less_Suc_eq numeral_2_eq_2)
  then have "ta_main ?sched three_on_a_path = Some (MakeResult s)" by (rule ta_main_run [OF s(1,2)])
  moreover have "MakeResult s = Inl OutOfBounds"
    using s(4-7) by (simp add: ta_result_defs saw_def)
  ultimately show "ta_main ?sched three_on_a_path = Some (Inl OutOfBounds)" by simp
qed

end
