(* ===== verification/UtList.thy ===== *)
theory UtList
  imports Prelude
begin

text \<open>
  The intrusive two-way list of InnoDB (storage/xtradb/include/ut0lst.h), with the lock-free
  \<open>ut_list_free_prepend\<close> and \<open>ut_list_free_append\<close> this repository put in place of the
  original code. Here each function runs by itself; the theory \<open>UtListConc\<close> interleaves them.
  The element and the list node in it share one address, the offset between them being fixed.
\<close>

section \<open>Data\<close>

record ut_list_node =
  uprev :: ptr
  unext :: ptr
  mark_field :: int

type_synonym ut_heap = "addr \<rightharpoonup> ut_list_node"

record ut_list_base =
  lcount :: "64 word"
  lstart :: ptr
  lend :: ptr

type_synonym ut_state = "ut_heap \<times> ut_list_base"

definition UT_LIST_INIT :: ut_list_base where
  "UT_LIST_INIT = \<lparr>lcount = 0, lstart = None, lend = None\<rparr>"

text \<open>A write to a field of the node behind a pointer.\<close>

definition wr :: "ut_heap \<Rightarrow> ptr \<Rightarrow> (ut_list_node \<Rightarrow> ut_list_node) \<Rightarrow> ut_heap res" where
  "wr h p f = rbind (deref h p) (\<lambda>n. Inr (h(the p \<mapsto> f n)))"

section \<open>Operations\<close>

definition ut_list_free_prepend :: "addr \<Rightarrow> ut_state \<Rightarrow> ut_state res" where
  "ut_list_free_prepend elem s =
     (let (h, l) = s in
      rbind (wr h (Some elem) (uprev_update (\<lambda>_. None))) (\<lambda>h1.
      let prev = lstart l; l1 = l\<lparr>lstart := Some elem\<rparr> in
      rbind (wr h1 (Some elem) (unext_update (\<lambda>_. prev))) (\<lambda>h2.
      rbind (if prev \<noteq> None then wr h2 prev (uprev_update (\<lambda>_. Some elem)) else Inr h2) (\<lambda>h3.
      let l2 = (if lend l1 = None then l1\<lparr>lend := Some elem\<rparr> else l1) in
      Inr (h3, l2\<lparr>lcount := lcount l2 + 1\<rparr>)))))"

definition ut_list_free_append :: "addr \<Rightarrow> ut_state \<Rightarrow> ut_state res" where
  "ut_list_free_append elem s =
     (let (h, l) = s in
      rbind (wr h (Some elem) (unext_update (\<lambda>_. None))) (\<lambda>h1.
      let nxt = lend l; l1 = l\<lparr>lend := Some elem\<rparr> in
      rbind (wr h1 (Some elem) (uprev_update (\<lambda>_. nxt))) (\<lambda>h2.
      rbind (if nxt \<noteq> None then wr h2 nxt (unext_update (\<lambda>_. Some elem)) else Inr h2) (\<lambda>h3.
      let l2 = (if lstart l1 = None then l1\<lparr>lstart := Some elem\<rparr> else l1) in
      Inr (h3, l2\<lparr>lcount := lcount l2 + 1\<rparr>)))))"

definition ut_list_prepend :: "addr \<Rightarrow> ut_state \<Rightarrow> ut_state res" where
  "ut_list_prepend elem s = ut_list_free_prepend elem s"

definition ut_list_append :: "addr \<Rightarrow> ut_state \<Rightarrow> ut_state res" where
  "ut_list_append elem s = ut_list_free_append elem s"

text \<open>The original bodies, which follow the \<open>return\<close> and are never reached.\<close>

definition ut_list_prepend_orig :: "addr \<Rightarrow> ut_state \<Rightarrow> ut_state res" where
  "ut_list_prepend_orig elem s =
     (let (h, l) = s in
      rbind (wr h (Some elem) (uprev_update (\<lambda>_. None))) (\<lambda>h1.
      rbind (wr h1 (Some elem) (unext_update (\<lambda>_. lstart l))) (\<lambda>h2.
      rbind (if lstart l \<noteq> None then wr h2 (lstart l) (uprev_update (\<lambda>_. Some elem)) else Inr h2) (\<lambda>h3.
      let l1 = l\<lparr>lstart := Some elem\<rparr>;
          l2 = (if lend l1 = None then l1\<lparr>lend := Some elem\<rparr> else l1)
      in Inr (h3, l2\<lparr>lcount := lcount l2 + 1\<rparr>)))))"

definition ut_list_append_orig :: "addr \<Rightarrow> ut_state \<Rightarrow> ut_state res" where
  "ut_list_append_orig elem s =
     (let (h, l) = s in
      rbind (wr h (Some elem) (unext_update (\<lambda>_. None))) (\<lambda>h1.
      rbind (wr h1 (Some elem) (uprev_update (\<lambda>_. lend l))) (\<lambda>h2.
      rbind (if lend l \<noteq> None then wr h2 (lend l) (unext_update (\<lambda>_. Some elem)) else Inr h2) (\<lambda>h3.
      let l1 = l\<lparr>lend := Some elem\<rparr>;
          l2 = (if lstart l1 = None then l1\<lparr>lstart := Some elem\<rparr> else l1)
      in Inr (h3, l2\<lparr>lcount := lcount l2 + 1\<rparr>)))))"

definition ut_list_insert :: "addr \<Rightarrow> addr \<Rightarrow> ut_state \<Rightarrow> ut_state res" where
  "ut_list_insert elem1 elem2 s =
     (let (h, l) = s in
      rbind (wr h (Some elem2) (uprev_update (\<lambda>_. Some elem1))) (\<lambda>h1.
      rbind (deref h1 (Some elem1)) (\<lambda>n1.
      rbind (wr h1 (Some elem2) (unext_update (\<lambda>_. unext n1))) (\<lambda>h2.
      rbind (deref h2 (Some elem1)) (\<lambda>n1.
      rbind (if unext n1 \<noteq> None then wr h2 (unext n1) (uprev_update (\<lambda>_. Some elem2)) else Inr h2) (\<lambda>h3.
      rbind (wr h3 (Some elem1) (unext_update (\<lambda>_. Some elem2))) (\<lambda>h4.
      let l1 = (if lend l = Some elem1 then l\<lparr>lend := Some elem2\<rparr> else l)
      in Inr (h4, l1\<lparr>lcount := lcount l1 + 1\<rparr>))))))))"

definition ut_list_remove :: "addr \<Rightarrow> ut_state \<Rightarrow> ut_state res" where
  "ut_list_remove elem s =
     (let (h, l) = s in
      if lcount l = 0 then Inl AssertFail else
      rbind (deref h (Some elem)) (\<lambda>n.
      rbind (if unext n \<noteq> None
             then rbind (wr h (unext n) (uprev_update (\<lambda>_. uprev n))) (\<lambda>h1. Inr (h1, l))
             else Inr (h, l\<lparr>lend := uprev n\<rparr>)) (\<lambda>(h1, l1).
      rbind (deref h1 (Some elem)) (\<lambda>n1.
      rbind (if uprev n1 \<noteq> None
             then rbind (wr h1 (uprev n1) (unext_update (\<lambda>_. unext n1))) (\<lambda>h2. Inr (h2, l1))
             else Inr (h1, l1\<lparr>lstart := unext n1\<rparr>)) (\<lambda>(h2, l2).
      Inr (h2, l2\<lparr>lcount := lcount l2 - 1\<rparr>))))))"

text \<open>
  The loops of \<open>ut_list_map\<close> and \<open>ut_list_validate\<close>: the elements passed to the functor in
  order, or \<open>None\<close> if the loop does not end. The functors of the callers do not change lists.
\<close>

partial_function (option) walk_next :: "ut_heap \<Rightarrow> ptr \<Rightarrow> addr list \<Rightarrow> addr list res option" where
  [code]: "walk_next h p seen =
     (case p of None \<Rightarrow> Some (Inr (rev seen))
      | Some a \<Rightarrow> (case h a of None \<Rightarrow> Some (Inl UseAfterFree)
         | Some n \<Rightarrow> walk_next h (unext n) (a # seen)))"

partial_function (option) walk_prev :: "ut_heap \<Rightarrow> ptr \<Rightarrow> addr list \<Rightarrow> addr list res option" where
  [code]: "walk_prev h p seen =
     (case p of None \<Rightarrow> Some (Inr (rev seen))
      | Some a \<Rightarrow> (case h a of None \<Rightarrow> Some (Inl UseAfterFree)
         | Some n \<Rightarrow> walk_prev h (uprev n) (a # seen)))"

definition ut_list_map :: "ut_state \<Rightarrow> addr list res option" where
  "ut_list_map s = obind (walk_next (fst s) (lstart (snd s)) []) (\<lambda>xs.
     Some (if word_of_nat (length xs) = lcount (snd s) then Inr xs else Inl AssertFail))"

definition ut_list_validate :: "ut_state \<Rightarrow> addr list res option" where
  "ut_list_validate s = obind (ut_list_map s) (\<lambda>xs.
     obind (walk_prev (fst s) (lend (snd s)) []) (\<lambda>ys.
     Some (if word_of_nat (length ys) = lcount (snd s) then Inr (xs @ ys) else Inl AssertFail)))"

section \<open>Two-way segments\<close>

definition hdp :: "addr list \<Rightarrow> ptr \<Rightarrow> ptr" where
  "hdp xs q = (case xs of [] \<Rightarrow> q | x # _ \<Rightarrow> Some x)"

definition lastp :: "addr list \<Rightarrow> ptr \<Rightarrow> ptr" where
  "lastp xs p = (if xs = [] then p else Some (last xs))"

fun dseg :: "ut_heap \<Rightarrow> ptr \<Rightarrow> addr list \<Rightarrow> ptr \<Rightarrow> bool" where
  "dseg h p [] q \<longleftrightarrow> True"
| "dseg h p (x # xs) q \<longleftrightarrow>
     (case h x of None \<Rightarrow> False | Some n \<Rightarrow> uprev n = p \<and> unext n = hdp xs q \<and> dseg h (Some x) xs q)"

definition dlist :: "ut_state \<Rightarrow> addr list \<Rightarrow> bool" where
  "dlist s xs \<longleftrightarrow> distinct xs \<and> dseg (fst s) None xs None
     \<and> lstart (snd s) = hdp xs None \<and> lend (snd s) = lastp xs None
     \<and> lcount (snd s) = word_of_nat (length xs)"

lemma hdp_simps [simp]: "hdp [] q = q" "hdp (x # xs) q = Some x" "hdp (xs @ ys) q = hdp xs (hdp ys q)"
  by (simp_all add: hdp_def split: list.split)

lemma lastp_simps [simp]: "lastp [] q = q" "lastp (x # xs) q = lastp xs (Some x)"
  "lastp (xs @ ys) q = lastp ys (lastp xs q)"
  by (simp_all add: lastp_def)

lemma dseg_append [simp]:
  "dseg h p (xs @ ys) q \<longleftrightarrow> dseg h p xs (hdp ys q) \<and> dseg h (lastp xs p) ys q"
  by (induction xs arbitrary: p) (auto split: option.splits)

lemma dseg_other [simp]: "a \<notin> set xs \<Longrightarrow> dseg (h(a \<mapsto> n)) p xs q \<longleftrightarrow> dseg h p xs q"
  by (induction xs arbitrary: p) (auto split: option.splits)

lemma dseg_dom: "dseg h p xs q \<Longrightarrow> x \<in> set xs \<Longrightarrow> \<exists>n. h x = Some n"
  by (induction xs arbitrary: p) (auto split: option.splits)

lemma wr_Some [simp]: "h a = Some n \<Longrightarrow> wr h (Some a) f = Inr (h(a \<mapsto> f n))"
  by (simp add: wr_def)

lemma lastp_not_None [simp]: "lastp xs (Some x) \<noteq> None"
  by (simp add: lastp_def)

lemma dlist_empty: "dlist (h, UT_LIST_INIT) []"
  by (simp add: dlist_def UT_LIST_INIT_def)

text \<open>The base node is determined by the elements.\<close>

lemma dlist_base: "dlist (h, l) xs \<Longrightarrow> dlist (h', l') xs \<Longrightarrow> l = l'"
  by (simp add: dlist_def)

section \<open>The operations on lists\<close>

lemma dseg_set_next:
  assumes "dseg h p (xs @ [x]) q" "distinct (xs @ [x])"
  shows "\<exists>n. h x = Some n \<and> dseg (h(x \<mapsto> n\<lparr>unext := q'\<rparr>)) p (xs @ [x]) q'"
  using assms by (auto split: option.splits)

lemma ut_list_prepend_dlist:
  assumes "dlist (h, l) xs" "h e = Some n" "e \<notin> set xs"
  shows "\<exists>h' l'. ut_list_free_prepend e (h, l) = Inr (h', l') \<and> dlist (h', l') (e # xs) \<and> dom h' = dom h"
proof (cases xs)
  case Nil
  with assms show ?thesis by (auto simp: ut_list_free_prepend_def dlist_def Let_def)
next
  case (Cons y ys)
  with assms(1) obtain m where m: "h y = Some m" by (auto simp: dlist_def split: option.splits)
  with assms Cons show ?thesis
    by (auto simp: ut_list_free_prepend_def dlist_def Let_def split: option.splits)
qed

lemma ut_list_append_dlist:
  assumes "dlist (h, l) xs" "h e = Some n" "e \<notin> set xs"
  shows "\<exists>h' l'. ut_list_free_append e (h, l) = Inr (h', l') \<and> dlist (h', l') (xs @ [e]) \<and> dom h' = dom h"
proof (cases xs rule: rev_cases)
  case Nil
  with assms show ?thesis by (auto simp: ut_list_free_append_def dlist_def Let_def)
next
  case (snoc ys y)
  with assms(1) obtain m where m: "h y = Some m" by (auto simp: dlist_def split: option.splits)
  have "hdp ys (Some y) \<noteq> None" by (cases ys) auto
  with assms snoc m show ?thesis
    by (auto simp: ut_list_free_append_def dlist_def Let_def split: option.splits)
qed

lemma ut_list_insert_dlist:
  assumes "dlist (h, l) (xs @ a # ys)" "h e = Some n" "e \<notin> set (xs @ a # ys)"
  shows "\<exists>h' l'. ut_list_insert a e (h, l) = Inr (h', l') \<and> dlist (h', l') (xs @ a # e # ys) \<and> dom h' = dom h"
proof -
  obtain m where m: "h a = Some m" "uprev m = lastp xs None" "unext m = hdp ys None" "dseg h (Some a) ys None"
    using assms(1) by (auto simp: dlist_def split: option.splits)
  show ?thesis
  proof (cases ys)
    case Nil
    with assms m show ?thesis by (auto simp: ut_list_insert_def dlist_def Let_def)
  next
    case (Cons y zs)
    with m(4) obtain k where k: "h y = Some k" by (auto split: option.splits)
    have "lastp zs (Some y) \<noteq> Some a"
      using assms(1) Cons by (auto simp: dlist_def lastp_def)
    with assms m Cons k show ?thesis
      by (auto simp: ut_list_insert_def dlist_def Let_def split: option.splits)
  qed
qed

lemma ut_list_remove_dlist:
  assumes "dlist (h, l) (xs @ a # ys)" "length (xs @ a # ys) < 2 ^ 64"
  shows "\<exists>h' l'. ut_list_remove a (h, l) = Inr (h', l') \<and> dlist (h', l') (xs @ ys) \<and> dom h' = dom h"
proof -
  obtain m where m: "h a = Some m" "uprev m = lastp xs None" "unext m = hdp ys None"
    using assms(1) by (auto simp: dlist_def split: option.splits)
  have "lcount l \<noteq> 0"
    using assms by (simp add: dlist_def word_of_nat_eq_0_iff nat_dvd_not_less del: of_nat_Suc of_nat_add)
  note facts = assms(1) m this
  show ?thesis
  proof (cases ys)
    case Nil
    show ?thesis
    proof (cases xs rule: rev_cases)
      case (snoc zs z)
      with assms(1) obtain k where "h z = Some k" by (auto simp: dlist_def split: option.splits)
      with facts Nil snoc show ?thesis
        by (auto simp: ut_list_remove_def dlist_def Let_def split: option.splits)
    qed (use facts Nil in \<open>auto simp: ut_list_remove_def dlist_def Let_def\<close>)
  next
    case (Cons y ws)
    then obtain j where j: "h y = Some j" using assms(1) by (auto simp: dlist_def split: option.splits)
    show ?thesis
    proof (cases xs rule: rev_cases)
      case (snoc zs z)
      with assms(1) obtain k where "h z = Some k" by (auto simp: dlist_def split: option.splits)
      with facts Cons snoc j show ?thesis
        by (auto simp: ut_list_remove_def dlist_def Let_def split: option.splits)
    qed (use facts Cons j in \<open>auto simp: ut_list_remove_def dlist_def Let_def split: option.splits\<close>)
  qed
qed

lemma walk_next_dseg: "dseg h p xs None \<Longrightarrow> walk_next h (hdp xs None) seen = Some (Inr (rev seen @ xs))"
proof (induction xs arbitrary: p seen)
  case Nil
  then show ?case by (subst walk_next.simps) simp
next
  case (Cons x xs)
  then obtain n where "h x = Some n" "unext n = hdp xs None" "dseg h (Some x) xs None"
    by (auto split: option.splits)
  with Cons.IH [of "Some x" "x # seen"] show ?case by (subst walk_next.simps) simp
qed

lemma walk_prev_dseg: "dseg h None xs q \<Longrightarrow> walk_prev h (lastp xs None) seen = Some (Inr (rev seen @ rev xs))"
proof (induction xs arbitrary: q seen rule: rev_induct)
  case Nil
  then show ?case by (subst walk_prev.simps) simp
next
  case (snoc x xs)
  then obtain n where "h x = Some n" "uprev n = lastp xs None" "dseg h None xs (Some x)"
    by (auto split: option.splits)
  with snoc.IH [of "Some x" "x # seen"] show ?case by (subst walk_prev.simps) simp
qed

lemma ut_list_validate_dlist: "dlist s xs \<Longrightarrow> ut_list_validate s = Some (Inr (xs @ rev xs))"
  using walk_next_dseg [of "fst s" None xs "[]"] walk_prev_dseg [of "fst s" xs None "[]"]
  by (simp add: dlist_def ut_list_validate_def ut_list_map_def)

section \<open>The contract of the list\<close>

datatype list_op = Prepend addr | Append addr | Insert addr addr | Remove addr

fun op_ok :: "list_op \<Rightarrow> addr list \<Rightarrow> bool" where
  "op_ok (Prepend e) xs \<longleftrightarrow> e \<notin> set xs"
| "op_ok (Append e) xs \<longleftrightarrow> e \<notin> set xs"
| "op_ok (Insert a e) xs \<longleftrightarrow> a \<in> set xs \<and> e \<notin> set xs"
| "op_ok (Remove a) xs \<longleftrightarrow> a \<in> set xs"

fun op_new :: "list_op \<Rightarrow> addr set" where
  "op_new (Prepend e) = {e}"
| "op_new (Append e) = {e}"
| "op_new (Insert a e) = {e}"
| "op_new (Remove a) = {}"

text \<open>What the operation does to the list of the elements.\<close>

fun insert_after :: "addr \<Rightarrow> addr \<Rightarrow> addr list \<Rightarrow> addr list" where
  "insert_after a e [] = []"
| "insert_after a e (x # xs) = (if x = a then x # e # xs else x # insert_after a e xs)"

fun op_spec :: "list_op \<Rightarrow> addr list \<Rightarrow> addr list" where
  "op_spec (Prepend e) xs = e # xs"
| "op_spec (Append e) xs = xs @ [e]"
| "op_spec (Insert a e) xs = insert_after a e xs"
| "op_spec (Remove a) xs = remove1 a xs"

fun ops_ok :: "list_op list \<Rightarrow> addr list \<Rightarrow> bool" where
  "ops_ok [] xs \<longleftrightarrow> True"
| "ops_ok (p # ps) xs \<longleftrightarrow> op_ok p xs \<and> ops_ok ps (op_spec p xs)"

text \<open>The operations in the code.\<close>

fun ut_op :: "list_op \<Rightarrow> ut_state \<Rightarrow> ut_state res" where
  "ut_op (Prepend e) s = ut_list_prepend e s"
| "ut_op (Append e) s = ut_list_append e s"
| "ut_op (Insert a e) s = ut_list_insert a e s"
| "ut_op (Remove a) s = ut_list_remove a s"

fun ops_run :: "(list_op \<Rightarrow> 's \<Rightarrow> 's res) \<Rightarrow> list_op list \<Rightarrow> 's \<Rightarrow> 's res" where
  "ops_run f [] s = Inr s"
| "ops_run f (p # ps) s = rbind (f p s) (ops_run f ps)"

text \<open>
  A client sees the elements (\<open>rep\<close>) and the memory (\<open>mem\<close>); each operation whose
  precondition holds does what its specification says and keeps the memory allocated.
\<close>

locale two_way_list =
  fixes rep :: "'s \<Rightarrow> addr list \<Rightarrow> bool" and mem :: "'s \<Rightarrow> addr set"
    and exec :: "list_op \<Rightarrow> 's \<Rightarrow> 's res" and validate :: "'s \<Rightarrow> addr list res option"
  assumes exec_step: "rep s xs \<Longrightarrow> length xs < 2 ^ 64 \<Longrightarrow> op_ok p xs \<Longrightarrow> op_new p \<subseteq> mem s \<Longrightarrow>
      \<exists>s'. exec p s = Inr s' \<and> rep s' (op_spec p xs) \<and> mem s' = mem s"
    and validate_rep: "rep s xs \<Longrightarrow> validate s = Some (Inr (xs @ rev xs))"
begin

lemma length_op_spec: "length (op_spec p xs) \<le> Suc (length xs)"
proof -
  have "length (insert_after a e ys) \<le> Suc (length ys)" for a e ys by (induction ys) auto
  then show ?thesis by (cases p) (auto simp: length_remove1)
qed

lemma exec_all:
  "rep s xs \<Longrightarrow> length xs + length ps \<le> 2 ^ 64 \<Longrightarrow> ops_ok ps xs \<Longrightarrow> (\<Union>p \<in> set ps. op_new p) \<subseteq> mem s \<Longrightarrow>
     \<exists>s'. ops_run exec ps s = Inr s' \<and> rep s' (fold op_spec ps xs)"
proof (induction ps arbitrary: s xs)
  case (Cons p ps)
  have len: "length xs < 2 ^ 64" "length (op_spec p xs) + length ps \<le> 2 ^ 64"
    using Cons.prems(2) length_op_spec [of p xs] by simp_all
  have "op_ok p xs" "op_new p \<subseteq> mem s" using Cons.prems(3,4) by simp_all
  from exec_step [OF Cons.prems(1) len(1) this] obtain s1 where
    s1: "exec p s = Inr s1" "rep s1 (op_spec p xs)" "mem s1 = mem s" by blast
  have "ops_ok ps (op_spec p xs)" "(\<Union>p \<in> set ps. op_new p) \<subseteq> mem s1"
    using Cons.prems(3,4) s1(3) by simp_all
  from Cons.IH [OF s1(2) len(2) this] s1(1) show ?case by simp
qed simp

lemma exec_validates:
  assumes "rep s xs" "length xs + length ps \<le> 2 ^ 64" "ops_ok ps xs" "(\<Union>p \<in> set ps. op_new p) \<subseteq> mem s"
  shows "\<exists>s'. ops_run exec ps s = Inr s' \<and> rep s' (fold op_spec ps xs)
    \<and> validate s' = Some (Inr (fold op_spec ps xs @ rev (fold op_spec ps xs)))"
  using exec_all [OF assms] validate_rep by blast

end

lemma insert_after_split: "a \<notin> set xs \<Longrightarrow> insert_after a e (xs @ a # ys) = xs @ a # e # ys"
  by (induction xs) auto

lemma ut_op_step:
  assumes "dlist s xs" "length xs < 2 ^ 64" "op_ok p xs" "op_new p \<subseteq> dom (fst s)"
  shows "\<exists>s'. ut_op p s = Inr s' \<and> dlist s' (op_spec p xs) \<and> dom (fst s') = dom (fst s)"
proof -
  obtain h l where s: "s = (h, l)" by fastforce
  note d = assms(1) [unfolded s]
  have alloc: "\<exists>n. h e = Some n" if "e \<in> op_new p" for e using that assms(4) s by auto
  have split: "\<exists>us vs. xs = us @ a # vs \<and> a \<notin> set us" if "a \<in> set xs" for a
    by (rule split_list_first [OF that])
  show ?thesis
  proof (cases p)
    case (Prepend e)
    with alloc obtain n where n: "h e = Some n" by auto
    have "e \<notin> set xs" using assms(3) Prepend by simp
    from ut_list_prepend_dlist [OF d n this] Prepend s show ?thesis by (auto simp: ut_list_prepend_def)
  next
    case (Append e)
    with alloc obtain n where n: "h e = Some n" by auto
    have "e \<notin> set xs" using assms(3) Append by simp
    from ut_list_append_dlist [OF d n this] Append s show ?thesis by (auto simp: ut_list_append_def)
  next
    case (Insert a e)
    with alloc obtain n where n: "h e = Some n" by auto
    have ae: "a \<in> set xs" "e \<notin> set xs" using assms(3) Insert by simp_all
    from split [OF ae(1)] obtain us vs where xs: "xs = us @ a # vs" "a \<notin> set us" by blast
    from ut_list_insert_dlist [OF d [unfolded xs(1)] n ae(2) [unfolded xs(1)]] Insert s xs
    show ?thesis by (auto simp: insert_after_split)
  next
    case (Remove a)
    with assms(3) have "a \<in> set xs" by simp
    from split [OF this] obtain us vs where xs: "xs = us @ a # vs" "a \<notin> set us" by blast
    from ut_list_remove_dlist [OF d [unfolded xs(1)] assms(2) [unfolded xs(1)]] Remove s xs
    show ?thesis by (auto simp: remove1_append)
  qed
qed

interpretation ul: two_way_list dlist "\<lambda>s. dom (fst s)" ut_op ut_list_validate
  by unfold_locales (use ut_op_step ut_list_validate_dlist in \<open>blast+\<close>)

section \<open>Properties\<close>

text \<open>C22: any sequence of list operations whose elements are allocated and fresh runs without a
  fault, leaves the list the specification gives, and passes \<open>ut_list_validate\<close>, which visits
  the elements forwards and then backwards.\<close>

theorem ut_list_refines_list:
  assumes "dlist s xs" "length xs + length ps \<le> 2 ^ 64" "ops_ok ps xs" "(\<Union>p \<in> set ps. op_new p) \<subseteq> dom (fst s)"
  shows "\<exists>s'. ops_run ut_op ps s = Inr s' \<and> dlist s' (fold op_spec ps xs)
    \<and> ut_list_validate s' = Some (Inr (fold op_spec ps xs @ rev (fold op_spec ps xs)))"
  by (rule ul.exec_validates [OF assms])

definition raw_nodes :: ut_heap where
  "raw_nodes = (\<lambda>a. if a < 9 then Some \<lparr>uprev = None, unext = None, mark_field = 0\<rparr> else None)"

theorem ut_list_refines_list_witness:
  "\<exists>s'. ops_run ut_op [Append 1, Prepend 2, Insert 1 3, Append 4, Remove 1] (raw_nodes, UT_LIST_INIT) = Inr s'
     \<and> ut_list_validate s' = Some (Inr [2, 3, 4, 4, 3, 2])"
  using ut_list_refines_list [OF dlist_empty [of raw_nodes], of "[Append 1, Prepend 2, Insert 1 3, Append 4, Remove 1]"]
  by (auto simp: raw_nodes_def dom_def)

text \<open>removing the element that was just appended or prepended gives back the base node and
  the list of before.\<close>

theorem ut_list_add_remove:
  assumes "dlist (h, l) xs" "h e = Some n" "e \<notin> set xs" "Suc (length xs) < 2 ^ 64"
  shows "(\<exists>h1. rbind (ut_list_append e (h, l)) (ut_list_remove e) = Inr (h1, l) \<and> dlist (h1, l) xs)
    \<and> (\<exists>h2. rbind (ut_list_prepend e (h, l)) (ut_list_remove e) = Inr (h2, l) \<and> dlist (h2, l) xs)"
proof
  obtain h1 l1 where 1: "ut_list_free_append e (h, l) = Inr (h1, l1)" "dlist (h1, l1) (xs @ [e])"
    using ut_list_append_dlist [OF assms(1-3)] by blast
  obtain h2 l2 where 2: "ut_list_remove e (h1, l1) = Inr (h2, l2)" "dlist (h2, l2) xs"
    using ut_list_remove_dlist [of h1 l1 xs e "[]"] 1(2) assms(4) by auto
  from 1 2 dlist_base [OF assms(1) 2(2)]
  show "\<exists>h1. rbind (ut_list_append e (h, l)) (ut_list_remove e) = Inr (h1, l) \<and> dlist (h1, l) xs"
    by (auto simp: ut_list_append_def)
next
  obtain h1 l1 where 3: "ut_list_free_prepend e (h, l) = Inr (h1, l1)" "dlist (h1, l1) (e # xs)"
    using ut_list_prepend_dlist [OF assms(1-3)] by blast
  obtain h2 l2 where 4: "ut_list_remove e (h1, l1) = Inr (h2, l2)" "dlist (h2, l2) xs"
    using ut_list_remove_dlist [of h1 l1 "[]" e xs] 3(2) assms(4) by auto
  from 3 4 dlist_base [OF assms(1) 4(2)]
  show "\<exists>h2. rbind (ut_list_prepend e (h, l)) (ut_list_remove e) = Inr (h2, l) \<and> dlist (h2, l) xs"
    by (auto simp: ut_list_prepend_def)
qed

theorem ut_list_add_remove_witness:
  "\<exists>h. rbind (ut_list_append 1 (raw_nodes, UT_LIST_INIT)) (ut_list_remove 1) = Inr (h, UT_LIST_INIT)"
  using ut_list_add_remove [OF dlist_empty [of raw_nodes], of 1] by (auto simp: raw_nodes_def)

end
