(* ===== verification/UtListConc.thy ===== *)
theory UtListConc
  imports UtList
begin

text \<open>
  Concurrent calls of \<open>ut_list_free_prepend\<close> and \<open>ut_list_free_append\<close>
  (storage/xtradb/include/ut0lst.h). Every read, write and atomic operation on shared memory is
  a step of its own; a call is named by the element it adds.
\<close>

section \<open>Steps\<close>

datatype cpc = C_Clear | C_Swap | C_Link | C_Back | C_TestEnd | C_SetEnd | C_Count | C_Done

record call =
  cpc :: cpc
  saved :: ptr

record conc =
  cheap :: ut_heap
  cbase :: ut_list_base
  calls :: "addr \<Rightarrow> call"

definition goto :: "addr \<Rightarrow> cpc \<Rightarrow> conc \<Rightarrow> conc" where
  "goto e p s = s\<lparr>calls := (calls s)(e := (calls s e)\<lparr>cpc := p\<rparr>)\<rparr>"

definition free_prepend_step :: "addr \<Rightarrow> conc \<Rightarrow> conc res option" where
  "free_prepend_step e s =
     (let h = cheap s; l = cbase s; c = calls s e in
      case cpc c of
        C_Clear \<Rightarrow> Some (rbind (wr h (Some e) (uprev_update (\<lambda>_. None))) (\<lambda>h1.
          Inr (goto e C_Swap (s\<lparr>cheap := h1\<rparr>))))
      | C_Swap \<Rightarrow> Some (Inr (s\<lparr>cbase := l\<lparr>lstart := Some e\<rparr>,
          calls := (calls s)(e := \<lparr>cpc = C_Link, saved = lstart l\<rparr>)\<rparr>))
      | C_Link \<Rightarrow> Some (rbind (wr h (Some e) (unext_update (\<lambda>_. saved c))) (\<lambda>h1.
          Inr (goto e C_Back (s\<lparr>cheap := h1\<rparr>))))
      | C_Back \<Rightarrow> Some (rbind (if saved c \<noteq> None then wr h (saved c) (uprev_update (\<lambda>_. Some e)) else Inr h)
          (\<lambda>h1. Inr (goto e C_TestEnd (s\<lparr>cheap := h1\<rparr>))))
      | C_TestEnd \<Rightarrow> Some (Inr (goto e (if lend l = None then C_SetEnd else C_Count) s))
      | C_SetEnd \<Rightarrow> Some (Inr (goto e C_Count (s\<lparr>cbase := l\<lparr>lend := Some e\<rparr>\<rparr>)))
      | C_Count \<Rightarrow> Some (Inr (goto e C_Done (s\<lparr>cbase := l\<lparr>lcount := lcount l + 1\<rparr>\<rparr>)))
      | C_Done \<Rightarrow> None)"

definition free_append_step :: "addr \<Rightarrow> conc \<Rightarrow> conc res option" where
  "free_append_step e s =
     (let h = cheap s; l = cbase s; c = calls s e in
      case cpc c of
        C_Clear \<Rightarrow> Some (rbind (wr h (Some e) (unext_update (\<lambda>_. None))) (\<lambda>h1.
          Inr (goto e C_Swap (s\<lparr>cheap := h1\<rparr>))))
      | C_Swap \<Rightarrow> Some (Inr (s\<lparr>cbase := l\<lparr>lend := Some e\<rparr>,
          calls := (calls s)(e := \<lparr>cpc = C_Link, saved = lend l\<rparr>)\<rparr>))
      | C_Link \<Rightarrow> Some (rbind (wr h (Some e) (uprev_update (\<lambda>_. saved c))) (\<lambda>h1.
          Inr (goto e C_Back (s\<lparr>cheap := h1\<rparr>))))
      | C_Back \<Rightarrow> Some (rbind (if saved c \<noteq> None then wr h (saved c) (unext_update (\<lambda>_. Some e)) else Inr h)
          (\<lambda>h1. Inr (goto e C_TestEnd (s\<lparr>cheap := h1\<rparr>))))
      | C_TestEnd \<Rightarrow> Some (Inr (goto e (if lstart l = None then C_SetEnd else C_Count) s))
      | C_SetEnd \<Rightarrow> Some (Inr (goto e C_Count (s\<lparr>cbase := l\<lparr>lstart := Some e\<rparr>\<rparr>)))
      | C_Count \<Rightarrow> Some (Inr (goto e C_Done (s\<lparr>cbase := l\<lparr>lcount := lcount l + 1\<rparr>\<rparr>)))
      | C_Done \<Rightarrow> None)"

text \<open>The list with a call about to start for each element of a set.\<close>

definition start_calls :: "ut_state \<Rightarrow> conc" where
  "start_calls s = \<lparr>cheap = fst s, cbase = snd s, calls = (\<lambda>_. \<lparr>cpc = C_Clear, saved = None\<rparr>)\<rparr>"

text \<open>A schedule: which call moves next, a prepend (\<open>Inl\<close>) or an append (\<open>Inr\<close>).\<close>

fun conc_run :: "(addr + addr) list \<Rightarrow> conc \<Rightarrow> conc res option" where
  "conc_run [] s = Some (Inr s)"
| "conc_run (Inl e # es) s = obind (free_prepend_step e s) (conc_run es)"
| "conc_run (Inr e # es) s = obind (free_append_step e s) (conc_run es)"

definition final :: "conc res option \<Rightarrow> ut_state res option" where
  "final r = obind r (\<lambda>s. Some (Inr (cheap s, cbase s)))"

lemmas step_defs = free_prepend_step_def free_append_step_def start_calls_def goto_def Let_def final_def

section \<open>Prepends to a list that is not empty\<close>

definition swapped :: "call \<Rightarrow> bool" where "swapped c \<longleftrightarrow> cpc c \<noteq> C_Clear \<and> cpc c \<noteq> C_Swap"
definition linked :: "call \<Rightarrow> bool" where "linked c \<longleftrightarrow> swapped c \<and> cpc c \<noteq> C_Link"
definition backed :: "call \<Rightarrow> bool" where "backed c \<longleftrightarrow> linked c \<and> cpc c \<noteq> C_Back"

lemmas phase_defs = swapped_def linked_def backed_def

text \<open>
  The elements \<open>ys\<close> whose calls have exchanged \<open>list.start\<close>, latest first, in front of the list
  \<open>xs\<close>: each knows its successor, and points to and is pointed to by it once its call got there.
\<close>

fun pseg :: "ut_heap \<Rightarrow> (addr \<Rightarrow> call) \<Rightarrow> ptr \<Rightarrow> addr list \<Rightarrow> addr list \<Rightarrow> bool" where
  "pseg h c p [] xs \<longleftrightarrow> dseg h p xs None"
| "pseg h c p (y # ys) xs \<longleftrightarrow>
     (case h y of None \<Rightarrow> False | Some n \<Rightarrow> uprev n = p \<and> swapped (c y)
        \<and> saved (c y) = hdp (ys @ xs) None \<and> (linked (c y) \<longrightarrow> unext n = hdp (ys @ xs) None)
        \<and> pseg h c (if backed (c y) then Some y else None) ys xs)"

lemma dseg_frame: "(\<And>a. a \<in> set xs \<Longrightarrow> h' a = h a) \<Longrightarrow> dseg h' p xs q = dseg h p xs q"
  by (induction xs arbitrary: p) (auto split: option.splits)

lemma pseg_frame:
  "(\<And>a. a \<in> set (ys @ xs) \<Longrightarrow> h' a = h a) \<Longrightarrow> (\<And>a. a \<in> set ys \<Longrightarrow> c' a = c a) \<Longrightarrow>
     pseg h' c' p ys xs = pseg h c p ys xs"
  by (induction ys arbitrary: p) (auto simp: dseg_frame [of xs h' h] split: option.splits)

lemma hdp_cases: "xs \<noteq> [] \<Longrightarrow> \<exists>z. hdp (ys @ xs) None = Some z \<and> z \<in> set (ys @ xs)"
  by (cases ys; cases xs) auto

lemma pseg_saved:
  "pseg h c p ys xs \<Longrightarrow> y \<in> set ys \<Longrightarrow> xs \<noteq> [] \<Longrightarrow> \<exists>z. saved (c y) = Some z \<and> z \<in> set (ys @ xs)"
proof (induction ys arbitrary: p)
  case (Cons x ys)
  then show ?case using hdp_cases [of xs ys] by (cases "y = x") (auto split: option.splits)
qed simp

lemma pseg_dom: "pseg h c p ys xs \<Longrightarrow> z \<in> set (ys @ xs) \<Longrightarrow> \<exists>n. h z = Some n"
  by (induction ys arbitrary: p) (auto dest: dseg_dom split: option.splits)

lemma pseg_reprev:
  assumes "pseg h c p ys xs" "distinct (ys @ xs)" "hdp (ys @ xs) None = Some z" "h z = Some n"
  shows "pseg (h(z \<mapsto> n\<lparr>uprev := p'\<rparr>)) c p' ys xs"
proof (cases ys)
  case Nil
  with assms show ?thesis by (cases xs) (auto split: option.splits)
next
  case (Cons y ws)
  have "pseg (h(y \<mapsto> n\<lparr>uprev := p'\<rparr>)) c q ws xs = pseg h c q ws xs" for q
    by (rule pseg_frame) (use assms Cons in auto)
  with assms Cons show ?thesis by (auto split: option.splits)
qed

lemma pseg_link:
  assumes "pseg h c p ys xs" "distinct (ys @ xs)" "y \<in> set ys" "cpc (c y) = C_Link" "h y = Some n"
  shows "pseg (h(y \<mapsto> n\<lparr>unext := saved (c y)\<rparr>)) (c(y := (c y)\<lparr>cpc := C_Back\<rparr>)) p ys xs"
  using assms
proof (induction ys arbitrary: p)
  case (Cons x ys)
  define h' where "h' = h(y \<mapsto> n\<lparr>unext := saved (c y)\<rparr>)"
  define c' where "c' = c(y := (c y)\<lparr>cpc := C_Back\<rparr>)"
  show ?case
  proof (cases "x = y")
    case True
    have "pseg h' c' q ys xs = pseg h c q ys xs" for q
      by (rule pseg_frame) (use Cons.prems True in \<open>auto simp: h'_def c'_def\<close>)
    moreover have "h' y = Some (n\<lparr>unext := saved (c y)\<rparr>)" "c' y = (c y)\<lparr>cpc := C_Back\<rparr>"
      by (simp_all add: h'_def c'_def)
    ultimately have "pseg h' c' p (x # ys) xs" using Cons.prems True by (simp add: phase_defs)
    then show ?thesis by (simp only: h'_def c'_def)
  next
    case False
    with Cons show ?thesis by (auto split: option.splits)
  qed
qed simp

lemma pseg_back:
  assumes "pseg h c p ys xs" "distinct (ys @ xs)" "y \<in> set ys" "cpc (c y) = C_Back"
    "saved (c y) = Some z" "h z = Some n" "xs \<noteq> []"
  shows "pseg (h(z \<mapsto> n\<lparr>uprev := Some y\<rparr>)) (c(y := (c y)\<lparr>cpc := C_TestEnd\<rparr>)) p ys xs"
  using assms
proof (induction ys arbitrary: p)
  case (Cons x ys)
  define h' where "h' = h(z \<mapsto> n\<lparr>uprev := Some y\<rparr>)"
  define c' where "c' = c(y := (c y)\<lparr>cpc := C_TestEnd\<rparr>)"
  show ?case
  proof (cases "x = y")
    case True
    with Cons.prems have z: "hdp (ys @ xs) None = Some z" "pseg h c None ys xs"
      by (auto simp: phase_defs split: option.splits)
    with hdp_cases [OF Cons.prems(7), of ys] have "z \<in> set (ys @ xs)" by simp
    with Cons.prems(2) True have "z \<noteq> y" by auto
    have "distinct (ys @ xs)" using Cons.prems(2) by simp
    from pseg_reprev [OF z(2) this z(1) Cons.prems(6), of "Some y"]
    have "pseg h' c (Some y) ys xs" by (simp only: h'_def)
    moreover have "pseg h' c' (Some y) ys xs = pseg h' c (Some y) ys xs"
      by (rule pseg_frame) (use Cons.prems True in \<open>auto simp: c'_def\<close>)
    moreover have "h' y = h y" "c' y = (c y)\<lparr>cpc := C_TestEnd\<rparr>"
      using \<open>z \<noteq> y\<close> by (simp_all add: h'_def c'_def)
    ultimately have "pseg h' c' p (x # ys) xs"
      using Cons.prems True by (auto simp: phase_defs split: option.splits)
    then show ?thesis by (simp only: h'_def c'_def)
  next
    case False
    then have y: "y \<in> set ys" using Cons.prems(3) by simp
    from Cons.prems(1) obtain q where q: "pseg h c q ys xs" by (auto split: option.splits)
    from pseg_saved [OF q y Cons.prems(7)] Cons.prems(2,5) have "z \<noteq> x" by auto
    with False y Cons show ?thesis by (auto split: option.splits)
  qed
qed simp

lemma pseg_later:
  assumes "pseg h c p ys xs" "backed (c y)" "backed c'" "saved c' = saved (c y)"
  shows "pseg h (c(y := c')) p ys xs"
  using assms by (induction ys arbitrary: p) (auto simp: phase_defs split: option.splits)

lemma pseg_done:
  "pseg h c p ys xs \<Longrightarrow> (\<And>y. y \<in> set ys \<Longrightarrow> backed (c y)) \<Longrightarrow> dseg h p (ys @ xs) None"
proof (induction ys arbitrary: p)
  case (Cons y ys)
  then have "backed (c y)" by simp
  with Cons show ?case by (auto simp: backed_def split: option.splits)
qed simp

definition returned :: "conc \<Rightarrow> addr \<Rightarrow> bool" where
  "returned s e \<longleftrightarrow> cpc (calls s e) = C_Done"

definition prep_inv :: "addr set \<Rightarrow> addr list \<Rightarrow> conc \<Rightarrow> addr list \<Rightarrow> bool" where
  "prep_inv D xs s ys \<longleftrightarrow> distinct (ys @ xs) \<and> pseg (cheap s) (calls s) None ys xs \<and> dom (cheap s) = D
     \<and> (\<forall>e. swapped (calls s e) \<longleftrightarrow> e \<in> set ys)
     \<and> (\<forall>e. cpc (calls s e) = C_Swap \<longrightarrow> e \<notin> set xs \<and> (\<exists>n. cheap s e = Some n \<and> uprev n = None))
     \<and> (\<forall>e. cpc (calls s e) \<noteq> C_SetEnd)
     \<and> lstart (cbase s) = hdp (ys @ xs) None \<and> lend (cbase s) = lastp xs None
     \<and> lcount (cbase s) = word_of_nat (length xs + length (filter (returned s) ys))"

lemma prep_invD:
  assumes "prep_inv D xs s ys"
  shows "distinct (ys @ xs)" "pseg (cheap s) (calls s) None ys xs" "dom (cheap s) = D"
    "swapped (calls s e) \<longleftrightarrow> e \<in> set ys" "cpc (calls s e) = C_Swap \<Longrightarrow> e \<notin> set xs"
    "cpc (calls s e) = C_Swap \<Longrightarrow> \<exists>n. cheap s e = Some n \<and> uprev n = None"
    "cpc (calls s e) \<noteq> C_SetEnd" "lstart (cbase s) = hdp (ys @ xs) None" "lend (cbase s) = lastp xs None"
    "lcount (cbase s) = word_of_nat (length xs + length (filter (returned s) ys))"
  using assms unfolding prep_inv_def by blast+

text \<open>A step of call \<open>e\<close> that changes the node at \<open>z\<close> and keeps the base node.\<close>

lemma prep_heap_step:
  assumes I: "prep_inv D xs s ys" and e: "cpc (calls s e) \<noteq> C_Done" "q \<noteq> C_Done" "q \<noteq> C_SetEnd"
    and P: "pseg ((cheap s)(z \<mapsto> n)) ((calls s)(e := (calls s e)\<lparr>cpc := q\<rparr>)) None ys xs"
    and z: "z \<in> D" "z = e \<or> z \<in> set (ys @ xs)"
    and sw: "swapped ((calls s e)\<lparr>cpc := q\<rparr>) = swapped (calls s e)"
    and q: "q = C_Swap \<Longrightarrow> e \<notin> set xs \<and> z = e \<and> uprev n = None"
  shows "prep_inv D xs (goto e q (s\<lparr>cheap := (cheap s)(z \<mapsto> n)\<rparr>)) ys"
proof -
  let ?s = "goto e q (s\<lparr>cheap := (cheap s)(z \<mapsto> n)\<rparr>)"
  have "filter (returned ?s) ys = filter (returned s) ys"
    by (rule filter_cong) (use e in \<open>auto simp: returned_def goto_def\<close>)
  moreover have "x \<notin> set xs \<and> (\<exists>m. cheap ?s x = Some m \<and> uprev m = None)" if "cpc (calls ?s x) = C_Swap" for x
  proof (cases "x = e")
    case True
    with that q show ?thesis by (auto simp: goto_def)
  next
    case False
    with that have x: "cpc (calls s x) = C_Swap" by (simp add: goto_def)
    with prep_invD(4) [OF I, of x] have "x \<notin> set ys" by (auto simp: swapped_def)
    with prep_invD(5,6) [OF I x] z False show ?thesis by (auto simp: goto_def)
  qed
  ultimately show ?thesis
    using I P e z sw unfolding prep_inv_def by (auto simp: goto_def)
qed

lemma length_filter_insert:
  "distinct ys \<Longrightarrow> e \<in> set ys \<Longrightarrow> \<not> P e \<Longrightarrow> (\<And>x. x \<noteq> e \<Longrightarrow> Q x = P x) \<Longrightarrow> Q e \<Longrightarrow>
     length (filter Q ys) = Suc (length (filter P ys))"
proof (induction ys)
  case (Cons y ys)
  show ?case
  proof (cases "y = e")
    case True
    then have "x \<noteq> e" if "x \<in> set ys" for x using that Cons.prems(1) by auto
    with Cons.prems(4) have "filter Q ys = filter P ys" by (intro filter_cong) auto
    with True Cons.prems show ?thesis by simp
  qed (use Cons in auto)
qed simp

lemma prep_swap:
  assumes I: "prep_inv D xs s ys" and xs: "xs \<noteq> []" and e: "e \<in> D" "e \<notin> set xs" "cpc (calls s e) \<noteq> C_Done"
    and pc: "cpc (calls s e) = C_Swap"
  shows "\<exists>s' ys'. free_prepend_step e s = Some (Inr s') \<and> prep_inv D xs s' ys'
    \<and> (\<forall>x. x \<noteq> e \<longrightarrow> calls s' x = calls s x)"
proof -
  obtain n where n: "cheap s e = Some n" using e(1) prep_invD(3) [OF I] by auto
  from pc have ns: "e \<notin> set ys" using prep_invD(4) [OF I, of e] by (simp add: swapped_def)
  define c where "c = (calls s)(e := \<lparr>cpc = C_Link, saved = lstart (cbase s)\<rparr>)"
  define s' where "s' = s\<lparr>cbase := (cbase s)\<lparr>lstart := Some e\<rparr>, calls := c\<rparr>"
  have "pseg (cheap s) c None ys xs = pseg (cheap s) (calls s) None ys xs"
    by (rule pseg_frame) (use ns in \<open>auto simp: c_def\<close>)
  moreover have "uprev n = None" using prep_invD(6) [OF I pc] n by simp
  moreover have "c e = \<lparr>cpc = C_Link, saved = hdp (ys @ xs) None\<rparr>" by (simp add: c_def prep_invD(8) [OF I])
  ultimately have "pseg (cheap s) c None (e # ys) xs" using prep_invD(2) [OF I] n by (simp add: phase_defs)
  moreover have "filter (returned s') (e # ys) = filter (returned s) ys"
    using ns by (auto simp: returned_def s'_def c_def intro!: filter_cong split: if_splits)
  moreover have "swapped (c x) \<longleftrightarrow> x \<in> set (e # ys)" for x
    using prep_invD(4) [OF I, of x] by (simp add: c_def swapped_def)
  ultimately have "prep_inv D xs s' (e # ys)"
    using prep_invD [OF I] ns e(2) unfolding prep_inv_def by (auto simp: s'_def c_def)
  moreover have "free_prepend_step e s = Some (Inr s')"
    using pc by (simp add: free_prepend_step_def Let_def s'_def c_def)
  ultimately show ?thesis by (auto simp: s'_def c_def)
qed

lemma prep_test:
  assumes I: "prep_inv D xs s ys" and xs: "xs \<noteq> []" and e: "e \<in> D" "e \<notin> set xs" "cpc (calls s e) \<noteq> C_Done"
    and pc: "cpc (calls s e) = C_TestEnd"
  shows "\<exists>s' ys'. free_prepend_step e s = Some (Inr s') \<and> prep_inv D xs s' ys'
    \<and> (\<forall>x. x \<noteq> e \<longrightarrow> calls s' x = calls s x)"
proof -
  from pc have b: "backed (calls s e)" by (simp add: phase_defs)
  have "lend (cbase s) \<noteq> None" using xs by (simp add: prep_invD(9) [OF I] lastp_def)
  with pc have r: "free_prepend_step e s = Some (Inr (goto e C_Count s))"
    by (auto simp: free_prepend_step_def Let_def)
  have "pseg (cheap s) ((calls s)(e := (calls s e)\<lparr>cpc := C_Count\<rparr>)) None ys xs"
    by (rule pseg_later [OF prep_invD(2) [OF I] b]) (simp_all add: phase_defs)
  moreover have "filter (returned (goto e C_Count s)) ys = filter (returned s) ys"
    by (rule filter_cong) (use pc in \<open>auto simp: returned_def goto_def\<close>)
  moreover have "swapped (calls (goto e C_Count s) x) \<longleftrightarrow> x \<in> set ys" for x
    using prep_invD(4) [OF I, of x] pc by (auto simp: goto_def swapped_def)
  ultimately have "prep_inv D xs (goto e C_Count s) ys"
    using prep_invD [OF I] unfolding prep_inv_def by (auto simp: goto_def)
  with r show ?thesis by (auto simp: goto_def)
qed

lemma prep_count:
  assumes I: "prep_inv D xs s ys" and xs: "xs \<noteq> []" and e: "e \<in> D" "e \<notin> set xs" "cpc (calls s e) \<noteq> C_Done"
    and pc: "cpc (calls s e) = C_Count"
  shows "\<exists>s' ys'. free_prepend_step e s = Some (Inr s') \<and> prep_inv D xs s' ys'
    \<and> (\<forall>x. x \<noteq> e \<longrightarrow> calls s' x = calls s x)"
proof -
  from pc have b: "backed (calls s e)" by (simp add: phase_defs)
  then have y: "e \<in> set ys" using prep_invD(4) [OF I, of e] by (simp add: phase_defs)
  define s' where "s' = goto e C_Done (s\<lparr>cbase := (cbase s)\<lparr>lcount := lcount (cbase s) + 1\<rparr>\<rparr>)"
  have "length (filter (returned s') ys) = Suc (length (filter (returned s) ys))"
    by (rule length_filter_insert [of _ e])
      (use prep_invD(1) [OF I] y pc in \<open>auto simp: returned_def s'_def goto_def\<close>)
  moreover have "pseg (cheap s) ((calls s)(e := (calls s e)\<lparr>cpc := C_Done\<rparr>)) None ys xs"
    by (rule pseg_later [OF prep_invD(2) [OF I] b]) (simp_all add: phase_defs)
  moreover have "swapped (calls s' x) \<longleftrightarrow> x \<in> set ys" for x
    using prep_invD(4) [OF I, of x] y by (simp add: s'_def goto_def swapped_def)
  ultimately have "prep_inv D xs s' ys"
    using prep_invD [OF I] unfolding prep_inv_def by (auto simp: s'_def goto_def)
  moreover have "free_prepend_step e s = Some (Inr s')"
    using pc by (simp add: free_prepend_step_def Let_def s'_def)
  ultimately show ?thesis by (auto simp: s'_def goto_def)
qed

lemma prep_step:
  assumes I: "prep_inv D xs s ys" and xs: "xs \<noteq> []" and e: "e \<in> D" "e \<notin> set xs" "cpc (calls s e) \<noteq> C_Done"
  shows "\<exists>s' ys'. free_prepend_step e s = Some (Inr s') \<and> prep_inv D xs s' ys'
    \<and> (\<forall>x. x \<noteq> e \<longrightarrow> calls s' x = calls s x)"
proof -
  obtain n where n: "cheap s e = Some n" using e(1) prep_invD(3) [OF I] by auto
  have other: "calls (goto e q (s\<lparr>cheap := h\<rparr>)) x = calls s x" if "x \<noteq> e" for q h x
    using that by (simp add: goto_def)
  show ?thesis
  proof (cases "cpc (calls s e)")
    case C_Clear
    then have ns: "e \<notin> set ys" using prep_invD(4) [OF I, of e] by (simp add: swapped_def)
    have "pseg ((cheap s)(e \<mapsto> n\<lparr>uprev := None\<rparr>)) ((calls s)(e := (calls s e)\<lparr>cpc := C_Swap\<rparr>)) None ys xs
        = pseg (cheap s) (calls s) None ys xs"
      by (rule pseg_frame) (use ns e(2) in auto)
    with prep_heap_step [OF I, of e C_Swap e "n\<lparr>uprev := None\<rparr>"] C_Clear n e prep_invD(2) [OF I] other
    show ?thesis by (auto simp: free_prepend_step_def Let_def swapped_def)
  next
    case C_Swap
    from prep_swap [OF I xs e this] show ?thesis .
  next
    case C_Link
    then have y: "e \<in> set ys" using prep_invD(4) [OF I, of e] by (simp add: swapped_def)
    from pseg_link [OF prep_invD(2,1) [OF I] y C_Link n]
      prep_heap_step [OF I, of e C_Back e "n\<lparr>unext := saved (calls s e)\<rparr>"] C_Link n e y other
    show ?thesis by (auto simp: free_prepend_step_def Let_def swapped_def)
  next
    case C_Back
    then have y: "e \<in> set ys" using prep_invD(4) [OF I, of e] by (simp add: swapped_def)
    from pseg_saved [OF prep_invD(2) [OF I] y xs] obtain z where z: "saved (calls s e) = Some z" "z \<in> set (ys @ xs)"
      by blast
    from pseg_dom [OF prep_invD(2) [OF I] z(2)] obtain m where m: "cheap s z = Some m" by blast
    then have "z \<in> D" using prep_invD(3) [OF I] by blast
    with pseg_back [OF prep_invD(2,1) [OF I] y C_Back z(1) m xs]
      prep_heap_step [OF I, of e C_TestEnd z "m\<lparr>uprev := Some e\<rparr>"] C_Back m e z other
    show ?thesis by (auto simp: free_prepend_step_def Let_def swapped_def)
  next
    case C_TestEnd
    from prep_test [OF I xs e this] show ?thesis .
  next
    case C_SetEnd
    with prep_invD(7) [OF I] show ?thesis by blast
  next
    case C_Count
    from prep_count [OF I xs e this] show ?thesis .
  next
    case C_Done
    with e(3) show ?thesis by blast
  qed
qed

lemma prep_start: "dlist (h, l) xs \<Longrightarrow> prep_inv (dom h) xs (start_calls (h, l)) []"
  by (auto simp: prep_inv_def dlist_def start_calls_def phase_defs)

lemma prep_run:
  "prep_inv D xs s ys \<Longrightarrow> xs \<noteq> [] \<Longrightarrow> set es \<subseteq> D - set xs \<Longrightarrow> conc_run (map Inl es) s = Some r \<Longrightarrow>
     \<exists>s' ys'. r = Inr s' \<and> prep_inv D xs s' ys' \<and> (\<forall>x. x \<notin> set es \<longrightarrow> calls s' x = calls s x)"
proof (induction es arbitrary: s ys)
  case (Cons e es)
  have "cpc (calls s e) \<noteq> C_Done"
    using Cons.prems(4) by (auto simp: free_prepend_step_def Let_def)
  with prep_step [OF Cons.prems(1,2), of e] Cons.prems(3) obtain s1 ys1 where
    s1: "free_prepend_step e s = Some (Inr s1)" "prep_inv D xs s1 ys1" "\<forall>x. x \<noteq> e \<longrightarrow> calls s1 x = calls s x"
    by auto
  with Cons.IH [OF s1(2) Cons.prems(2)] Cons.prems(3,4) show ?case by auto
qed auto

section \<open>Properties\<close>

text \<open>C21: concurrent prepends to a list that is not empty are safe on every interleaving: no
  step faults, and when all calls have returned the new elements stand in some order in front
  of the old list, linked both ways and counted.\<close>

theorem concurrent_prepends_linked:
  assumes "dlist (h, l) xs" "xs \<noteq> []" "set es \<subseteq> dom h - set xs"
    and "conc_run (map Inl es) (start_calls (h, l)) = Some r"
  shows "\<exists>s. r = Inr s \<and> ((\<forall>e \<in> set es. cpc (calls s e) = C_Done) \<longrightarrow>
    (\<exists>ys. distinct ys \<and> set ys = set es \<and> dlist (cheap s, cbase s) (ys @ xs)))"
proof -
  from prep_run [OF prep_start [OF assms(1)] assms(2-4)] obtain s ys where
    s: "r = Inr s" "prep_inv (dom h) xs s ys" "\<And>x. x \<notin> set es \<Longrightarrow> calls s x = \<lparr>cpc = C_Clear, saved = None\<rparr>"
    by (auto simp: start_calls_def)
  have "distinct ys \<and> set ys = set es \<and> dlist (cheap s, cbase s) (ys @ xs)"
    if all: "\<forall>e \<in> set es. cpc (calls s e) = C_Done"
  proof -
    have "x \<in> set ys \<longleftrightarrow> x \<in> set es" for x
      using prep_invD(4) [OF s(2), of x] s(3) [of x] all by (cases "x \<in> set es") (auto simp: swapped_def)
    then have set: "set ys = set es" by blast
    then have "\<And>y. y \<in> set ys \<Longrightarrow> backed (calls s y)" "filter (returned s) ys = ys"
      using all by (auto simp: phase_defs returned_def intro!: filter_True)
    with pseg_done [OF prep_invD(2) [OF s(2)]] prep_invD [OF s(2)] set assms(2) show ?thesis
      by (auto simp: dlist_def lastp_def add.commute)
  qed
  with s(1) show ?thesis by blast
qed

definition one_element :: ut_state where
  "one_element = (raw_nodes(0 \<mapsto> \<lparr>uprev = None, unext = None, mark_field = 0\<rparr>), \<lparr>lcount = 1, lstart = Some 0, lend = Some 0\<rparr>)"

definition two_prepends :: "addr list" where
  "two_prepends = [1, 2, 1, 2, 2, 2, 1, 1, 2, 2, 1, 1]"

theorem concurrent_prepends_linked_witness:
  "\<exists>s ys. conc_run (map Inl two_prepends) (start_calls one_element) = Some (Inr s)
     \<and> set ys = {1, 2} \<and> dlist (cheap s, cbase s) (ys @ [0])"
proof -
  have d: "dlist (fst one_element, snd one_element) [0]" by (simp add: dlist_def one_element_def)
  have run: "case conc_run (map Inl two_prepends) (start_calls one_element) of
      Some (Inr s) \<Rightarrow> cpc (calls s 1) = C_Done \<and> cpc (calls s 2) = C_Done | _ \<Rightarrow> False"
    by (simp add: two_prepends_def one_element_def raw_nodes_def step_defs)
  then obtain s where s: "conc_run (map Inl two_prepends) (start_calls one_element) = Some (Inr s)"
    "cpc (calls s 1) = C_Done" "cpc (calls s 2) = C_Done"
    by (auto split: option.split_asm sum.split_asm)
  have es: "set two_prepends = {1, 2}" by (auto simp: two_prepends_def)
  then have "set two_prepends \<subseteq> dom (fst one_element) - set [0]" by (auto simp: one_element_def raw_nodes_def)
  from concurrent_prepends_linked [OF d _ this, of "Inr s"] s es show ?thesis by auto
qed

lemma solo_prepend:
  "final (conc_run (replicate (if lend l = None then 7 else 6) (Inl e)) (start_calls (h, l)))
     = Some (ut_list_prepend_orig e (h, l))"
  by (cases "h e"; cases "lstart l"; cases "h (the (lstart l))"; cases "the (lstart l) = e")
    (auto simp: ut_list_prepend_orig_def step_defs replicate_numeral wr_def deref_def)

lemma solo_append:
  "final (conc_run (replicate (if lstart l = None then 7 else 6) (Inr e)) (start_calls (h, l)))
     = Some (ut_list_append_orig e (h, l))"
  by (cases "h e"; cases "lend l"; cases "h (the (lend l))"; cases "the (lend l) = e")
    (auto simp: ut_list_append_orig_def step_defs replicate_numeral wr_def deref_def)

text \<open>C23: a call that runs without interference does exactly what the original code does, faults
  included; it takes seven steps on an empty list and six otherwise.\<close>

theorem solo_call_is_original:
  "final (conc_run (replicate (if lend l = None then 7 else 6) (Inl e)) (start_calls (h, l)))
     = Some (ut_list_prepend_orig e (h, l))
   \<and> final (conc_run (replicate (if lstart l = None then 7 else 6) (Inr e)) (start_calls (h, l)))
     = Some (ut_list_append_orig e (h, l))"
  using solo_prepend solo_append by blast

text \<open>C24: on an empty list two concurrent prepends can leave \<open>list.end\<close> at the wrong element, so
  that \<open>ut_list_validate\<close> fails its assertion; a prepend and an append can each miss the other.\<close>

theorem empty_list_race:
  "obind (final (conc_run (map Inl [1, 1, 2, 2, 2, 2, 2, 2, 2, 1, 1, 1, 1]) (start_calls (raw_nodes, UT_LIST_INIT))))
     ut_list_validate = Some (Inl AssertFail)
   \<and> obind (final (conc_run ([Inl 1, Inl 1, Inr 2, Inr 2] @ replicate 4 (Inr 2) @ replicate 4 (Inl 1))
       (start_calls (raw_nodes, UT_LIST_INIT)))) ut_list_validate = Some (Inl AssertFail)"
  by (simp add: raw_nodes_def step_defs UT_LIST_INIT_def ut_list_validate_def ut_list_map_def
      walk_next.simps walk_prev.simps replicate_numeral)

end
