(* ===== verification/Labs.thy ===== *)
theory Labs
  imports Prelude
begin

text \<open>
  The lab programs: the shared counter without and with a mutex (src/lab1/prac_pthread.cpp,
  src/lab2/prac_mutex_pthread.cpp), the two-thread lock of src/lab3/lock.cpp, and the timer
  handlers of src/lab5 with and without a strand. One step per access to shared memory.
\<close>

section \<open>The counter of lab1 and lab2\<close>

text \<open>\<open>k\<close> stands for \<open>NUM_INCREASE\<close>, and the threads are the indices below some \<open>n\<close>.\<close>

datatype lpc = L_Loop | L_Read | L_Write | L_Unlock | L_Local | L_Done

record lthread =
  lpc :: lpc
  li :: nat
  reg :: int
  cnt_local :: nat

record lab =
  cnt_global :: int
  mutex_of :: "nat option"
  lthreads :: "nat \<Rightarrow> lthread"

definition lab_start :: lab where
  "lab_start = \<lparr>cnt_global = 0, mutex_of = None,
     lthreads = (\<lambda>_. \<lparr>lpc = L_Loop, li = 0, reg = 0, cnt_local = 0\<rparr>)\<rparr>"

definition lset :: "nat \<Rightarrow> lthread \<Rightarrow> lab \<Rightarrow> lab" where
  "lset i t s = s\<lparr>lthreads := (lthreads s)(i := t)\<rparr>"

text \<open>\<open>cnt_global++\<close>: a read, then a write of an \<open>int\<close>.\<close>

definition incr_write :: "nat \<Rightarrow> lpc \<Rightarrow> lab \<Rightarrow> lab res" where
  "incr_write i p s =
     (let t = lthreads s i
      in if reg t < 2 ^ 31 - 1
         then Inr (lset i (t\<lparr>lpc := p\<rparr>) (s\<lparr>cnt_global := reg t + 1\<rparr>)) else Inl IntOverflow)"

definition incr_local :: "nat \<Rightarrow> lab \<Rightarrow> lab" where
  "incr_local i s =
     (let t = lthreads s i
      in lset i (t\<lparr>lpc := L_Loop, li := li t + 1, cnt_local := cnt_local t + 1\<rparr>) s)"

definition lab1_step :: "nat \<Rightarrow> nat \<Rightarrow> lab \<Rightarrow> lab res option" where
  "lab1_step k i s =
     (let t = lthreads s i in
      case lpc t of
        L_Loop \<Rightarrow> Some (Inr (lset i (t\<lparr>lpc := if li t < k then L_Read else L_Done\<rparr>) s))
      | L_Read \<Rightarrow> Some (Inr (lset i (t\<lparr>lpc := L_Write, reg := cnt_global s\<rparr>) s))
      | L_Write \<Rightarrow> Some (incr_write i L_Local s)
      | L_Local \<Rightarrow> Some (Inr (incr_local i s))
      | _ \<Rightarrow> None)"

text \<open>In lab2 the lock is taken where the loop is entered.\<close>

definition lab2_step :: "nat \<Rightarrow> nat \<Rightarrow> lab \<Rightarrow> lab res option" where
  "lab2_step k i s =
     (let t = lthreads s i in
      case lpc t of
        L_Loop \<Rightarrow> if li t < k
           then if mutex_of s = None
                then Some (Inr (lset i (t\<lparr>lpc := L_Read\<rparr>) (s\<lparr>mutex_of := Some i\<rparr>))) else None
           else Some (Inr (lset i (t\<lparr>lpc := L_Done\<rparr>) s))
      | L_Read \<Rightarrow> Some (Inr (lset i (t\<lparr>lpc := L_Write, reg := cnt_global s\<rparr>) s))
      | L_Write \<Rightarrow> Some (incr_write i L_Unlock s)
      | L_Unlock \<Rightarrow> Some (Inr (lset i (t\<lparr>lpc := L_Local\<rparr>) (s\<lparr>mutex_of := None\<rparr>)))
      | L_Local \<Rightarrow> Some (Inr (incr_local i s))
      | L_Done \<Rightarrow> None)"

fun lab_run :: "(nat \<Rightarrow> lab \<Rightarrow> lab res option) \<Rightarrow> nat list \<Rightarrow> lab \<Rightarrow> lab res option" where
  "lab_run f [] s = Some (Inr s)"
| "lab_run f (i # is) s = obind (f i s) (lab_run f is)"

section \<open>The lock of lab3\<close>

datatype kpc = K_Flag | K_Wait | K_Victim | K_Section | K_Done

record pets =
  g_flag :: "nat \<Rightarrow> bool"
  victim :: nat
  kpcs :: "nat \<Rightarrow> kpc"
  pet_size :: "nat \<Rightarrow> nat"

definition InitLock :: pets where
  "InitLock = \<lparr>g_flag = (\<lambda>_. False), victim = 0, kpcs = (\<lambda>_. K_Flag), pet_size = (\<lambda>_. 0)\<rparr>"

definition kset :: "nat \<Rightarrow> kpc \<Rightarrow> pets \<Rightarrow> pets" where
  "kset i p s = s\<lparr>kpcs := (kpcs s)(i := p)\<rparr>"

text \<open>
  The loop variable of \<open>FeedMyPet\<close> equals \<open>pet_size\<close>; \<open>k\<close> stands for \<open>NUM_SNACK\<close>.
  \<open>Lock\<close>: set the flag, then read the other flag and the victim in turn.
\<close>

definition Lock_flag :: "nat \<Rightarrow> pets \<Rightarrow> pets" where
  "Lock_flag i s = kset i K_Wait (s\<lparr>g_flag := (g_flag s)(i := True)\<rparr>)"

definition Lock_wait :: "nat \<Rightarrow> pets \<Rightarrow> pets" where
  "Lock_wait i s = kset i (if g_flag s (1 - i) then K_Victim else K_Section) s"

definition Lock_victim :: "nat \<Rightarrow> pets \<Rightarrow> pets" where
  "Lock_victim i s = kset i (if victim s = i then K_Wait else K_Section) s"

definition Unlock :: "nat \<Rightarrow> pets \<Rightarrow> pets" where
  "Unlock i s = s\<lparr>g_flag := (g_flag s)(i := False)\<rparr>"

definition FeedMyPet_step :: "nat \<Rightarrow> nat \<Rightarrow> pets \<Rightarrow> pets option" where
  "FeedMyPet_step k i s =
     (case kpcs s i of
        K_Flag \<Rightarrow> Some (if pet_size s i < k then Lock_flag i s else kset i K_Done s)
      | K_Wait \<Rightarrow> Some (Lock_wait i s)
      | K_Victim \<Rightarrow> Some (Lock_victim i s)
      | K_Section \<Rightarrow> Some (kset i K_Flag (Unlock i (s\<lparr>pet_size := (pet_size s)(i := pet_size s i + 1)\<rparr>)))
      | K_Done \<Rightarrow> None)"

fun pets_run :: "nat \<Rightarrow> nat list \<Rightarrow> pets \<Rightarrow> pets option" where
  "pets_run k [] s = Some s"
| "pets_run k (i # is) s = Option.bind (FeedMyPet_step k i s) (pets_run k is)"

section \<open>The timers of lab5\<close>

text \<open>
  A timer is \<open>Waiting\<close> while its handler is registered, or its handler runs, or it is \<open>Idle\<close>.
  When a waiting timer expires is up to the schedule.
\<close>

datatype timer = Waiting | Printing | Adding int | Rearming | Idle

record timers =
  tcount :: int
  tstate :: "nat \<Rightarrow> timer"

text \<open>A whole handler: on the strand it runs without another one in between.\<close>

definition Print_strand :: "int \<Rightarrow> nat \<Rightarrow> timers \<Rightarrow> timers option" where
  "Print_strand limit i s =
     (if tstate s i = Waiting
      then Some (if tcount s < limit then s\<lparr>tcount := tcount s + 1\<rparr> else s\<lparr>tstate := (tstate s)(i := Idle)\<rparr>)
      else None)"

text \<open>The handler of timer_2thread.cpp on its own thread.\<close>

definition Print_step :: "nat \<Rightarrow> timers \<Rightarrow> timers option" where
  "Print_step i s =
     (case tstate s i of
        Waiting \<Rightarrow> Some (s\<lparr>tstate := (tstate s)(i := if tcount s < 10 then Printing else Idle)\<rparr>)
      | Printing \<Rightarrow> Some (s\<lparr>tstate := (tstate s)(i := Adding (tcount s))\<rparr>)
      | Adding c \<Rightarrow> Some (s\<lparr>tcount := c + 1, tstate := (tstate s)(i := Rearming)\<rparr>)
      | Rearming \<Rightarrow> Some (s\<lparr>tstate := (tstate s)(i := Waiting)\<rparr>)
      | Idle \<Rightarrow> None)"

definition timers_start :: timers where
  "timers_start = \<lparr>tcount = 0, tstate = (\<lambda>_. Waiting)\<rparr>"

fun timers_run :: "(nat \<Rightarrow> timers \<Rightarrow> timers option) \<Rightarrow> nat list \<Rightarrow> timers \<Rightarrow> timers option" where
  "timers_run f [] s = Some s"
| "timers_run f (i # is) s = Option.bind (f i s) (timers_run f is)"

section \<open>The counter under the mutex\<close>

definition counted :: "lthread \<Rightarrow> nat" where
  "counted t = cnt_local t + (if lpc t = L_Unlock \<or> lpc t = L_Local then 1 else 0)"

definition holding :: "lthread \<Rightarrow> bool" where
  "holding t \<longleftrightarrow> lpc t = L_Read \<or> lpc t = L_Write \<or> lpc t = L_Unlock"

definition lthread_ok :: "nat \<Rightarrow> lthread \<Rightarrow> bool" where
  "lthread_ok k t \<longleftrightarrow> li t = cnt_local t \<and> li t \<le> k \<and> (lpc t = L_Done \<longrightarrow> li t = k)
     \<and> (lpc t \<noteq> L_Loop \<and> lpc t \<noteq> L_Done \<longrightarrow> li t < k)"

definition lab2_inv :: "nat \<Rightarrow> nat \<Rightarrow> lab \<Rightarrow> bool" where
  "lab2_inv n k s \<longleftrightarrow> cnt_global s = int (\<Sum>i<n. counted (lthreads s i))
     \<and> (\<forall>i. holding (lthreads s i) \<longleftrightarrow> mutex_of s = Some i)
     \<and> (\<forall>i. lpc (lthreads s i) = L_Write \<longrightarrow> reg (lthreads s i) = cnt_global s)
     \<and> (\<forall>i. lthread_ok k (lthreads s i))"

lemma lab2_invD:
  assumes "lab2_inv n k s"
  shows "cnt_global s = int (\<Sum>i<n. counted (lthreads s i))"
    "holding (lthreads s i) \<longleftrightarrow> mutex_of s = Some i"
    "lpc (lthreads s i) = L_Write \<Longrightarrow> reg (lthreads s i) = cnt_global s" "lthread_ok k (lthreads s i)"
  using assms unfolding lab2_inv_def by blast+

lemma sum_counted_upd:
  assumes "i < (n::nat)"
  shows "(\<Sum>j<n. f (if j = i then x else g j)) + f (g i) = (\<Sum>j<n. f (g j)) + (f x :: nat)"
proof -
  have "(\<Sum>j<n. f (if j = i then x else g j)) = f x + (\<Sum>j \<in> {..<n} - {i}. f (g j))"
    using assms by (subst sum.remove [of _ i]) auto
  moreover have "(\<Sum>j<n. f (g j)) = f (g i) + (\<Sum>j \<in> {..<n} - {i}. f (g j))"
    using assms by (subst sum.remove [of _ i]) auto
  ultimately show ?thesis by simp
qed

lemma counted_le: "lthread_ok k t \<Longrightarrow> counted t \<le> k"
  unfolding lthread_ok_def counted_def by auto

lemma counted_write:
  assumes I: "lab2_inv n k s" and i: "i < n" "lpc (lthreads s i) = L_Write"
  shows "(\<Sum>j<n. counted (lthreads s j)) < n * k"
proof -
  have "counted (lthreads s i) < k"
    using lab2_invD(4) [OF I, of i] i(2) by (simp add: lthread_ok_def counted_def)
  then have "(\<Sum>j<n. counted (lthreads s j)) < (\<Sum>j<n. k)"
    using counted_le [OF lab2_invD(4) [OF I]] i(1) by (intro sum_strict_mono_ex1) auto
  then show ?thesis by simp
qed

text \<open>A step of thread \<open>i\<close> that changes its locals to \<open>t\<close>.\<close>

lemma lab2_update:
  assumes I: "lab2_inv n k s" and i: "i < n" and t: "lthread_ok k t"
    and g: "g = cnt_global s + int (counted t) - int (counted (lthreads s i))"
    and h: "holding t \<longleftrightarrow> m = Some i" "\<And>j. j \<noteq> i \<Longrightarrow> mutex_of s = Some j \<longleftrightarrow> m = Some j"
    and w: "lpc t = L_Write \<longrightarrow> reg t = g" "\<And>j. j \<noteq> i \<Longrightarrow> lpc (lthreads s j) = L_Write \<Longrightarrow> g = cnt_global s"
  shows "lab2_inv n k (lset i t (s\<lparr>cnt_global := g, mutex_of := m\<rparr>))"
proof -
  have "g = int (\<Sum>j<n. counted (if j = i then t else lthreads s j))"
    using sum_counted_upd [OF i, of counted t "lthreads s"] unfolding g lab2_invD(1) [OF I] by linarith
  with h t w lab2_invD(2-4) [OF I] show ?thesis
    unfolding lab2_inv_def by (simp add: lset_def fun_upd_def)
qed

lemma lab2_step_inv:
  assumes I: "lab2_inv n k s" and i: "i < n" and nk: "n * k < 2 ^ 31" and r: "lab2_step k i s = Some r"
  shows "\<exists>s'. r = Inr s' \<and> lab2_inv n k s'"
proof -
  let ?t = "lthreads s i"
  note ok = lab2_invD(4) [OF I, of i] and h = lab2_invD(2) [OF I]
  have same: "s\<lparr>cnt_global := cnt_global s, mutex_of := mutex_of s\<rparr> = s"
    "s\<lparr>cnt_global := cnt_global s, mutex_of := m\<rparr> = s\<lparr>mutex_of := m\<rparr>"
    "mutex_of s = m \<Longrightarrow> s\<lparr>cnt_global := g, mutex_of := m\<rparr> = s\<lparr>cnt_global := g\<rparr>"
    "mutex_of s = m \<Longrightarrow> s\<lparr>mutex_of := m\<rparr> = s" for m g by auto
  note U = lab2_update [OF I i]
  show ?thesis
  proof (cases "lpc ?t")
    case L_Loop
    then have "lab2_inv n k (lset i (?t\<lparr>lpc := L_Done\<rparr>) s)" if "\<not> li ?t < k"
      using U [of "?t\<lparr>lpc := L_Done\<rparr>" "cnt_global s" "mutex_of s"] ok h [of i] that
      by (simp add: same lthread_ok_def counted_def holding_def)
    moreover have "lab2_inv n k (lset i (?t\<lparr>lpc := L_Read\<rparr>) (s\<lparr>mutex_of := Some i\<rparr>))"
      if "li ?t < k" "mutex_of s = None"
      using L_Loop U [of "?t\<lparr>lpc := L_Read\<rparr>" "cnt_global s" "Some i"] ok h [of i] that
      by (simp add: same lthread_ok_def counted_def holding_def)
    ultimately show ?thesis using r L_Loop by (auto simp: lab2_step_def Let_def split: if_splits)
  next
    case L_Read
    with U [of "?t\<lparr>lpc := L_Write, reg := cnt_global s\<rparr>" "cnt_global s" "mutex_of s"] ok h [of i] r show ?thesis
      by (auto simp: lab2_step_def Let_def same lthread_ok_def counted_def holding_def)
  next
    case L_Write
    have "int (\<Sum>j<n. counted (lthreads s j)) < int (2 ^ 31 - 1)"
      using counted_write [OF I i L_Write] nk by (intro iffD2 [OF of_nat_less_iff]) simp
    then have "cnt_global s < 2 ^ 31 - 1" using lab2_invD(1) [OF I] by simp
    moreover have "lpc (lthreads s j) \<noteq> L_Write" if "j \<noteq> i" for j
      using h [of i] h [of j] L_Write that by (auto simp: holding_def)
    ultimately show ?thesis
      using U [of "?t\<lparr>lpc := L_Unlock\<rparr>" "cnt_global s + 1" "mutex_of s"] ok h [of i] r L_Write lab2_invD(3) [OF I L_Write]
      by (auto simp: lab2_step_def incr_write_def Let_def same lthread_ok_def counted_def holding_def)
  next
    case L_Unlock
    then have "mutex_of s = Some i" using h [of i] by (simp add: holding_def)
    with L_Unlock U [of "?t\<lparr>lpc := L_Local\<rparr>" "cnt_global s" None] ok r show ?thesis
      by (auto simp: lab2_step_def Let_def same lthread_ok_def counted_def holding_def)
  next
    case L_Local
    with U [of "?t\<lparr>lpc := L_Loop, li := li ?t + 1, cnt_local := cnt_local ?t + 1\<rparr>" "cnt_global s" "mutex_of s"] ok h [of i] r
    show ?thesis
      by (auto simp: lab2_step_def incr_local_def Let_def same lthread_ok_def counted_def holding_def)
  next
    case L_Done
    with r show ?thesis by (simp add: lab2_step_def Let_def)
  qed
qed

lemma lab2_run_inv:
  "lab2_inv n k s \<Longrightarrow> n * k < 2 ^ 31 \<Longrightarrow> set is \<subseteq> {..<n} \<Longrightarrow> lab_run (lab2_step k) is s = Some r \<Longrightarrow>
     \<exists>s'. r = Inr s' \<and> lab2_inv n k s'"
proof (induction "is" arbitrary: s)
  case (Cons i "is")
  then obtain q where q: "lab2_step k i s = Some q" by (cases "lab2_step k i s") auto
  from lab2_step_inv [OF Cons.prems(1) _ Cons.prems(2) q] Cons.prems(3) obtain s1 where
    "q = Inr s1" "lab2_inv n k s1" by auto
  with Cons q show ?case by auto
qed auto

lemma lab2_start: "lab2_inv n k lab_start"
  by (simp add: lab2_inv_def lab_start_def counted_def holding_def lthread_ok_def)

section \<open>Properties\<close>

text \<open>C25: with the mutex no increment is lost: on every schedule, when all threads have returned,
  the global count is the number of threads times the number of increments, and the \<open>int\<close> does
  not overflow on the way.\<close>

theorem mutex_counter_exact:
  assumes "n * k < 2 ^ 31" "set sched \<subseteq> {..<n}" "lab_run (lab2_step k) sched lab_start = Some r"
  shows "\<exists>s. r = Inr s \<and> ((\<forall>i<n. lpc (lthreads s i) = L_Done) \<longrightarrow>
    cnt_global s = int (n * k) \<and> (\<forall>i<n. cnt_local (lthreads s i) = k))"
proof -
  from lab2_run_inv [OF lab2_start assms] obtain s where s: "r = Inr s" "lab2_inv n k s" by blast
  have "cnt_local (lthreads s i) = k" "counted (lthreads s i) = k" if "lpc (lthreads s i) = L_Done" for i
    using lab2_invD(4) [OF s(2), of i] that by (simp_all add: lthread_ok_def counted_def)
  with s(1) lab2_invD(1) [OF s(2)] show ?thesis by simp
qed

definition two_rounds :: "nat list" where
  "two_rounds = [0, 0, 0, 0, 1, 1, 0, 1, 1, 1, 0, 1]"

theorem mutex_counter_exact_witness:
  "\<exists>s. lab_run (lab2_step 1) two_rounds lab_start = Some (Inr s) \<and> cnt_global s = 2"
proof -
  have run: "case lab_run (lab2_step 1) two_rounds lab_start of
      Some (Inr s) \<Rightarrow> lpc (lthreads s 0) = L_Done \<and> lpc (lthreads s 1) = L_Done | _ \<Rightarrow> False"
    by (simp add: two_rounds_def lab_start_def lab2_step_def lset_def incr_write_def incr_local_def Let_def)
  then obtain s where s: "lab_run (lab2_step 1) two_rounds lab_start = Some (Inr s)"
    "lpc (lthreads s 0) = L_Done" "lpc (lthreads s 1) = L_Done"
    by (auto split: option.split_asm sum.split_asm)
  from mutex_counter_exact [of 2 1 two_rounds "Inr s"] s show ?thesis
    by (auto simp: two_rounds_def less_2_cases_iff)
qed

text \<open>Without the mutex an increment can be lost.\<close>

lemma lab1_lost_update:
  "\<exists>s. lab_run (lab1_step 1) [0, 1, 0, 1, 0, 1, 0, 1, 0, 1] lab_start = Some (Inr s)
     \<and> lpc (lthreads s 0) = L_Done \<and> lpc (lthreads s 1) = L_Done \<and> cnt_global s = 1"
  by (simp add: lab_start_def lab1_step_def lset_def incr_write_def incr_local_def Let_def)

text \<open>C26: the lock of lab3 does not exclude: \<open>victim\<close> is never written, so Bob never waits, and
  both threads can be between \<open>Lock\<close> and \<open>Unlock\<close>.\<close>

theorem lock_does_not_exclude:
  "\<exists>s. pets_run 1 [0, 0, 1, 1, 1] InitLock = Some s \<and> kpcs s 0 = K_Section \<and> kpcs s 1 = K_Section"
  by (simp add: InitLock_def FeedMyPet_step_def Lock_flag_def Lock_wait_def Lock_victim_def kset_def)

text \<open>On the strand the final count is the limit, whichever timers fire when.\<close>

lemma strand_run:
  "timers_run (Print_strand limit) is s = Some s' \<Longrightarrow> tcount s \<le> limit \<Longrightarrow>
     (\<forall>i. tstate s i = Waiting \<or> tcount s = limit) \<Longrightarrow>
     tcount s' \<le> limit \<and> (\<forall>i. tstate s' i = Waiting \<or> tcount s' = limit)"
proof (induction "is" arbitrary: s)
  case (Cons i "is")
  then obtain s1 where s1: "Print_strand limit i s = Some s1" "timers_run (Print_strand limit) is s1 = Some s'"
    by (auto simp: bind_eq_Some_conv)
  then have "tcount s1 \<le> limit" "\<forall>i. tstate s1 i = Waiting \<or> tcount s1 = limit"
    using Cons.prems(2,3) by (auto simp: Print_strand_def split: if_splits)
  from Cons.IH [OF s1(2) this] show ?case .
qed simp

lemma strand_count_exact:
  "timers_run (Print_strand 10) is timers_start = Some s \<Longrightarrow> tstate s i = Idle \<Longrightarrow> tcount s = 10"
  using strand_run [of 10 "is" timers_start s] by (auto simp: timers_start_def)

text \<open>Off the strand two handlers can both pass the test at 9.\<close>

lemma two_thread_timers_exceed:
  "\<exists>s. timers_run Print_step (concat (replicate 9 [0, 0, 0, 0]) @ [0, 1, 0, 0, 0, 1, 1, 1, 0, 1]) timers_start = Some s
     \<and> tstate s 0 = Idle \<and> tstate s 1 = Idle \<and> tcount s = 11"
  by (simp add: timers_start_def Print_step_def replicate_numeral)

end
