(* ===== verification/WorkQueue.thy ===== *)
theory WorkQueue
  imports UtList
begin

text \<open>
  The list of data pointers (storage/xtradb/ut/ut0list.cc) and the work queue built on it
  (storage/xtradb/ut/ut0wqueue.cc). The queue operations run under \<open>wq->mutex\<close>, so each locked
  part is one step. The address of a new list node is an argument.
\<close>

section \<open>The list\<close>

record ib_list_node_t =
  prev :: ptr
  nxt :: ptr
  data :: nat

record ib_list_t =
  first :: ptr
  last_node :: ptr
  is_heap_list :: bool

type_synonym ib_heap = "addr \<rightharpoonup> ib_list_node_t"
type_synonym ib_state = "ib_heap \<times> ib_list_t"

definition ib_list_create :: ib_list_t where
  "ib_list_create = \<lparr>first = None, last_node = None, is_heap_list = False\<rparr>"

definition ib_list_create_heap :: ib_list_t where
  "ib_list_create_heap = \<lparr>first = None, last_node = None, is_heap_list = True\<rparr>"

definition ib_list_free :: "ib_list_t \<Rightarrow> unit res" where
  "ib_list_free l = (if is_heap_list l then Inl AssertFail else Inr ())"

definition ib_list_is_empty :: "ib_list_t \<Rightarrow> bool" where
  "ib_list_is_empty l \<longleftrightarrow> \<not> (first l \<noteq> None \<or> last_node l \<noteq> None)"

partial_function (option) ib_list_len_loop :: "ib_heap \<Rightarrow> ptr \<Rightarrow> nat \<Rightarrow> nat res option" where
  [code]: "ib_list_len_loop h p len =
     (case p of None \<Rightarrow> Some (Inr len)
      | Some a \<Rightarrow> (case h a of None \<Rightarrow> Some (Inl UseAfterFree)
         | Some n \<Rightarrow> ib_list_len_loop h (nxt n) (len + 1)))"

definition ib_wr :: "ib_heap \<Rightarrow> ptr \<Rightarrow> (ib_list_node_t \<Rightarrow> ib_list_node_t) \<Rightarrow> ib_heap res" where
  "ib_wr h p f = rbind (deref h p) (\<lambda>n. Inr (h(the p \<mapsto> f n)))"

definition ib_list_add_after :: "addr \<Rightarrow> ptr \<Rightarrow> nat \<Rightarrow> ib_state \<Rightarrow> ib_state res" where
  "ib_list_add_after node prev_node d s =
     (let (h, l) = s in
      if first l = None
      then if prev_node \<noteq> None then Inl AssertFail
           else Inr (h(node \<mapsto> \<lparr>prev = None, nxt = None, data = d\<rparr>), l\<lparr>first := Some node, last_node := Some node\<rparr>)
      else if prev_node = None
      then rbind (ib_wr (h(node \<mapsto> \<lparr>prev = None, nxt = first l, data = d\<rparr>)) (first l) (prev_update (\<lambda>_. Some node)))
             (\<lambda>h1. Inr (h1, l\<lparr>first := Some node\<rparr>))
      else rbind (deref h prev_node) (\<lambda>p.
           rbind (ib_wr (h(node \<mapsto> \<lparr>prev = prev_node, nxt = nxt p, data = d\<rparr>)) prev_node (nxt_update (\<lambda>_. Some node)))
             (\<lambda>h1. if nxt p \<noteq> None
                   then rbind (ib_wr h1 (nxt p) (prev_update (\<lambda>_. Some node))) (\<lambda>h2. Inr (h2, l))
                   else Inr (h1, l\<lparr>last_node := Some node\<rparr>))))"

definition ib_list_add_first :: "addr \<Rightarrow> nat \<Rightarrow> ib_state \<Rightarrow> ib_state res" where
  "ib_list_add_first node d s = ib_list_add_after node (first (snd s)) d s"

definition ib_list_add_last :: "addr \<Rightarrow> nat \<Rightarrow> ib_state \<Rightarrow> ib_state res" where
  "ib_list_add_last node d s = ib_list_add_after node (last_node (snd s)) d s"

definition ib_list_remove :: "addr \<Rightarrow> ib_state \<Rightarrow> ib_state res" where
  "ib_list_remove node s =
     (let (h, l) = s in
      rbind (deref h (Some node)) (\<lambda>n.
      rbind (if prev n \<noteq> None then rbind (ib_wr h (prev n) (nxt_update (\<lambda>_. nxt n))) (\<lambda>h1. Inr (h1, l))
             else Inr (h, l\<lparr>first := nxt n\<rparr>)) (\<lambda>(h1, l1).
      rbind (if nxt n \<noteq> None then rbind (ib_wr h1 (nxt n) (prev_update (\<lambda>_. prev n))) (\<lambda>h2. Inr (h2, l1))
             else Inr (h1, l1\<lparr>last_node := prev n\<rparr>)) (\<lambda>(h2, l2).
      rbind (ib_wr h2 (Some node) (\<lambda>n. n\<lparr>prev := None, nxt := None\<rparr>)) (\<lambda>h3. Inr (h3, l2))))))"

section \<open>The work queue\<close>

record ib_wqueue_t =
  items :: ib_list_t
  wheap :: ib_heap
  event_set :: bool

definition ib_wqueue_create :: ib_wqueue_t where
  "ib_wqueue_create = \<lparr>items = ib_list_create, wheap = Map.empty, event_set = False\<rparr>"

definition ib_wqueue_free :: "ib_wqueue_t \<Rightarrow> unit res" where
  "ib_wqueue_free w = ib_list_free (items w)"

definition with_items :: "ib_wqueue_t \<Rightarrow> ib_state \<Rightarrow> ib_wqueue_t" where
  "with_items w s = w\<lparr>wheap := fst s, items := snd s\<rparr>"

definition ib_wqueue_add :: "addr \<Rightarrow> nat \<Rightarrow> ib_wqueue_t \<Rightarrow> ib_wqueue_t res" where
  "ib_wqueue_add node item w = rbind (ib_list_add_last node item (wheap w, items w)) (\<lambda>s.
     Inr ((with_items w s)\<lparr>event_set := True\<rparr>))"

text \<open>Unlink the first node and return what it carries.\<close>

definition take_first :: "ib_wqueue_t \<Rightarrow> (nat \<times> ib_wqueue_t) res" where
  "take_first w = rbind (deref (wheap w) (first (items w))) (\<lambda>n.
     rbind (ib_list_remove (the (first (items w))) (wheap w, items w)) (\<lambda>s.
     Inr (data n, with_items w s)))"

text \<open>
  The locked part of an iteration of \<open>ib_wqueue_wait\<close>, entered when the event is set: the item,
  or \<open>None\<close> to wait again.
\<close>

definition ib_wqueue_wait :: "ib_wqueue_t \<Rightarrow> (nat option \<times> ib_wqueue_t) res option" where
  "ib_wqueue_wait w =
     (if \<not> event_set w then None
      else if first (items w) = None then Some (Inr (None, w))
      else Some (rbind (take_first w) (\<lambda>(d, w1).
        Inr (Some d, if first (items w1) = None then w1\<lparr>event_set := False\<rparr> else w1))))"

text \<open>The locked part of an iteration of \<open>ib_wqueue_timedwait\<close>.\<close>

definition ib_wqueue_timedwait :: "ib_wqueue_t \<Rightarrow> (nat option \<times> ib_wqueue_t) res" where
  "ib_wqueue_timedwait w =
     (if first (items w) \<noteq> None then rbind (take_first w) (\<lambda>(d, w1). Inr (Some d, w1))
      else Inr (None, w\<lparr>event_set := False\<rparr>))"

definition ib_wqueue_nowait :: "ib_wqueue_t \<Rightarrow> (nat option \<times> ib_wqueue_t) res" where
  "ib_wqueue_nowait w =
     rbind (if \<not> ib_list_is_empty (items w) \<and> first (items w) \<noteq> None
            then rbind (take_first w) (\<lambda>(d, w1). Inr (Some d, w1)) else Inr (None, w)) (\<lambda>(d, w1).
     Inr (d, if ib_list_is_empty (items w1) then w1\<lparr>event_set := False\<rparr> else w1))"

definition ib_wqueue_is_empty :: "ib_wqueue_t \<Rightarrow> bool" where
  "ib_wqueue_is_empty w = ib_list_is_empty (items w)"

definition ib_wqueue_len :: "ib_wqueue_t \<Rightarrow> nat res option" where
  "ib_wqueue_len w = ib_list_len_loop (wheap w) (first (items w)) 0"

section \<open>The list as a list\<close>

definition links :: "ib_heap \<Rightarrow> ut_heap" where
  "links h = (\<lambda>a. map_option (\<lambda>n. \<lparr>uprev = prev n, unext = nxt n, mark_field = 0\<rparr>) (h a))"

definition iblist :: "ib_state \<Rightarrow> addr list \<Rightarrow> bool" where
  "iblist s xs \<longleftrightarrow> distinct xs \<and> dseg (links (fst s)) None xs None
     \<and> first (snd s) = hdp xs None \<and> last_node (snd s) = lastp xs None"

abbreviation items_of :: "ib_heap \<Rightarrow> addr list \<Rightarrow> nat list" where
  "items_of h xs \<equiv> map (\<lambda>a. data (the (h a))) xs"

lemma links_upd [simp]: "links (h(a \<mapsto> n)) = (links h)(a \<mapsto> \<lparr>uprev = prev n, unext = nxt n, mark_field = 0\<rparr>)"
  by (auto simp: links_def)

lemma ib_wr_Some [simp]: "h a = Some n \<Longrightarrow> ib_wr h (Some a) f = Inr (h(a \<mapsto> f n))"
  by (simp add: ib_wr_def)

lemma links_Some: "links h a = Some m \<longleftrightarrow> (\<exists>n. h a = Some n \<and> m = \<lparr>uprev = prev n, unext = nxt n, mark_field = 0\<rparr>)"
  by (auto simp: links_def)

lemma add_last_iblist:
  assumes "iblist (h, l) xs" "h a = None"
  shows "\<exists>h' l'. ib_list_add_last a d (h, l) = Inr (h', l') \<and> iblist (h', l') (xs @ [a])
    \<and> items_of h' (xs @ [a]) = items_of h xs @ [d] \<and> dom h' = insert a (dom h)"
proof -
  have a: "a \<notin> set xs" using assms dseg_dom [of "links h" None xs None a] by (auto simp: iblist_def links_Some)
  show ?thesis
  proof (cases xs rule: rev_cases)
    case Nil
    with assms show ?thesis by (auto simp: ib_list_add_last_def ib_list_add_after_def iblist_def)
  next
    case (snoc ys y)
    with assms(1) obtain n where n: "h y = Some n" "nxt n = None" by (auto simp: iblist_def links_def split: option.splits)
    have "hdp ys (Some y) \<noteq> None" by (cases ys) auto
    with assms snoc n a show ?thesis
      by (auto simp: ib_list_add_last_def ib_list_add_after_def iblist_def links_def[of h] split: option.splits)
  qed
qed

lemma remove_first_iblist:
  assumes "iblist (h, l) (x # xs)"
  shows "\<exists>h' l'. ib_list_remove x (h, l) = Inr (h', l') \<and> iblist (h', l') xs \<and> items_of h' xs = items_of h xs
    \<and> dom h' = dom h"
proof (cases xs)
  case Nil
  with assms show ?thesis by (auto simp: ib_list_remove_def iblist_def links_def[of h] split: option.splits)
next
  case (Cons y ys)
  then obtain n m where n: "h x = Some n" "prev n = None" "nxt n = Some y"
    and m: "h y = Some m" "nxt m = hdp ys None" "dseg (links h) (Some y) ys None"
    using assms by (auto simp: iblist_def links_Some split: option.splits)
  let ?h = "h(y \<mapsto> m\<lparr>prev := None\<rparr>, x \<mapsto> n\<lparr>prev := None, nxt := None\<rparr>)"
  have d: "x \<noteq> y" "x \<notin> set ys" "y \<notin> set ys" "distinct ys" "last_node l = lastp ys (Some y)"
    using assms Cons by (auto simp: iblist_def)
  then have "ib_list_remove x (h, l) = Inr (?h, l\<lparr>first := Some y\<rparr>)"
    using n m by (simp add: ib_list_remove_def)
  moreover have "iblist (?h, l\<lparr>first := Some y\<rparr>) xs" using Cons d m by (auto simp: iblist_def)
  moreover have "items_of ?h xs = items_of h xs" "dom ?h = dom h" using Cons d m n by auto
  ultimately show ?thesis by blast
qed

lemma ib_list_len_iblist:
  "dseg (links h) p xs None \<Longrightarrow> ib_list_len_loop h (hdp xs None) k = Some (Inr (k + length xs))"
proof (induction xs arbitrary: p k)
  case Nil
  then show ?case by (subst ib_list_len_loop.simps) simp
next
  case (Cons x xs)
  then obtain n where "h x = Some n" "nxt n = hdp xs None" "dseg (links h) (Some x) xs None"
    by (auto simp: links_Some split: option.splits)
  with Cons.IH [of "Some x" "k + 1"] show ?case by (subst ib_list_len_loop.simps) simp
qed

section \<open>The queue as a list of items\<close>

text \<open>\<open>q\<close> is what the queue holds; while it holds something the event is set.\<close>

definition wq_ok :: "ib_wqueue_t \<Rightarrow> nat list \<Rightarrow> bool" where
  "wq_ok w q \<longleftrightarrow> (\<exists>xs. iblist (wheap w, items w) xs \<and> items_of (wheap w) xs = q) \<and> (q \<noteq> [] \<longrightarrow> event_set w)"

lemma wq_okE:
  assumes "wq_ok w q"
  obtains xs where "iblist (wheap w, items w) xs" "q = items_of (wheap w) xs" "q \<noteq> [] \<Longrightarrow> event_set w"
  using assms by (auto simp: wq_ok_def)

lemma wq_create: "wq_ok ib_wqueue_create []"
  by (auto simp: wq_ok_def ib_wqueue_create_def ib_list_create_def iblist_def)

lemma wq_add:
  assumes "wq_ok w q" "wheap w a = None"
  shows "\<exists>w'. ib_wqueue_add a d w = Inr w' \<and> wq_ok w' (q @ [d]) \<and> dom (wheap w') = insert a (dom (wheap w))"
proof -
  from assms(1) obtain xs where xs: "iblist (wheap w, items w) xs" "q = items_of (wheap w) xs" by (rule wq_okE)
  from add_last_iblist [OF xs(1) assms(2), of d] obtain h l where
    "ib_list_add_last a d (wheap w, items w) = Inr (h, l)" "iblist (h, l) (xs @ [a])"
    "items_of h (xs @ [a]) = q @ [d]" "dom h = insert a (dom (wheap w))" using xs(2) by blast
  then show ?thesis by (auto simp: ib_wqueue_add_def with_items_def wq_ok_def)
qed

lemma wq_empty: "wq_ok w [] \<Longrightarrow> first (items w) = None \<and> ib_list_is_empty (items w)"
  by (auto simp: wq_ok_def iblist_def ib_list_is_empty_def)

lemma wq_first:
  assumes "wq_ok w (d # q)"
  shows "\<exists>w'. take_first w = Inr (d, w') \<and> (\<forall>e. wq_ok (w'\<lparr>event_set := e\<rparr>) q \<longleftrightarrow> q = [] \<or> e)
    \<and> event_set w' \<and> dom (wheap w') = dom (wheap w) \<and> (first (items w') = None \<longleftrightarrow> q = []) \<and> (ib_list_is_empty (items w') \<longleftrightarrow> q = [])"
    "first (items w) \<noteq> None" "\<not> ib_list_is_empty (items w)" "event_set w"
proof -
  from assms obtain x xs where xs: "iblist (wheap w, items w) (x # xs)" "d # q = items_of (wheap w) (x # xs)"
    and ev: "event_set w" by (auto elim!: wq_okE)
  from remove_first_iblist [OF xs(1)] obtain h l where
    r: "ib_list_remove x (wheap w, items w) = Inr (h, l)" "iblist (h, l) xs" "items_of h xs = q"
    "dom h = dom (wheap w)" using xs(2) by auto
  obtain n where n: "wheap w x = Some n" using xs(1) by (auto simp: iblist_def links_Some split: option.splits)
  have f: "first (items w) = Some x" using xs(1) by (simp add: iblist_def)
  then show "first (items w) \<noteq> None" "\<not> ib_list_is_empty (items w)" "event_set w"
    using ev by (simp_all add: ib_list_is_empty_def)
  have "first l = None \<longleftrightarrow> q = []" "ib_list_is_empty l \<longleftrightarrow> q = []"
    using r(2,3) by (cases xs; auto simp: iblist_def ib_list_is_empty_def)+
  with r n f ev xs(2)
  show "\<exists>w'. take_first w = Inr (d, w') \<and> (\<forall>e. wq_ok (w'\<lparr>event_set := e\<rparr>) q \<longleftrightarrow> q = [] \<or> e)
    \<and> event_set w' \<and> dom (wheap w') = dom (wheap w) \<and> (first (items w') = None \<longleftrightarrow> q = []) \<and> (ib_list_is_empty (items w') \<longleftrightarrow> q = [])"
    by (auto simp: take_first_def with_items_def wq_ok_def)
qed

lemma wq_firstE:
  assumes "wq_ok w (d # q)"
  obtains w' where "take_first w = Inr (d, w')" "\<forall>e. wq_ok (w'\<lparr>event_set := e\<rparr>) q \<longleftrightarrow> q = [] \<or> e"
    "event_set w'" "dom (wheap w') = dom (wheap w)" "first (items w') = None \<longleftrightarrow> q = []"
    "ib_list_is_empty (items w') \<longleftrightarrow> q = []"
  using wq_first(1) [OF assms] by (elim exE conjE) (rule that)

lemma event_same: "event_set w \<Longrightarrow> w\<lparr>event_set := True\<rparr> = w"
  by simp

text \<open>What each way to take an item returns and leaves.\<close>

definition fifo_take :: "nat list \<Rightarrow> nat option" where
  "fifo_take q = (case q of [] \<Rightarrow> None | d # _ \<Rightarrow> Some d)"

lemma wq_nowait: "wq_ok w q \<Longrightarrow> \<exists>w'. ib_wqueue_nowait w = Inr (fifo_take q, w') \<and> wq_ok w' (tl q) \<and> dom (wheap w') = dom (wheap w)"
proof (cases q)
  case Nil
  assume "wq_ok w q"
  with Nil wq_empty [of w] show ?thesis by (auto simp: ib_wqueue_nowait_def fifo_take_def wq_ok_def)
next
  case (Cons d ds)
  assume "wq_ok w q"
  with Cons have ok: "wq_ok w (d # ds)" by simp
  obtain w' where w': "take_first w = Inr (d, w')" "\<forall>e. wq_ok (w'\<lparr>event_set := e\<rparr>) ds \<longleftrightarrow> ds = [] \<or> e"
    "event_set w'" "dom (wheap w') = dom (wheap w)" "first (items w') = None \<longleftrightarrow> ds = []"
    "ib_list_is_empty (items w') \<longleftrightarrow> ds = []" by (rule wq_firstE [OF ok])
  have "wq_ok (if ib_list_is_empty (items w') then w'\<lparr>event_set := False\<rparr> else w') ds"
    using w'(2) [rule_format, of True] w'(2) [rule_format, of False] w'(3,6) by (auto simp: event_same)
  with w'(1,4) wq_first(2,3) [OF ok] Cons show ?thesis by (auto simp: ib_wqueue_nowait_def fifo_take_def)
qed

lemma wq_timedwait: "wq_ok w q \<Longrightarrow> \<exists>w'. ib_wqueue_timedwait w = Inr (fifo_take q, w') \<and> wq_ok w' (tl q) \<and> dom (wheap w') = dom (wheap w)"
proof (cases q)
  case Nil
  assume "wq_ok w q"
  with Nil wq_empty [of w] show ?thesis by (auto simp: ib_wqueue_timedwait_def fifo_take_def wq_ok_def)
next
  case (Cons d ds)
  assume "wq_ok w q"
  with Cons have ok: "wq_ok w (d # ds)" by simp
  obtain w' where w': "take_first w = Inr (d, w')" "\<forall>e. wq_ok (w'\<lparr>event_set := e\<rparr>) ds \<longleftrightarrow> ds = [] \<or> e"
    "event_set w'" "dom (wheap w') = dom (wheap w)" "first (items w') = None \<longleftrightarrow> ds = []"
    "ib_list_is_empty (items w') \<longleftrightarrow> ds = []" by (rule wq_firstE [OF ok])
  have "wq_ok w' ds" using w'(2) [rule_format, of True] w'(3) by (auto simp: event_same)
  with w'(1,4) wq_first(2) [OF ok] Cons show ?thesis by (auto simp: ib_wqueue_timedwait_def fifo_take_def)
qed

lemma wq_wait:
  assumes ok: "wq_ok w (d # q)"
  shows "\<exists>w'. ib_wqueue_wait w = Some (Inr (Some d, w')) \<and> wq_ok w' q \<and> dom (wheap w') = dom (wheap w)"
proof -
  obtain w' where w': "take_first w = Inr (d, w')" "\<forall>e. wq_ok (w'\<lparr>event_set := e\<rparr>) q \<longleftrightarrow> q = [] \<or> e"
    "event_set w'" "dom (wheap w') = dom (wheap w)" "first (items w') = None \<longleftrightarrow> q = []"
    "ib_list_is_empty (items w') \<longleftrightarrow> q = []" by (rule wq_firstE [OF ok])
  have r: "ib_wqueue_wait w = Some (Inr (Some d, if q = [] then w'\<lparr>event_set := False\<rparr> else w'))"
    using w'(1,5) wq_first(2,4) [OF ok] by (simp add: ib_wqueue_wait_def)
  show ?thesis
  proof (cases "q = []")
    case True
    then have "wq_ok (w'\<lparr>event_set := False\<rparr>) q" using w'(2) by simp
    with r True w'(4) show ?thesis by simp
  next
    case False
    then have "wq_ok w' q" using w'(2) [rule_format, of True] event_same [OF w'(3)] by simp
    with r False w'(4) show ?thesis by simp
  qed
qed

section \<open>The contract of the queue\<close>

datatype wq_op = Add addr nat | Take

fun fifo :: "wq_op list \<Rightarrow> nat list \<Rightarrow> nat option list" where
  "fifo [] q = []"
| "fifo (Add a d # ps) q = fifo ps (q @ [d])"
| "fifo (Take # ps) q = fifo_take q # fifo ps (tl q)"

fun wq_run :: "(addr \<Rightarrow> nat \<Rightarrow> 'w \<Rightarrow> 'w res) \<Rightarrow> ('w \<Rightarrow> (nat option \<times> 'w) res) \<Rightarrow> wq_op list \<Rightarrow> 'w \<Rightarrow> (nat option list \<times> 'w) res" where
  "wq_run add tk [] w = Inr ([], w)"
| "wq_run add tk (Add a d # ps) w = rbind (add a d w) (wq_run add tk ps)"
| "wq_run add tk (Take # ps) w = rbind (tk w) (\<lambda>(r, w1).
     rbind (wq_run add tk ps w1) (\<lambda>(rs, w2). Inr (r # rs, w2)))"

text \<open>The nodes of the additions are fresh.\<close>

fun fresh :: "wq_op list \<Rightarrow> addr set \<Rightarrow> bool" where
  "fresh [] U \<longleftrightarrow> True"
| "fresh (Add a d # ps) U \<longleftrightarrow> a \<notin> U \<and> fresh ps (insert a U)"
| "fresh (Take # ps) U \<longleftrightarrow> fresh ps U"

text \<open>\<open>used\<close> are the nodes allocated so far.\<close>

locale work_queue =
  fixes ok :: "'w \<Rightarrow> nat list \<Rightarrow> bool" and used :: "'w \<Rightarrow> addr set"
    and add :: "addr \<Rightarrow> nat \<Rightarrow> 'w \<Rightarrow> 'w res" and tk :: "'w \<Rightarrow> (nat option \<times> 'w) res"
  assumes add_law: "ok w q \<Longrightarrow> a \<notin> used w \<Longrightarrow> \<exists>w'. add a d w = Inr w' \<and> ok w' (q @ [d]) \<and> used w' = insert a (used w)"
    and take_law: "ok w q \<Longrightarrow> \<exists>w'. tk w = Inr (fifo_take q, w') \<and> ok w' (tl q) \<and> used w' = used w"
begin

lemma run_fifo: "ok w q \<Longrightarrow> fresh ps (used w) \<Longrightarrow> \<exists>w' q'. wq_run add tk ps w = Inr (fifo ps q, w') \<and> ok w' q'"
proof (induction ps arbitrary: w q)
  case (Cons p ps)
  show ?case
  proof (cases p)
    case (Add a d)
    with add_law [OF Cons.prems(1), of a d] Cons.prems(2) obtain w1 where
      "add a d w = Inr w1" "ok w1 (q @ [d])" "used w1 = insert a (used w)" by auto
    with Cons.IH [of w1 "q @ [d]"] Cons.prems(2) Add show ?thesis by simp
  next
    case Take
    with take_law [OF Cons.prems(1)] obtain w1 where
      w1: "tk w = Inr (fifo_take q, w1)" "ok w1 (tl q)" "used w1 = used w" by blast
    with Cons.IH [of w1 "tl q"] Cons.prems(2) Take show ?thesis by auto
  qed
qed auto

end

interpretation nw: work_queue wq_ok "\<lambda>w. dom (wheap w)" ib_wqueue_add ib_wqueue_nowait
  by unfold_locales (use wq_add wq_nowait in \<open>blast+\<close>)

interpretation tw: work_queue wq_ok "\<lambda>w. dom (wheap w)" ib_wqueue_add ib_wqueue_timedwait
  by unfold_locales (use wq_add wq_timedwait in \<open>blast+\<close>)

section \<open>Properties\<close>

text \<open>C27: items come out of the work queue in the order they were added, whether they are taken by
  \<open>ib_wqueue_nowait\<close> or by \<open>ib_wqueue_timedwait\<close>; after every operation the event is set if the
  queue holds an item, so that \<open>ib_wqueue_wait\<close> does not sleep and returns the oldest one.\<close>

theorem wqueue_is_fifo:
  assumes "fresh ps {}"
  shows "(\<exists>w q. wq_run ib_wqueue_add ib_wqueue_nowait ps ib_wqueue_create = Inr (fifo ps [], w)
      \<and> wq_ok w q \<and> (q \<noteq> [] \<longrightarrow> (\<exists>w'. ib_wqueue_wait w = Some (Inr (Some (hd q), w')) \<and> wq_ok w' (tl q))))
    \<and> (\<exists>w q. wq_run ib_wqueue_add ib_wqueue_timedwait ps ib_wqueue_create = Inr (fifo ps [], w)
      \<and> wq_ok w q \<and> (q \<noteq> [] \<longrightarrow> (\<exists>w'. ib_wqueue_wait w = Some (Inr (Some (hd q), w')) \<and> wq_ok w' (tl q))))"
proof -
  have wait: "q \<noteq> [] \<longrightarrow> (\<exists>w'. ib_wqueue_wait w = Some (Inr (Some (hd q), w')) \<and> wq_ok w' (tl q))"
    if "wq_ok w q" for w q
    using that wq_wait [of w "hd q" "tl q"] by (cases q) auto
  have U: "dom (wheap ib_wqueue_create) = {}" by (simp add: ib_wqueue_create_def)
  obtain w q where 1: "wq_run ib_wqueue_add ib_wqueue_nowait ps ib_wqueue_create = Inr (fifo ps [], w)" "wq_ok w q"
    using nw.run_fifo [OF wq_create] assms unfolding U by blast
  obtain w1 q1 where 2: "wq_run ib_wqueue_add ib_wqueue_timedwait ps ib_wqueue_create = Inr (fifo ps [], w1)" "wq_ok w1 q1"
    using tw.run_fifo [OF wq_create] assms unfolding U by blast
  from 1 wait [OF 1(2)] 2 wait [OF 2(2)] show ?thesis by blast
qed

theorem wqueue_is_fifo_witness:
  "\<exists>w. wq_run ib_wqueue_add ib_wqueue_nowait [Add 0 7, Add 1 8, Take, Add 2 9, Take, Take, Take] ib_wqueue_create
     = Inr ([Some 7, Some 8, Some 9, None], w)"
  using wqueue_is_fifo [of "[Add 0 7, Add 1 8, Take, Add 2 9, Take, Take, Take]"]
  by (auto simp: fifo_take_def)

text \<open>\<open>ib_list_add_first\<close> does not add to the start of a list that is not empty: the new node
  becomes the second one.\<close>

theorem ib_list_add_first_is_second:
  assumes "iblist (h, l) (x # xs)" "h a = None"
  shows "\<exists>h' l'. ib_list_add_first a d (h, l) = Inr (h', l') \<and> iblist (h', l') (x # a # xs)"
proof -
  have a: "a \<notin> set (x # xs)"
    using assms dseg_dom [of "links h" None "x # xs" None a] by (auto simp: iblist_def links_Some)
  obtain n where n: "h x = Some n" "prev n = None" "nxt n = hdp xs None" "dseg (links h) (Some x) xs None"
    using assms(1) by (auto simp: iblist_def links_Some split: option.splits)
  show ?thesis
  proof (cases xs)
    case Nil
    with assms n a show ?thesis by (auto simp: ib_list_add_first_def ib_list_add_after_def iblist_def)
  next
    case (Cons y ys)
    then obtain m where m: "h y = Some m" "nxt m = hdp ys None" "dseg (links h) (Some y) ys None"
      using n(4) by (auto simp: links_Some split: option.splits)
    let ?h = "h(a \<mapsto> \<lparr>prev = Some x, nxt = Some y, data = d\<rparr>, x \<mapsto> n\<lparr>nxt := Some a\<rparr>, y \<mapsto> m\<lparr>prev := Some a\<rparr>)"
    have "x \<noteq> y" "first l = Some x" using assms(1) Cons by (auto simp: iblist_def)
    then have "ib_list_add_first a d (h, l) = Inr (?h, l)"
      using n m a Cons by (auto simp: ib_list_add_first_def ib_list_add_after_def)
    moreover have "iblist (?h, l) (x # a # xs)" using assms(1) n m a Cons by (auto simp: iblist_def)
    ultimately show ?thesis by blast
  qed
qed

theorem ib_list_add_first_is_second_witness:
  "\<exists>h l. ib_list_add_first 1 6 ([0 \<mapsto> \<lparr>prev = None, nxt = None, data = 5\<rparr>],
     \<lparr>first = Some 0, last_node = Some 0, is_heap_list = False\<rparr>) = Inr (h, l) \<and> iblist (h, l) [0, 1]"
  by (rule ib_list_add_first_is_second) (simp_all add: iblist_def links_def)

end
