(* ===== verification/BufPool.thy ===== *)
theory BufPool
  imports UtList
begin

text \<open>
  Initialisation of the buffer pool (storage/xtradb/buf/buf0buf.cc), which this repository runs
  with one thread per instance. Addresses and sizes are naturals; subtractions that can wrap
  are written with \<open>sub64\<close>. The page size, the size of a control block and the operating
  system's allocator are arguments.
\<close>

unbundle bit_operations_syntax

section \<open>Rounding\<close>

definition ut_2pow_round :: "nat \<Rightarrow> nat \<Rightarrow> nat" where
  "ut_2pow_round n m = unat ((word_of_nat n :: 64 word) AND NOT (word_of_nat m - 1))"

definition ut_align :: "nat \<Rightarrow> nat \<Rightarrow> nat" where
  "ut_align p m = unat (((word_of_nat p :: 64 word) + word_of_nat m - 1) AND NOT (word_of_nat m - 1))"

definition sub64 :: "nat \<Rightarrow> nat \<Rightarrow> nat" where
  "sub64 a b = (a + 2 ^ 64 - b) mod 2 ^ 64"

section \<open>A chunk\<close>

datatype buf_page_state = BUF_BLOCK_POOL_WATCH | BUF_BLOCK_ZIP_PAGE | BUF_BLOCK_ZIP_DIRTY
  | BUF_BLOCK_NOT_USED | BUF_BLOCK_READY_FOR_USE | BUF_BLOCK_FILE_PAGE | BUF_BLOCK_MEMORY
  | BUF_BLOCK_REMOVE_HASH

datatype buf_io_fix = BUF_IO_NONE | BUF_IO_READ | BUF_IO_WRITE | BUF_IO_PIN

text \<open>\<open>BUF_NO_CHECKSUM_MAGIC\<close> of the checksums is \<open>0xDEADBEEF\<close>.\<close>

definition BUF_NO_CHECKSUM_MAGIC :: nat where
  "BUF_NO_CHECKSUM_MAGIC = 3735928559"

record buf_block_t =
  frame :: nat
  buf_pool_index :: nat
  bstate :: buf_page_state
  buf_fix_count :: nat
  io_fix :: buf_io_fix
  key_version :: nat
  page_encrypted :: bool
  page_compressed :: bool
  encrypted :: bool
  stored_checksum :: nat
  calculated_checksum :: nat
  real_size :: nat
  write_size :: nat
  modify_clock :: nat
  slot :: ptr
  check_index_page_at_flush :: bool
  ahi_index :: ptr

record buf_chunk_t =
  chunk_mem_size :: nat
  chunk_size :: nat
  chunk_mem :: nat
  chunk_blocks :: nat

type_synonym blocks = "addr \<rightharpoonup> buf_block_t"

definition buf_block_init :: "nat \<Rightarrow> addr \<Rightarrow> nat \<Rightarrow> blocks \<Rightarrow> blocks" where
  "buf_block_init pool block f bs = bs(block \<mapsto> \<lparr>frame = f, buf_pool_index = pool,
     bstate = BUF_BLOCK_NOT_USED, buf_fix_count = 0, io_fix = BUF_IO_NONE, key_version = 0,
     page_encrypted = False, page_compressed = False, encrypted = False,
     stored_checksum = BUF_NO_CHECKSUM_MAGIC, calculated_checksum = BUF_NO_CHECKSUM_MAGIC,
     real_size = 0, write_size = 0, modify_clock = 0, slot = None,
     check_index_page_at_flush = False, ahi_index = None\<rparr>)"

text \<open>The loop that makes room for the control blocks; \<open>None\<close> if it does not end.\<close>

partial_function (option) frame_loop :: "nat \<Rightarrow> nat \<Rightarrow> nat \<Rightarrow> nat \<Rightarrow> nat \<Rightarrow> (nat \<times> nat) option" where
  [code]: "frame_loop page dsz blocks f sz =
     (if f < blocks + sz * dsz then frame_loop page dsz blocks (f + page) (sub64 sz 1)
      else Some (f, sz))"

text \<open>The loop over the blocks. The memory of a block comes from the operating system as it is.\<close>

fun init_blocks :: "ut_list_node \<Rightarrow> nat \<Rightarrow> nat \<Rightarrow> nat \<Rightarrow> nat \<Rightarrow> addr \<Rightarrow> nat \<Rightarrow> blocks \<Rightarrow> ut_state \<Rightarrow> (blocks \<times> ut_state) res" where
  "init_blocks raw page dsz pool 0 block f bs s = Inr (bs, s)"
| "init_blocks raw page dsz pool (Suc i) block f bs s =
     rbind (ut_list_append block ((fst s)(block \<mapsto> raw), snd s)) (\<lambda>s1.
       init_blocks raw page dsz pool i (block + dsz) (f + page) (buf_block_init pool block f bs) s1)"

definition chunk_request :: "nat \<Rightarrow> nat \<Rightarrow> nat \<Rightarrow> nat" where
  "chunk_request page dsz mem_size =
     (let m = ut_2pow_round mem_size page
      in m + ut_2pow_round (m div page * dsz + (page - 1)) page)"

text \<open>\<open>Inr None\<close> is the null chunk of a failed allocation.\<close>

definition buf_chunk_init ::
  "ut_list_node \<Rightarrow> (nat \<Rightarrow> (nat \<times> nat) option) \<Rightarrow> nat \<Rightarrow> nat \<Rightarrow> nat \<Rightarrow> nat \<Rightarrow> ut_heap
     \<Rightarrow> (buf_chunk_t \<times> blocks \<times> ut_state) option res option" where
  "buf_chunk_init raw os_mem_alloc_large page dsz pool mem_size h =
     (let size_target = sub64 (ut_2pow_round mem_size page div page) 1
      in case os_mem_alloc_large (chunk_request page dsz mem_size) of
        None \<Rightarrow> Some (Inr None)
      | Some (mem, got) \<Rightarrow>
          (let f = ut_align mem page
           in case frame_loop page dsz mem f (sub64 (got div page) (if f \<noteq> mem then 1 else 0)) of
                None \<Rightarrow> None
              | Some (f1, sz) \<Rightarrow>
                  (let size1 = (if sz > size_target then size_target else sz)
                   in Some (rbind (init_blocks raw page dsz pool size1 mem f1 Map.empty (h, UT_LIST_INIT))
                        (\<lambda>(bs, s). Inr (Some (\<lparr>chunk_mem_size = got, chunk_size = size1, chunk_mem = mem,
                           chunk_blocks = mem\<rparr>, bs, s)))))))"

section \<open>The instances\<close>

datatype dberr_t = DB_SUCCESS | DB_ERROR

text \<open>An instance is zeroed, initialised with a number of pages, or freed.\<close>

datatype inst = IZero | IReady nat | IGone

record pools =
  insts :: "inst list"
  array_freed :: bool

definition buf_pool_new :: "nat \<Rightarrow> pools" where
  "buf_pool_new n = \<lparr>insts = replicate n IZero, array_freed = False\<rparr>"

text \<open>
  \<open>chunk_of i\<close> is the number of pages \<open>buf_chunk_init\<close> gives instance \<open>i\<close>, or \<open>None\<close> if it fails.
  Then \<open>mem_free(buf_pool)\<close> frees an element of the array: for instance 0 this frees the
  array, for any other the pointer has no block header in front of it.
\<close>

definition buf_pool_init_instance :: "(nat \<Rightarrow> nat option) \<Rightarrow> nat \<Rightarrow> pools \<Rightarrow> (dberr_t \<times> pools) res" where
  "buf_pool_init_instance chunk_of i p =
     (if array_freed p then Inl UseAfterFree
      else case chunk_of i of
        Some n \<Rightarrow> Inr (DB_SUCCESS, p\<lparr>insts := (insts p)[i := IReady n]\<rparr>)
      | None \<Rightarrow> if i = 0 then Inr (DB_ERROR, p\<lparr>array_freed := True\<rparr>) else Inl BadFree)"

definition buf_pool_free_instance :: "nat \<Rightarrow> pools \<Rightarrow> pools res" where
  "buf_pool_free_instance i p =
     (if array_freed p then Inl UseAfterFree
      else case insts p ! i of
        IReady n \<Rightarrow> Inr (p\<lparr>insts := (insts p)[i := IGone]\<rparr>)
      | IZero \<Rightarrow> Inl NullDeref
      | IGone \<Rightarrow> Inl UseAfterFree)"

fun free_instances :: "nat list \<Rightarrow> pools \<Rightarrow> pools res" where
  "free_instances [] p = Inr p"
| "free_instances (i # is) p = rbind (buf_pool_free_instance i p) (free_instances is)"

definition buf_pool_free :: "nat \<Rightarrow> pools \<Rightarrow> pools res" where
  "buf_pool_free n p = free_instances [0..<n] p"

definition RunThread :: "(nat \<Rightarrow> nat option) \<Rightarrow> nat \<Rightarrow> pools \<Rightarrow> pools res" where
  "RunThread chunk_of i p = rbind (buf_pool_init_instance chunk_of i p) (\<lambda>(e, p1).
     if e \<noteq> DB_SUCCESS then buf_pool_free i p1 else Inr p1)"

fun set_sizes_loop :: "nat \<Rightarrow> inst list \<Rightarrow> nat \<Rightarrow> nat" where
  "set_sizes_loop page [] curr_size = curr_size"
| "set_sizes_loop page (i # is) curr_size =
     set_sizes_loop page is (case i of IReady n \<Rightarrow> curr_size + n * page | _ \<Rightarrow> curr_size)"

definition buf_pool_set_sizes :: "nat \<Rightarrow> pools \<Rightarrow> nat res" where
  "buf_pool_set_sizes page p =
     (if array_freed p \<and> insts p \<noteq> [] then Inl UseAfterFree else Inr (set_sizes_loop page (insts p) 0))"

fun run_threads_in :: "(nat \<Rightarrow> nat option) \<Rightarrow> nat list \<Rightarrow> pools \<Rightarrow> pools res" where
  "run_threads_in chunk_of [] p = Inr p"
| "run_threads_in chunk_of (i # is) p = rbind (RunThread chunk_of i p) (run_threads_in chunk_of is)"

text \<open>
  \<open>buf_pool_init\<close> with \<open>MULTITHREAD\<close>: the threads run in the order \<open>sched\<close>, each as a whole. The
  result is the return value, the size of the pool in bytes and the instances.
\<close>

definition buf_pool_init :: "(nat \<Rightarrow> nat option) \<Rightarrow> nat \<Rightarrow> nat list \<Rightarrow> nat \<Rightarrow> (dberr_t \<times> nat \<times> inst list) res" where
  "buf_pool_init chunk_of page sched n =
     rbind (run_threads_in chunk_of sched (buf_pool_new n)) (\<lambda>p.
     rbind (buf_pool_set_sizes page p) (\<lambda>size. Inr (DB_SUCCESS, size, insts p)))"

text \<open>The loop without \<open>MULTITHREAD\<close>, which returns at the first instance that fails.\<close>

fun init_loop :: "(nat \<Rightarrow> nat option) \<Rightarrow> nat list \<Rightarrow> pools \<Rightarrow> (dberr_t \<times> pools) res" where
  "init_loop chunk_of [] p = Inr (DB_SUCCESS, p)"
| "init_loop chunk_of (i # is) p = rbind (buf_pool_init_instance chunk_of i p) (\<lambda>(e, p1).
     if e \<noteq> DB_SUCCESS then rbind (buf_pool_free i p1) (\<lambda>p2. Inr (DB_ERROR, p2))
     else init_loop chunk_of is p1)"

definition buf_pool_init_single :: "(nat \<Rightarrow> nat option) \<Rightarrow> nat \<Rightarrow> nat \<Rightarrow> (dberr_t \<times> nat \<times> inst list) res" where
  "buf_pool_init_single chunk_of page n =
     rbind (init_loop chunk_of [0..<n] (buf_pool_new n)) (\<lambda>(e, p).
     if e = DB_ERROR then Inr (DB_ERROR, 0, [])
     else rbind (buf_pool_set_sizes page p) (\<lambda>size. Inr (DB_SUCCESS, size, insts p)))"

section \<open>Layout of a chunk\<close>

lemma and_not_mask: "(x :: 64 word) AND NOT (mask k) = x - take_bit k x"
proof -
  have "x = (x AND mask k) + (x AND NOT (mask k))"
    by (subst disjunctive_add) (auto simp: bit_simps intro!: bit_word_eqI)
  then show ?thesis by (simp add: take_bit_eq_mask algebra_simps)
qed

lemma ut_2pow_round_eq:
  assumes "k < 64" "n < 2 ^ 64"
  shows "ut_2pow_round n (2 ^ k) = n - n mod 2 ^ k"
proof -
  have m: "(word_of_nat (2 ^ k) :: 64 word) - 1 = mask k" by (simp add: mask_eq_exp_minus_1)
  have u: "unat (word_of_nat n :: 64 word) = n" using assms(2) by (simp add: unat_of_nat take_bit_eq_mod)
  have t: "unat (take_bit k (word_of_nat n :: 64 word)) = n mod 2 ^ k"
    unfolding unsigned_take_bit_eq u by (simp add: take_bit_eq_mod)
  then have "take_bit k (word_of_nat n :: 64 word) \<le> word_of_nat n" using u by (simp add: word_le_nat_alt)
  then show ?thesis unfolding ut_2pow_round_def m and_not_mask by (simp add: unat_sub t u)
qed

lemma ut_align_eq:
  assumes "p + 2 ^ k \<le> 2 ^ 64" "k < 64"
  shows "ut_align p (2 ^ k) = ut_2pow_round (p + 2 ^ k - 1) (2 ^ k)"
proof -
  have "1 \<le> p + 2 ^ k" by (simp add: Suc_le_eq)
  then have "word_of_nat (p + 2 ^ k - 1) = (word_of_nat (p + 2 ^ k) :: 64 word) - word_of_nat 1"
    by (rule of_nat_diff)
  then show ?thesis unfolding ut_align_def ut_2pow_round_def by simp
qed

lemma ut_align_bounds:
  assumes "p + 2 ^ k \<le> 2 ^ 64" "k < 64"
  shows "2 ^ k dvd ut_align p (2 ^ k)" "p \<le> ut_align p (2 ^ k)" "ut_align p (2 ^ k) < p + 2 ^ k"
proof -
  let ?n = "p + 2 ^ k - 1"
  have a: "ut_align p (2 ^ k) = ?n - ?n mod 2 ^ k"
    using assms by (simp add: ut_align_eq ut_2pow_round_eq)
  show "2 ^ k dvd ut_align p (2 ^ k)" unfolding a by (simp add: minus_mod_eq_mult_div)
  have "?n mod 2 ^ k < 2 ^ k" by simp
  then show "p \<le> ut_align p (2 ^ k)" "ut_align p (2 ^ k) < p + 2 ^ k" unfolding a by linarith+
qed

lemma sub64_1: "0 < n \<Longrightarrow> n \<le> 2 ^ 64 \<Longrightarrow> sub64 n 1 = n - 1"
proof -
  assume n: "0 < n" "n \<le> 2 ^ 64"
  then have "n + 2 ^ 64 - 1 = (n - 1) + 2 ^ 64" "n - 1 < 2 ^ 64" by linarith+
  then show ?thesis unfolding sub64_def by (metis mod_add_self2 mod_less)
qed

lemma sub64_0: "n < 2 ^ 64 \<Longrightarrow> sub64 n 0 = n"
  by (simp add: sub64_def)

text \<open>The loop ends, keeps the end of the frames, and leaves room for the control blocks.\<close>

lemma frame_loop_ends:
  assumes "b \<le> f" "page dvd f" "sz \<le> 2 ^ 64"
  shows "\<exists>f' sz'. frame_loop page dsz b f sz = Some (f', sz') \<and> sz' \<le> sz \<and> page dvd f'
    \<and> f' + sz' * page = f + sz * page \<and> b + sz' * dsz \<le> f'"
  using assms
proof (induction sz arbitrary: f)
  case 0
  then show ?case by (subst frame_loop.simps) simp
next
  case (Suc sz)
  show ?case
  proof (cases "f < b + Suc sz * dsz")
    case True
    have "sub64 (Suc sz) 1 = sz" using sub64_1 [of "Suc sz"] Suc.prems(3) by simp
    with True have r: "frame_loop page dsz b f (Suc sz) = frame_loop page dsz b (f + page) sz"
      by (subst frame_loop.simps) simp
    from Suc.IH [of "f + page"] Suc.prems obtain f' sz' where
      "frame_loop page dsz b (f + page) sz = Some (f', sz')" "sz' \<le> sz" "page dvd f'"
      "f' + sz' * page = f + page + sz * page" "b + sz' * dsz \<le> f'" by auto
    with r show ?thesis by auto
  next
    case False
    with Suc.prems show ?thesis by (subst frame_loop.simps) simp
  qed
qed

lemma dlist_fresh: "dlist (h, l) xs \<Longrightarrow> a \<notin> set xs \<Longrightarrow> dlist (h(a \<mapsto> n), l) xs"
  by (simp add: dlist_def)

definition block_ok :: "nat \<Rightarrow> nat \<Rightarrow> buf_block_t \<Rightarrow> bool" where
  "block_ok pool f b \<longleftrightarrow> frame b = f \<and> buf_pool_index b = pool \<and> bstate b = BUF_BLOCK_NOT_USED
     \<and> buf_fix_count b = 0 \<and> io_fix b = BUF_IO_NONE"

lemma init_blocks_ok:
  assumes "dlist s xs" "\<forall>x \<in> set xs. x < block" "0 < dsz"
  shows "\<exists>bs' s'. init_blocks raw page dsz pool n block f bs s = Inr (bs', s')
    \<and> dlist s' (xs @ map (\<lambda>i. block + i * dsz) [0..<n])
    \<and> (\<forall>i < n. \<exists>b. bs' (block + i * dsz) = Some b \<and> block_ok pool (f + i * page) b)
    \<and> (\<forall>a < block. bs' a = bs a)"
  using assms
proof (induction n arbitrary: block f bs s xs)
  case (Suc n)
  obtain h l where s: "s = (h, l)" by fastforce
  have fresh: "block \<notin> set xs" using Suc.prems(2) by blast
  from ut_list_append_dlist [OF dlist_fresh [OF Suc.prems(1) [unfolded s] fresh, of raw], of block raw] fresh
  obtain h1 l1 where 1: "ut_list_append block (h(block \<mapsto> raw), l) = Inr (h1, l1)" "dlist (h1, l1) (xs @ [block])"
    by (auto simp: ut_list_append_def)
  let ?bs = "buf_block_init pool block f bs"
  have "\<forall>x \<in> set (xs @ [block]). x < block + dsz" using Suc.prems(2,3) by auto
  from Suc.IH [OF 1(2) this Suc.prems(3), of "f + page" ?bs] obtain bs' s' where
    2: "init_blocks raw page dsz pool n (block + dsz) (f + page) ?bs (h1, l1) = Inr (bs', s')"
      "dlist s' ((xs @ [block]) @ map (\<lambda>i. block + dsz + i * dsz) [0..<n])"
      "\<forall>i < n. \<exists>b. bs' (block + dsz + i * dsz) = Some b \<and> block_ok pool (f + page + i * page) b"
      "\<forall>a < block + dsz. bs' a = ?bs a" by blast
  have "map (\<lambda>i. block + i * dsz) [0..<Suc n] = block # map (\<lambda>i. block + dsz + i * dsz) [0..<n]"
    by (simp add: upt_conv_Cons map_Suc_upt [symmetric] comp_def add.assoc del: upt_Suc)
  moreover have "\<exists>b. bs' (block + i * dsz) = Some b \<and> block_ok pool (f + i * page) b" if "i < Suc n" for i
  proof (cases i)
    case 0
    with 2(4) Suc.prems(3) show ?thesis by (simp add: buf_block_init_def block_ok_def)
  next
    case (Suc j)
    with 2(3) that show ?thesis by (auto simp: add.assoc)
  qed
  ultimately show ?case using 1 2 s by (auto simp: buf_block_init_def)
qed simp

text \<open>The frames of a chunk, before their number is cut to the target.\<close>

lemma chunk_frames:
  fixes k :: nat
  assumes "k < 64" "2 ^ k \<le> got" "mem + got + 2 ^ k \<le> 2 ^ 64"
  defines "f0 \<equiv> ut_align mem (2 ^ k)"
  shows "\<exists>f sz. frame_loop (2 ^ k) dsz mem f0 (sub64 (got div 2 ^ k) (if f0 \<noteq> mem then 1 else 0)) = Some (f, sz)
    \<and> 2 ^ k dvd f \<and> mem + sz * dsz \<le> f \<and> f + sz * 2 ^ k \<le> mem + got"
proof -
  let ?P = "2 ^ k :: nat"
  let ?sz0 = "sub64 (got div ?P) (if f0 \<noteq> mem then 1 else 0)"
  have "mem + ?P \<le> 2 ^ 64" using assms(3) by linarith
  note al = ut_align_bounds [OF this assms(1), folded f0_def]
  have g: "0 < got div ?P" "got div ?P * ?P \<le> got" using assms(2) by (simp_all add: div_greater_zero_iff)
  have "got div ?P \<le> got" by simp
  moreover have "0 < ?P" by simp
  ultimately have lt: "got div ?P < 2 ^ 64" using assms(3) by linarith
  have sz0: "?sz0 = got div ?P - (if f0 \<noteq> mem then 1 else 0)"
    using sub64_1 [OF g(1)] sub64_0 [OF lt] lt by simp
  have room: "f0 + ?sz0 * ?P \<le> mem + got"
  proof (cases "f0 = mem")
    case True
    then show ?thesis unfolding sz0 using g(2) by simp
  next
    case False
    have "?P \<le> got div ?P * ?P" using g(1) by simp
    with al(3) g(2) have "f0 + (got div ?P * ?P - ?P) \<le> mem + got" by linarith
    with False show ?thesis unfolding sz0 by (simp add: diff_mult_distrib)
  qed
  have "?sz0 \<le> 2 ^ 64" using lt unfolding sz0 by linarith
  from frame_loop_ends [OF al(2,1) this, of dsz] obtain f sz where
    l: "frame_loop ?P dsz mem f0 ?sz0 = Some (f, sz)" "?P dvd f" "f + sz * ?P = f0 + ?sz0 * ?P" "mem + sz * dsz \<le> f"
    by blast
  with room show ?thesis by auto
qed

section \<open>Properties\<close>

text \<open>C28: \<open>buf_chunk_init\<close> returns, and the blocks it makes fit: there are fewer of them than pages
  asked for, their control blocks lie before all frames, every frame is aligned and inside the
  memory obtained, frames do not overlap, and the free list holds exactly these blocks in order.\<close>

theorem buf_chunk_layout:
  assumes "k < 64" "0 < dsz" "2 ^ k \<le> mem_size" "mem_size < 2 ^ 64"
    and "os_mem_alloc_large (chunk_request (2 ^ k) dsz mem_size) = Some (mem, got)"
    and "2 ^ k \<le> got" "mem + got + 2 ^ k \<le> 2 ^ 64"
  shows "\<exists>c bs s f. buf_chunk_init raw os_mem_alloc_large (2 ^ k) dsz pool mem_size h = Some (Inr (Some (c, bs, s)))
    \<and> chunk_size c \<le> mem_size div 2 ^ k - 1 \<and> 2 ^ k dvd f
    \<and> mem + chunk_size c * dsz \<le> f \<and> f + chunk_size c * 2 ^ k \<le> mem + got
    \<and> (\<forall>i < chunk_size c. \<exists>b. bs (mem + i * dsz) = Some b \<and> block_ok pool (f + i * 2 ^ k) b)
    \<and> dlist s (map (\<lambda>i. mem + i * dsz) [0..<chunk_size c])"
proof -
  let ?P = "2 ^ k :: nat" and ?f0 = "ut_align mem (2 ^ k)"
  from chunk_frames [OF assms(1,6,7), of dsz] obtain f sz where
    l: "frame_loop ?P dsz mem ?f0 (sub64 (got div ?P) (if ?f0 \<noteq> mem then 1 else 0)) = Some (f, sz)"
      "?P dvd f" "mem + sz * dsz \<le> f" "f + sz * ?P \<le> mem + got" by blast
  have q: "ut_2pow_round mem_size ?P div ?P = mem_size div ?P"
    using assms(1,4) by (simp add: ut_2pow_round_eq minus_mod_eq_mult_div)
  have "0 < mem_size div ?P" "mem_size div ?P \<le> 2 ^ 64"
    using assms(3,4) by (simp_all add: div_greater_zero_iff) (meson div_le_dividend less_imp_le order_trans)
  then have target: "sub64 (ut_2pow_round mem_size ?P div ?P) 1 = mem_size div ?P - 1" unfolding q by (rule sub64_1)
  define n where "n = (if sz > mem_size div ?P - 1 then mem_size div ?P - 1 else sz)"
  have n: "n \<le> sz" "n \<le> mem_size div ?P - 1" by (simp_all add: n_def)
  from init_blocks_ok [OF dlist_empty [of h], of mem dsz raw ?P pool n f Map.empty] assms(2) obtain bs s where
    i: "init_blocks raw ?P dsz pool n mem f Map.empty (h, UT_LIST_INIT) = Inr (bs, s)"
      "dlist s (map (\<lambda>i. mem + i * dsz) [0..<n])"
      "\<forall>i < n. \<exists>b. bs (mem + i * dsz) = Some b \<and> block_ok pool (f + i * ?P) b" by auto
  have "buf_chunk_init raw os_mem_alloc_large ?P dsz pool mem_size h
      = Some (Inr (Some (\<lparr>chunk_mem_size = got, chunk_size = n, chunk_mem = mem, chunk_blocks = mem\<rparr>, bs, s)))"
    unfolding buf_chunk_init_def Let_def assms(5) target option.case prod.case l(1) n_def [symmetric] i(1) by simp
  moreover have "n * dsz \<le> sz * dsz" "n * ?P \<le> sz * ?P" using n(1) by simp_all
  with l(3,4) have "mem + n * dsz \<le> f" "f + n * ?P \<le> mem + got" by linarith+
  ultimately show ?thesis using n(2) l(2) i(2,3) by auto
qed

theorem buf_chunk_layout_witness:
  "\<exists>c bs s f. buf_chunk_init \<lparr>uprev = None, unext = None, mark_field = 0\<rparr> (\<lambda>n. Some (4096, n)) (2 ^ 12) 100 0 65536 Map.empty
      = Some (Inr (Some (c, bs, s))) \<and> 4096 + chunk_size c * 100 \<le> f \<and> f + chunk_size c * 2 ^ 12 \<le> 4096 + 69632"
proof -
  have "chunk_request (2 ^ 12) 100 65536 = 69632" by (simp add: chunk_request_def ut_2pow_round_eq [of 12, simplified])
  from buf_chunk_layout [of 12 100 65536 "\<lambda>n. Some (4096, n)" 4096 69632 "\<lparr>uprev = None, unext = None, mark_field = 0\<rparr>" 0 Map.empty] this
  show ?thesis by auto
qed

lemma init_all:
  assumes "\<forall>i \<in> set is. chunk_of i \<noteq> None" "\<not> array_freed p"
  shows "run_threads_in chunk_of is p = Inr (p\<lparr>insts := fold (\<lambda>i xs. xs[i := IReady (the (chunk_of i))]) is (insts p)\<rparr>)
    \<and> init_loop chunk_of is p = Inr (DB_SUCCESS, p\<lparr>insts := fold (\<lambda>i xs. xs[i := IReady (the (chunk_of i))]) is (insts p)\<rparr>)"
  using assms by (induction "is" arbitrary: p) (auto simp: RunThread_def buf_pool_init_instance_def)

lemma fold_update:
  assumes "distinct is" "set is = {..<length xs}"
  shows "fold (\<lambda>i xs. xs[i := g i]) is xs = map g [0..<length xs]"
proof (rule nth_equalityI)
  have len: "length (fold (\<lambda>i xs. xs[i := g i]) js ys) = length ys" for js ys by (induction js arbitrary: ys) auto
  have nth: "fold (\<lambda>i xs. xs[i := g i]) js ys ! k = (if k \<in> set js then g k else ys ! k)" if "k < length ys" for js ys k
    using that by (induction js arbitrary: ys) auto
  show "length (fold (\<lambda>i xs. xs[i := g i]) is xs) = length (map g [0..<length xs])" by (simp add: len)
  show "fold (\<lambda>i xs. xs[i := g i]) is xs ! k = map g [0..<length xs] ! k"
    if "k < length (fold (\<lambda>i xs. xs[i := g i]) is xs)" for k
    using that assms(2) by (simp add: len nth)
qed

lemma free_instances_length: "free_instances is p = Inr p' \<Longrightarrow> length (insts p') = length (insts p)"
  by (induction "is" arbitrary: p)
    (auto simp: rbind_eq_Inr_iff buf_pool_free_instance_def split: if_splits inst.splits)

lemma run_threads_length: "run_threads_in chunk_of is p = Inr p' \<Longrightarrow> length (insts p') = length (insts p)"
proof (induction "is" arbitrary: p)
  case (Cons j "is")
  then obtain p1 where p1: "RunThread chunk_of j p = Inr p1" "run_threads_in chunk_of is p1 = Inr p'"
    by (auto simp: rbind_eq_Inr_iff)
  then have "length (insts p1) = length (insts p)"
    by (auto simp: RunThread_def buf_pool_init_instance_def buf_pool_free_def rbind_eq_Inr_iff
        dest: free_instances_length split: if_splits option.splits)
  with Cons.IH [OF p1(2)] show ?case by simp
qed simp

lemma failed_thread:
  "i \<in> set is \<Longrightarrow> chunk_of i = None \<Longrightarrow> run_threads_in chunk_of is p = Inr p' \<Longrightarrow> array_freed p'"
proof (induction "is" arbitrary: p)
  case (Cons j "is")
  then obtain p1 where p1: "RunThread chunk_of j p = Inr p1" "run_threads_in chunk_of is p1 = Inr p'"
    by (auto simp: rbind_eq_Inr_iff)
  show ?case
  proof (cases "j = i")
    case True
    with p1(1) Cons.prems(2) have "array_freed p1"
      by (auto simp: RunThread_def buf_pool_init_instance_def buf_pool_free_def rbind_eq_Inr_iff split: if_splits)
    moreover have "is = []"
    proof (rule ccontr)
      assume "is \<noteq> []"
      with p1(2) \<open>array_freed p1\<close> show False
        by (cases "is") (auto simp: RunThread_def buf_pool_init_instance_def)
    qed
    ultimately show ?thesis using p1(2) by simp
  next
    case False
    with Cons p1 show ?thesis by auto
  qed
qed simp



end
