(* ===== verification/MachData.thy ===== *)
theory MachData
  imports Prelude
begin

text \<open>
  The machine-independent integer formats of XtraDB (\<open>include/mach0data.ic\<close> and
  \<open>mach/mach0data.cc\<close>): fixed-width big-endian integers, the compressed 32- and 64-bit
  forms of log records, little-endian fields, and the storage format of SQL integers.
  Memory is a list of bytes, a pointer an index into it; reading or writing outside the
  list is \<open>OutOfBounds\<close>. A \<open>ulint\<close> is a 64-bit word. The debug assertions \<open>ut_ad\<close> are
  not compiled into the server and are not part of the definitions.
\<close>

unbundle bit_operations_syntax

type_synonym byte = "8 word"
type_synonym ulint = "64 word"

section \<open>Fixed-width integers\<close>

definition mach_write_to_1 :: "byte list \<Rightarrow> nat \<Rightarrow> ulint \<Rightarrow> byte list res" where
  "mach_write_to_1 m b n = aset m b (ucast n)"

definition mach_read_from_1 :: "byte list \<Rightarrow> nat \<Rightarrow> ulint res" where
  "mach_read_from_1 m b = rbind (aget m b) (\<lambda>x. Inr (ucast x))"

definition mach_write_to_2 :: "byte list \<Rightarrow> nat \<Rightarrow> ulint \<Rightarrow> byte list res" where
  "mach_write_to_2 m b n =
     rbind (aset m b (ucast (drop_bit 8 n))) (\<lambda>m.
     aset m (b + 1) (ucast n))"

definition mach_write_to_3 :: "byte list \<Rightarrow> nat \<Rightarrow> ulint \<Rightarrow> byte list res" where
  "mach_write_to_3 m b n =
     rbind (aset m b (ucast (drop_bit 16 n))) (\<lambda>m.
     rbind (aset m (b + 1) (ucast (drop_bit 8 n))) (\<lambda>m.
     aset m (b + 2) (ucast n)))"

definition mach_read_from_3 :: "byte list \<Rightarrow> nat \<Rightarrow> ulint res" where
  "mach_read_from_3 m b =
     rbind (aget m b) (\<lambda>b0. rbind (aget m (b + 1)) (\<lambda>b1. rbind (aget m (b + 2)) (\<lambda>b2.
     Inr (push_bit 16 (ucast b0) OR push_bit 8 (ucast b1) OR ucast b2))))"

definition mach_write_to_4 :: "byte list \<Rightarrow> nat \<Rightarrow> ulint \<Rightarrow> byte list res" where
  "mach_write_to_4 m b n =
     rbind (aset m b (ucast (drop_bit 24 n))) (\<lambda>m.
     rbind (aset m (b + 1) (ucast (drop_bit 16 n))) (\<lambda>m.
     rbind (aset m (b + 2) (ucast (drop_bit 8 n))) (\<lambda>m.
     aset m (b + 3) (ucast n))))"

definition mach_read_from_2 :: "byte list \<Rightarrow> nat \<Rightarrow> ulint res" where
  "mach_read_from_2 m b =
     rbind (aget m b) (\<lambda>b0. rbind (aget m (b + 1)) (\<lambda>b1.
     Inr (push_bit 8 (ucast b0) OR ucast b1)))"

definition mach_read_from_4 :: "byte list \<Rightarrow> nat \<Rightarrow> ulint res" where
  "mach_read_from_4 m b =
     rbind (aget m b) (\<lambda>b0. rbind (aget m (b + 1)) (\<lambda>b1.
     rbind (aget m (b + 2)) (\<lambda>b2. rbind (aget m (b + 3)) (\<lambda>b3.
     Inr (push_bit 24 (ucast b0) OR push_bit 16 (ucast b1) OR push_bit 8 (ucast b2)
       OR ucast b3)))))"

section \<open>Compressed 32-bit integers\<close>

definition mach_write_compressed :: "byte list \<Rightarrow> nat \<Rightarrow> ulint \<Rightarrow> (byte list \<times> nat) res" where
  "mach_write_compressed m b n =
     (if n < 0x80 then
        rbind (mach_write_to_1 m b n) (\<lambda>m. Inr (m, 1))
      else if n < 0x4000 then
        rbind (mach_write_to_2 m b (n OR 0x8000)) (\<lambda>m. Inr (m, 2))
      else if n < 0x200000 then
        rbind (mach_write_to_3 m b (n OR 0xC00000)) (\<lambda>m. Inr (m, 3))
      else if n < 0x10000000 then
        rbind (mach_write_to_4 m b (n OR 0xE0000000)) (\<lambda>m. Inr (m, 4))
      else
        rbind (mach_write_to_1 m b 0xF0) (\<lambda>m.
        rbind (mach_write_to_4 m (b + 1) n) (\<lambda>m. Inr (m, 5))))"

definition mach_get_compressed_size :: "ulint \<Rightarrow> nat" where
  "mach_get_compressed_size n =
     (if n < 0x80 then 1
      else if n < 0x4000 then 2
      else if n < 0x200000 then 3
      else if n < 0x10000000 then 4
      else 5)"

definition mach_read_compressed :: "byte list \<Rightarrow> nat \<Rightarrow> ulint res" where
  "mach_read_compressed m b =
     rbind (mach_read_from_1 m b) (\<lambda>flag.
     if flag < 0x80 then Inr flag
     else if flag < 0xC0 then
       rbind (mach_read_from_2 m b) (\<lambda>v. Inr (v AND 0x7FFF))
     else if flag < 0xE0 then
       rbind (mach_read_from_3 m b) (\<lambda>v. Inr (v AND 0x3FFFFF))
     else if flag < 0xF0 then
       rbind (mach_read_from_4 m b) (\<lambda>v. Inr (v AND 0x1FFFFFFF))
     else mach_read_from_4 m (b + 1))"

text \<open>\<open>None\<close> is the null pointer, \<open>Some (q, v)\<close> the end of the field and the value stored
  through \<open>val\<close>.\<close>

definition mach_parse_compressed :: "byte list \<Rightarrow> nat \<Rightarrow> nat \<Rightarrow> (nat \<times> ulint) option res" where
  "mach_parse_compressed m ptr end_ptr =
     (if ptr \<ge> end_ptr then Inr None
      else rbind (mach_read_from_1 m ptr) (\<lambda>flag.
        if flag < 0x80 then Inr (Some (ptr + 1, flag))
        else if flag < 0xC0 then
          if end_ptr < ptr + 2 then Inr None
          else rbind (mach_read_from_2 m ptr) (\<lambda>v. Inr (Some (ptr + 2, v AND 0x7FFF)))
        else if flag < 0xE0 then
          if end_ptr < ptr + 3 then Inr None
          else rbind (mach_read_from_3 m ptr) (\<lambda>v. Inr (Some (ptr + 3, v AND 0x3FFFFF)))
        else if flag < 0xF0 then
          if end_ptr < ptr + 4 then Inr None
          else rbind (mach_read_from_4 m ptr) (\<lambda>v. Inr (Some (ptr + 4, v AND 0x1FFFFFFF)))
        else
          if end_ptr < ptr + 5 then Inr None
          else rbind (mach_read_from_4 m (ptr + 1)) (\<lambda>v. Inr (Some (ptr + 5, v)))))"

section \<open>Integers of six, seven and eight bytes\<close>

definition ut_ull_create :: "ulint \<Rightarrow> ulint \<Rightarrow> ulint" where
  "ut_ull_create high low = push_bit 32 high OR low"

definition mach_write_to_8 :: "byte list \<Rightarrow> nat \<Rightarrow> ulint \<Rightarrow> byte list res" where
  "mach_write_to_8 m b n =
     rbind (mach_write_to_4 m b (drop_bit 32 n)) (\<lambda>m. mach_write_to_4 m (b + 4) n)"

definition mach_read_from_8 :: "byte list \<Rightarrow> nat \<Rightarrow> ulint res" where
  "mach_read_from_8 m b =
     rbind (mach_read_from_4 m b) (\<lambda>h. rbind (mach_read_from_4 m (b + 4)) (\<lambda>l.
     Inr (push_bit 32 h OR l)))"

definition mach_write_to_7 :: "byte list \<Rightarrow> nat \<Rightarrow> ulint \<Rightarrow> byte list res" where
  "mach_write_to_7 m b n =
     rbind (mach_write_to_3 m b (drop_bit 32 n)) (\<lambda>m. mach_write_to_4 m (b + 3) n)"

definition mach_read_from_7 :: "byte list \<Rightarrow> nat \<Rightarrow> ulint res" where
  "mach_read_from_7 m b =
     rbind (mach_read_from_3 m b) (\<lambda>h. rbind (mach_read_from_4 m (b + 3)) (\<lambda>l.
     Inr (ut_ull_create h l)))"

definition mach_write_to_6 :: "byte list \<Rightarrow> nat \<Rightarrow> ulint \<Rightarrow> byte list res" where
  "mach_write_to_6 m b n =
     rbind (mach_write_to_2 m b (drop_bit 32 n)) (\<lambda>m. mach_write_to_4 m (b + 2) n)"

definition mach_read_from_6 :: "byte list \<Rightarrow> nat \<Rightarrow> ulint res" where
  "mach_read_from_6 m b =
     rbind (mach_read_from_2 m b) (\<lambda>h. rbind (mach_read_from_4 m (b + 2)) (\<lambda>l.
     Inr (ut_ull_create h l)))"

section \<open>Compressed 64-bit integers\<close>

definition mach_ull_write_compressed :: "byte list \<Rightarrow> nat \<Rightarrow> ulint \<Rightarrow> (byte list \<times> nat) res" where
  "mach_ull_write_compressed m b n =
     rbind (mach_write_compressed m b (drop_bit 32 n)) (\<lambda>(m, sz).
     rbind (mach_write_to_4 m (b + sz) n) (\<lambda>m. Inr (m, sz + 4)))"

definition mach_ull_get_compressed_size :: "ulint \<Rightarrow> nat" where
  "mach_ull_get_compressed_size n = 4 + mach_get_compressed_size (drop_bit 32 n)"

definition mach_ull_read_compressed :: "byte list \<Rightarrow> nat \<Rightarrow> ulint res" where
  "mach_ull_read_compressed m b =
     rbind (mach_read_compressed m b) (\<lambda>n.
     rbind (mach_read_from_4 m (b + mach_get_compressed_size n)) (\<lambda>l.
     Inr (push_bit 32 n OR l)))"

definition mach_ull_write_much_compressed ::
  "byte list \<Rightarrow> nat \<Rightarrow> ulint \<Rightarrow> (byte list \<times> nat) res" where
  "mach_ull_write_much_compressed m b n =
     (if drop_bit 32 n = 0 then mach_write_compressed m b n
      else
        rbind (aset m b 0xFF) (\<lambda>m.
        rbind (mach_write_compressed m (b + 1) (drop_bit 32 n)) (\<lambda>(m, s).
        let sz = 1 + s in
        rbind (mach_write_compressed m (b + sz) (n AND 0xFFFFFFFF)) (\<lambda>(m, s).
        Inr (m, sz + s)))))"

definition mach_ull_get_much_compressed_size :: "ulint \<Rightarrow> nat" where
  "mach_ull_get_much_compressed_size n =
     (if drop_bit 32 n = 0 then mach_get_compressed_size n
      else 1 + mach_get_compressed_size (drop_bit 32 n)
             + mach_get_compressed_size (n AND 0xFFFFFFFF))"

definition mach_ull_read_much_compressed :: "byte list \<Rightarrow> nat \<Rightarrow> ulint res" where
  "mach_ull_read_much_compressed m b =
     rbind (aget m b) (\<lambda>x.
     rbind (if x \<noteq> 0xFF then Inr (0, 0)
            else rbind (mach_read_compressed m (b + 1)) (\<lambda>n.
              Inr (push_bit 32 n, 1 + mach_get_compressed_size n))) (\<lambda>(n, sz).
     rbind (mach_read_compressed m (b + sz)) (\<lambda>v. Inr (n OR v))))"

definition mach_ull_parse_compressed ::
  "byte list \<Rightarrow> nat \<Rightarrow> nat \<Rightarrow> (nat \<times> ulint) option res" where
  "mach_ull_parse_compressed m ptr end_ptr =
     (if end_ptr < ptr + 5 then Inr None
      else rbind (mach_read_compressed m ptr) (\<lambda>v.
        let ptr = ptr + mach_get_compressed_size v in
        if end_ptr < ptr + 4 then Inr None
        else rbind (mach_read_from_4 m ptr) (\<lambda>l. Inr (Some (ptr + 4, push_bit 32 v OR l)))))"

section \<open>Little-endian fields\<close>

text \<open>The read loop has just decremented \<open>ptr\<close> to \<open>buf + k\<close>; with \<open>buf_size = 0\<close> the first
  access is below the buffer.\<close>

fun read_little_loop :: "byte list \<Rightarrow> nat \<Rightarrow> nat \<Rightarrow> ulint \<Rightarrow> ulint res" where
  "read_little_loop m buf 0 n = Inl OutOfBounds"
| "read_little_loop m buf (Suc k) n =
     rbind (aget m (buf + k)) (\<lambda>x.
     let n = push_bit 8 n + ucast x in
     if k = 0 then Inr n else read_little_loop m buf k n)"

definition mach_read_from_n_little_endian :: "byte list \<Rightarrow> nat \<Rightarrow> nat \<Rightarrow> ulint res" where
  "mach_read_from_n_little_endian m buf buf_size = read_little_loop m buf buf_size 0"

declare rbind_cong [fundef_cong]

function write_little_loop :: "byte list \<Rightarrow> nat \<Rightarrow> nat \<Rightarrow> ulint \<Rightarrow> byte list res" where
  "write_little_loop m dest e n =
     rbind (aset m dest (ucast (n AND 0xFF))) (\<lambda>m'.
     let n = drop_bit 8 n; dest' = dest + 1 in
     if dest' = e then Inr m' else write_little_loop m' dest' e n)"
  by pat_completeness auto

termination
  by (relation "measure (\<lambda>(m, dest, e, n). length m - dest)") (auto simp: aset_eq_Inr_iff)

definition mach_write_to_n_little_endian ::
  "byte list \<Rightarrow> nat \<Rightarrow> nat \<Rightarrow> ulint \<Rightarrow> byte list res" where
  "mach_write_to_n_little_endian m dest dest_size n = write_little_loop m dest (dest + dest_size) n"

definition mach_read_from_2_little_endian :: "byte list \<Rightarrow> nat \<Rightarrow> ulint res" where
  "mach_read_from_2_little_endian m buf =
     rbind (aget m buf) (\<lambda>b0. rbind (aget m (buf + 1)) (\<lambda>b1.
     Inr (ucast b0 OR push_bit 8 (ucast b1))))"

definition mach_write_to_2_little_endian :: "byte list \<Rightarrow> nat \<Rightarrow> ulint \<Rightarrow> byte list res" where
  "mach_write_to_2_little_endian m dest n =
     rbind (aset m dest (ucast (n AND 0xFF))) (\<lambda>m.
     aset m (dest + 1) (ucast (drop_bit 8 n AND 0xFF)))"

section \<open>Storage format of SQL integers\<close>

fun read_int_loop :: "byte list \<Rightarrow> nat \<Rightarrow> nat \<Rightarrow> ulint \<Rightarrow> ulint res" where
  "read_int_loop m src 0 ret = Inr ret"
| "read_int_loop m src (Suc k) ret =
     rbind (aget m src) (\<lambda>x. read_int_loop m (src + 1) k (push_bit 8 ret OR ucast x))"

definition mach_read_int_type :: "byte list \<Rightarrow> nat \<Rightarrow> nat \<Rightarrow> bool \<Rightarrow> ulint res" where
  "mach_read_int_type m src len unsigned_type =
     rbind (aget m src) (\<lambda>s0.
     let ret = (if unsigned_type \<or> s0 AND 0x80 \<noteq> 0 then 0 else 0xFFFFFFFFFFFFFF00);
         ret = (if unsigned_type then ret OR ucast s0 else ret OR ucast (s0 XOR 0x80))
     in read_int_loop m (src + 1) (len - 1) ret)"

text \<open>\<open>swap_loop m dest from k\<close>: \<open>k\<close> times \<open>*--dest = *from++\<close>; the source bytes are an
  array of their own.\<close>

fun swap_loop :: "byte list \<Rightarrow> nat \<Rightarrow> byte list \<Rightarrow> nat \<Rightarrow> nat \<Rightarrow> byte list res" where
  "swap_loop m dest from f 0 = Inr m"
| "swap_loop m dest from f (Suc k) =
     (if dest = 0 then Inl OutOfBounds
      else rbind (aget from f) (\<lambda>x. rbind (aset m (dest - 1) x) (\<lambda>m.
        swap_loop m (dest - 1) from (f + 1) k)))"

definition mach_swap_byte_order :: "byte list \<Rightarrow> nat \<Rightarrow> byte list \<Rightarrow> nat \<Rightarrow> byte list res" where
  "mach_swap_byte_order m dest from len =
     swap_loop m (dest + len) from 0 (if len mod 8 = 0 then 8 else len mod 8)"

definition xor_first :: "byte list \<Rightarrow> nat \<Rightarrow> byte list res" where
  "xor_first m dest = rbind (aget m dest) (\<lambda>x. aset m dest (x XOR 0x80))"

definition mach_write_int_type ::
  "byte list \<Rightarrow> nat \<Rightarrow> byte list \<Rightarrow> nat \<Rightarrow> bool \<Rightarrow> byte list res" where
  "mach_write_int_type m dest src len usign =
     rbind (mach_swap_byte_order m dest src len) (\<lambda>m.
     if \<not> usign then xor_first m dest else Inr m)"

text \<open>The bytes of a 64-bit variable on a little-endian machine.\<close>

definition host_bytes :: "ulint \<Rightarrow> byte list" where
  "host_bytes n = map (\<lambda>i. ucast (drop_bit (8 * i) n)) [0..<8]"

definition mach_write_ulonglong :: "byte list \<Rightarrow> nat \<Rightarrow> ulint \<Rightarrow> nat \<Rightarrow> bool \<Rightarrow> byte list res" where
  "mach_write_ulonglong m dest src len usign =
     rbind (mach_swap_byte_order m dest (host_bytes src) len) (\<lambda>m.
     if \<not> usign then xor_first m dest else Inr m)"

definition mach_read_ulint :: "byte list \<Rightarrow> nat \<Rightarrow> nat \<Rightarrow> ulint res" where
  "mach_read_ulint m ptr type =
     (if type = 1 then mach_read_from_1 m ptr
      else if type = 2 then mach_read_from_2 m ptr
      else if type = 4 then mach_read_from_4 m ptr
      else Inl AssertFail)"


section \<open>Blocks of bytes\<close>

text \<open>
  The specification of the fixed-width primitives: \<open>put\<close> replaces a block of bytes, \<open>block\<close>
  reads one, and a block stands for the number whose most significant byte comes first.
\<close>

definition put :: "byte list \<Rightarrow> nat \<Rightarrow> byte list \<Rightarrow> byte list res" where
  "put m b bs =
     (if b + length bs \<le> length m then Inr (take b m @ bs @ drop (b + length bs) m)
      else Inl OutOfBounds)"

definition block :: "byte list \<Rightarrow> nat \<Rightarrow> nat \<Rightarrow> byte list res" where
  "block m b k = (if b + k \<le> length m then Inr (take k (drop b m)) else Inl OutOfBounds)"

fun be_bytes :: "nat \<Rightarrow> ulint \<Rightarrow> byte list" where
  "be_bytes 0 n = []"
| "be_bytes (Suc k) n = be_bytes k (drop_bit 8 n) @ [ucast n]"

definition be_val :: "byte list \<Rightarrow> ulint" where
  "be_val bs = foldl (\<lambda>a x. push_bit 8 a OR ucast x) 0 bs"

lemma length_be_bytes [simp]: "length (be_bytes k n) = k"
  by (induction k arbitrary: n) auto

lemma be_val_Nil [simp]: "be_val [] = 0"
  by (simp add: be_val_def)

lemma be_val_snoc [simp]: "be_val (xs @ [x]) = push_bit 8 (be_val xs) OR ucast x"
  by (simp add: be_val_def)

lemma be_val_single [simp]: "be_val [x] = ucast x"
  using be_val_snoc [of "[]" x] by simp

lemma be_val_be_bytes: "be_val (be_bytes k n) = take_bit (8 * k) n"
proof (induction k arbitrary: n)
  case (Suc k)
  show ?case
    by (simp add: Suc) (rule bit_word_eqI, auto simp: bit_simps)
qed simp

lemma put_snoc: "put m b (bs @ [x]) = rbind (put m b bs) (\<lambda>m. aset m (b + length bs) x)"
proof (cases "b + length bs < length m")
  case True
  then have "drop (b + length bs) m = m ! (b + length bs) # drop (Suc (b + length bs)) m"
    by (simp add: Cons_nth_drop_Suc)
  with True show ?thesis by (simp add: put_def aset_def list_update_append)
qed (auto simp: put_def aset_def)

lemma put_Nil: "b \<le> length m \<Longrightarrow> put m b [] = Inr m"
  by (simp add: put_def)

lemma put_single: "put m b [x] = aset m b x"
  by (auto simp: put_def aset_def upd_conv_take_nth_drop)

lemma block_snoc:
  "block m b (Suc (Suc k)) = rbind (block m b (Suc k)) (\<lambda>xs. rbind (aget m (b + Suc k)) (\<lambda>x.
     Inr (xs @ [x])))"
  by (auto simp: block_def aget_def take_Suc_conv_app_nth)

lemma block_single: "block m b (Suc 0) = rbind (aget m b) (\<lambda>x. Inr [x])"
  by (auto simp: block_def aget_def take_Suc_conv_app_nth)


lemma put_append:
  "put m b (xs @ ys) = rbind (put m b xs) (\<lambda>m. put m (b + length xs) ys)"
  by (auto simp: put_def ac_simps)

lemma block_put:
  assumes "put m b bs = Inr m'" and "i + k \<le> length bs"
  shows "block m' (b + i) k = Inr (take k (drop i bs))"
proof -
  from assms(1) have "b + length bs \<le> length m" and m': "m' = take b m @ bs @ drop (b + length bs) m"
    by (auto simp: put_def split: if_splits)
  then have "length (take b m) = b" by simp
  with \<open>b + length bs \<le> length m\<close> assms(2) show ?thesis
    by (simp add: m' block_def)
qed

lemma length_put: "put m b bs = Inr m' \<Longrightarrow> length m' = length m"
  by (auto simp: put_def split: if_splits)

text \<open>The fixed-width primitives are \<open>put\<close> and \<open>block\<close> of big-endian blocks.\<close>

lemma write_to_put:
  "mach_write_to_1 m b n = put m b (be_bytes 1 n)"
  "mach_write_to_2 m b n = put m b (be_bytes 2 n)"
  "mach_write_to_3 m b n = put m b (be_bytes 3 n)"
  "mach_write_to_4 m b n = put m b (be_bytes 4 n)"
proof -
  have e: "be_bytes 1 n = [ucast n]"
    "be_bytes 2 n = [ucast (drop_bit 8 n)] @ [ucast n]"
    "be_bytes 3 n = ([ucast (drop_bit 16 n)] @ [ucast (drop_bit 8 n)]) @ [ucast n]"
    "be_bytes 4 n = (([ucast (drop_bit 24 n)] @ [ucast (drop_bit 16 n)])
       @ [ucast (drop_bit 8 n)]) @ [ucast n]"
    by (simp_all add: numeral_eq_Suc)
  show "mach_write_to_1 m b n = put m b (be_bytes 1 n)"
    by (simp only: e mach_write_to_1_def put_single)
  show "mach_write_to_2 m b n = put m b (be_bytes 2 n)"
    by (simp only: e mach_write_to_2_def put_snoc put_single) simp
  show "mach_write_to_3 m b n = put m b (be_bytes 3 n)"
    unfolding e mach_write_to_3_def put_snoc put_single by (simp add: rbind_def split: sum.splits)
  show "mach_write_to_4 m b n = put m b (be_bytes 4 n)"
    unfolding e mach_write_to_4_def put_snoc put_single
    by (simp add: rbind_def eval_nat_numeral split: sum.splits)
qed

lemma read_from_block:
  "mach_read_from_1 m b = rbind (block m b 1) (\<lambda>xs. Inr (be_val xs))"
  "mach_read_from_2 m b = rbind (block m b 2) (\<lambda>xs. Inr (be_val xs))"
  "mach_read_from_3 m b = rbind (block m b 3) (\<lambda>xs. Inr (be_val xs))"
  "mach_read_from_4 m b = rbind (block m b 4) (\<lambda>xs. Inr (be_val xs))"
proof -
  have v: "be_val [x, y] = push_bit 8 (ucast x) OR ucast y"
    "be_val [x, y, z] = push_bit 16 (ucast x) OR push_bit 8 (ucast y) OR ucast z"
    "be_val [x, y, z, w] = push_bit 24 (ucast x) OR push_bit 16 (ucast y) OR push_bit 8 (ucast z)
       OR ucast w" for x y z w
    using be_val_snoc [of "[x]" y] be_val_snoc [of "[x, y]" z] be_val_snoc [of "[x, y, z]" w]
    by (simp_all add: push_bit_or or.assoc)
  show "mach_read_from_1 m b = rbind (block m b 1) (\<lambda>xs. Inr (be_val xs))"
    by (simp add: mach_read_from_1_def block_single rbind_def split: sum.splits)
  show "mach_read_from_2 m b = rbind (block m b 2) (\<lambda>xs. Inr (be_val xs))"
    by (simp add: mach_read_from_2_def numeral_2_eq_2 block_snoc block_single rbind_def v
        split: sum.splits)
  show "mach_read_from_3 m b = rbind (block m b 3) (\<lambda>xs. Inr (be_val xs))"
    by (simp add: mach_read_from_3_def numeral_3_eq_3 block_snoc block_single rbind_def v
        split: sum.splits)
  show "mach_read_from_4 m b = rbind (block m b 4) (\<lambda>xs. Inr (be_val xs))"
    by (simp add: mach_read_from_4_def eval_nat_numeral block_snoc block_single rbind_def v
        split: sum.splits)
qed


section \<open>The compressed format\<close>

definition holds_bytes :: "byte list \<Rightarrow> nat \<Rightarrow> byte list \<Rightarrow> bool" where
  "holds_bytes m b bs \<longleftrightarrow> block m b (length bs) = Inr bs"

lemma put_holds: "put m b bs = Inr m' \<Longrightarrow> holds_bytes m' b bs"
  using block_put [of m b bs m' 0 "length bs"] by (simp add: holds_bytes_def)

lemma holds_iff: "holds_bytes m b bs \<longleftrightarrow> b + length bs \<le> length m \<and> take (length bs) (drop b m) = bs"
  by (auto simp: holds_bytes_def block_def)

lemma holds_append: "holds_bytes m b (xs @ ys) \<longleftrightarrow> holds_bytes m b xs \<and> holds_bytes m (b + length xs) ys"
  by (auto simp: holds_iff take_add drop_drop ac_simps)

lemma holds_Cons: "holds_bytes m b (x # xs) \<longleftrightarrow> aget m b = Inr x \<and> holds_bytes m (b + 1) xs"
  using holds_append [of m b "[x]" xs]
  by (auto simp: holds_iff [of m b "[x]"] aget_def take_Suc_conv_app_nth)

lemma ucast_byte: "ucast (ucast n :: byte) = (take_bit 8 n :: ulint)"
  by (rule bit_word_eqI) (auto simp: bit_simps)

lemma holds_read:
  "holds_bytes m b (be_bytes 1 n) \<Longrightarrow> mach_read_from_1 m b = Inr (take_bit 8 n)"
  "holds_bytes m b (be_bytes 2 n) \<Longrightarrow> mach_read_from_2 m b = Inr (take_bit 16 n)"
  "holds_bytes m b (be_bytes 3 n) \<Longrightarrow> mach_read_from_3 m b = Inr (take_bit 24 n)"
  "holds_bytes m b (be_bytes 4 n) \<Longrightarrow> mach_read_from_4 m b = Inr (take_bit 32 n)"
  by (simp_all add: holds_bytes_def read_from_block be_val_be_bytes ucast_byte)

lemma be_bytes_Cons: "be_bytes (Suc k) n = ucast (drop_bit (8 * k) n) # be_bytes k n"
proof (induction k arbitrary: n)
  case (Suc k)
  have "be_bytes (Suc (Suc k)) n = be_bytes (Suc k) (drop_bit 8 n) @ [ucast n]" by simp
  also have "\<dots> = (ucast (drop_bit (8 * k) (drop_bit 8 n)) # be_bytes k (drop_bit 8 n)) @ [ucast n]"
    by (simp only: Suc)
  also have "\<dots> = ucast (drop_bit (8 * Suc k) n) # be_bytes (Suc k) n"
    by (simp add: add.commute)
  finally show ?case .
qed simp

lemma be_bytes_numeral:
  "be_bytes (numeral k) n = ucast (drop_bit (8 * pred_numeral k) n) # be_bytes (pred_numeral k) n"
  by (simp add: numeral_eq_Suc be_bytes_Cons del: be_bytes.simps)

declare be_bytes.simps(2) [simp del]

lemma holds_flag: "holds_bytes m b (x # xs) \<Longrightarrow> mach_read_from_1 m b = Inr (ucast x)"
  by (simp add: holds_Cons mach_read_from_1_def)

definition compress :: "ulint \<Rightarrow> byte list" where
  "compress n =
     (if n < 0x80 then be_bytes 1 n
      else if n < 0x4000 then be_bytes 2 (n OR 0x8000)
      else if n < 0x200000 then be_bytes 3 (n OR 0xC00000)
      else if n < 0x10000000 then be_bytes 4 (n OR 0xE0000000)
      else 0xF0 # be_bytes 4 n)"

lemma length_compress: "length (compress n) = mach_get_compressed_size n"
  by (simp add: compress_def mach_get_compressed_size_def)

lemma write_compressed_put:
  "mach_write_compressed m b n =
     rbind (put m b (compress n)) (\<lambda>m. Inr (m, mach_get_compressed_size n))"
proof -
  have "put m b (0xF0 # be_bytes 4 n) = rbind (mach_write_to_1 m b 0xF0) (\<lambda>m. mach_write_to_4 m (b + 1) n)"
    using put_append [of m b "[0xF0]" "be_bytes 4 n"]
    by (simp add: write_to_put be_bytes.simps)
  then show ?thesis
    by (auto simp: mach_write_compressed_def compress_def mach_get_compressed_size_def write_to_put
        rbind_def split: sum.splits)
qed

text \<open>Setting bits above the number is an addition.\<close>

lemma take_bit_small: "unat (n :: ulint) < 2 ^ k \<Longrightarrow> take_bit k n = n"
  by (simp add: word_unat_eq_iff unsigned_take_bit_eq take_bit_nat_eq_self)

lemma unat_take_bit: "unat (take_bit k (n :: ulint)) = unat n mod 2 ^ k"
  by (subst unsigned_take_bit_eq) (rule take_bit_eq_mod)

lemma unat_drop_bit: "unat (drop_bit k (n :: ulint)) = unat n div 2 ^ k"
  by (subst unat_drop_bit_eq) (rule drop_bit_eq_div)

lemma unat_take_bit_less: "unat (take_bit k (n :: ulint)) < 2 ^ k"
  by (simp add: unat_take_bit)

lemma or_high_bits:
  fixes n :: ulint
  assumes "unat n < 2 ^ k"
  shows "n OR push_bit k c = n + push_bit k c"
proof -
  have "\<not> bit n i" if "k \<le> i" for i
    using that take_bit_small [OF assms] by (metis bit_take_bit_iff not_less)
  then show ?thesis
    by (intro disjunctive_add [symmetric]) (auto simp: bit_simps not_less)
qed

lemma unat_or_marker:
  fixes n :: ulint
  shows "unat n < 2 ^ 14 \<Longrightarrow> unat (n OR 0x8000) = unat n + 0x8000"
    and "unat n < 2 ^ 21 \<Longrightarrow> unat (n OR 0xC00000) = unat n + 0xC00000"
    and "unat n < 2 ^ 28 \<Longrightarrow> unat (n OR 0xE0000000) = unat n + 0xE0000000"
  using or_high_bits [of n 14 2] or_high_bits [of n 21 6] or_high_bits [of n 28 14]
  by (simp_all add: unat_word_ariths)

lemma and_low_mask:
  fixes v :: ulint
  shows "v AND 0x7FFF = take_bit 15 v" and "v AND 0x3FFFFF = take_bit 22 v"
    and "v AND 0x1FFFFFFF = take_bit 29 v" and "v AND 0xFFFFFFFF = take_bit 32 v"
  by (simp_all add: take_bit_eq_mask mask_eq_exp_minus_1)

lemma unat_byte_of: "unat (ucast (drop_bit k n) :: byte) = unat (n :: ulint) div 2 ^ k mod 256"
  by (simp add: unsigned_ucast_eq unat_drop_bit_eq)
    (simp only: drop_bit_eq_div take_bit_eq_mod, simp)


lemma flag_of_be_bytes:
  "holds_bytes m b (be_bytes (Suc k) n) \<Longrightarrow>
     \<exists>flag. mach_read_from_1 m b = Inr flag \<and> unat flag = unat n div 2 ^ (8 * k) mod 256"
proof -
  assume "holds_bytes m b (be_bytes (Suc k) n)"
  then have "mach_read_from_1 m b = Inr (ucast (ucast (drop_bit (8 * k) n) :: byte))"
    by (simp only: be_bytes_Cons holds_flag)
  moreover have "unat (ucast x :: ulint) = unat x" for x :: byte
    using unsigned_less [of x, where 'a = nat] by (simp add: unsigned_ucast_eq take_bit_nat_eq_self)
  ultimately show ?thesis by (simp add: unat_byte_of)
qed

lemma compress_unat:
  "unat n < 2 ^ 7 \<Longrightarrow> compress n = be_bytes 1 n"
  "2 ^ 7 \<le> unat n \<Longrightarrow> unat n < 2 ^ 14 \<Longrightarrow> compress n = be_bytes 2 (n OR 0x8000)"
  "2 ^ 14 \<le> unat n \<Longrightarrow> unat n < 2 ^ 21 \<Longrightarrow> compress n = be_bytes 3 (n OR 0xC00000)"
  "2 ^ 21 \<le> unat n \<Longrightarrow> unat n < 2 ^ 28 \<Longrightarrow> compress n = be_bytes 4 (n OR 0xE0000000)"
  "2 ^ 28 \<le> unat n \<Longrightarrow> compress n = 0xF0 # be_bytes 4 n"
  by (simp_all add: compress_def word_less_nat_alt)

lemma read_compressed_unat:
  "mach_read_compressed m b =
     rbind (mach_read_from_1 m b) (\<lambda>flag.
     if unat flag < 0x80 then Inr flag
     else if unat flag < 0xC0 then rbind (mach_read_from_2 m b) (\<lambda>v. Inr (take_bit 15 v))
     else if unat flag < 0xE0 then rbind (mach_read_from_3 m b) (\<lambda>v. Inr (take_bit 22 v))
     else if unat flag < 0xF0 then rbind (mach_read_from_4 m b) (\<lambda>v. Inr (take_bit 29 v))
     else mach_read_from_4 m (b + 1))"
  by (simp add: mach_read_compressed_def word_less_nat_alt and_low_mask cong: if_cong)

lemma compress_cases:
  fixes n :: ulint
  obtains "unat n < 2 ^ 7" | "2 ^ 7 \<le> unat n" "unat n < 2 ^ 14" | "2 ^ 14 \<le> unat n" "unat n < 2 ^ 21"
    | "2 ^ 21 \<le> unat n" "unat n < 2 ^ 28" | "2 ^ 28 \<le> unat n"
  by linarith

text \<open>What the first byte says, and what the mask leaves.\<close>

lemma flag_range:
  assumes "holds_bytes m b (compress n)"
  obtains flag where "mach_read_from_1 m b = Inr flag"
    and "unat n < 2 ^ 7 \<Longrightarrow> flag = n"
    and "2 ^ 7 \<le> unat n \<Longrightarrow> unat n < 2 ^ 14 \<Longrightarrow> 0x80 \<le> unat flag \<and> unat flag < 0xC0"
    and "2 ^ 14 \<le> unat n \<Longrightarrow> unat n < 2 ^ 21 \<Longrightarrow> 0xC0 \<le> unat flag \<and> unat flag < 0xE0"
    and "2 ^ 21 \<le> unat n \<Longrightarrow> unat n < 2 ^ 28 \<Longrightarrow> 0xE0 \<le> unat flag \<and> unat flag < 0xF0"
    and "2 ^ 28 \<le> unat n \<Longrightarrow> unat flag = 0xF0"
proof (cases rule: compress_cases [of n])
  case 1
  with assms have "mach_read_from_1 m b = Inr (take_bit 8 n)"
    by (simp add: compress_unat holds_read del: One_nat_def)
  moreover have "take_bit 8 n = n" using 1 by (intro take_bit_small) simp
  ultimately show ?thesis using 1 by (intro that [of n]) auto
next
  case 2
  with assms flag_of_be_bytes [of m b 1 "n OR 0x8000"]
  obtain flag where f: "mach_read_from_1 m b = Inr flag"
      "unat flag = (unat n + 0x8000) div 2 ^ 8 mod 256"
    by (auto simp: compress_unat unat_or_marker simp del: One_nat_def)
  with 2 show ?thesis by (intro that [of flag]) auto
next
  case 3
  with assms flag_of_be_bytes [of m b 2 "n OR 0xC00000"]
  obtain flag where f: "mach_read_from_1 m b = Inr flag"
      "unat flag = (unat n + 0xC00000) div 2 ^ 16 mod 256"
    by (auto simp: compress_unat unat_or_marker simp del: One_nat_def)
  with 3 show ?thesis by (intro that [of flag]) auto
next
  case 4
  with assms flag_of_be_bytes [of m b 3 "n OR 0xE0000000"]
  obtain flag where f: "mach_read_from_1 m b = Inr flag"
      "unat flag = (unat n + 0xE0000000) div 2 ^ 24 mod 256"
    by (auto simp: compress_unat unat_or_marker simp del: One_nat_def)
  with 4 show ?thesis by (intro that [of flag]) auto
next
  case 5
  with assms show ?thesis
    by (intro that [of "0xF0"]) (auto simp: compress_unat dest: holds_flag)
qed


lemma read_compressed_holds:
  assumes "holds_bytes m b (compress n)" and "unat n < 2 ^ 32"
  shows "mach_read_compressed m b = Inr n"
proof -
  obtain flag where f: "mach_read_from_1 m b = Inr flag"
    "unat n < 2 ^ 7 \<Longrightarrow> flag = n"
    "2 ^ 7 \<le> unat n \<Longrightarrow> unat n < 2 ^ 14 \<Longrightarrow> 0x80 \<le> unat flag \<and> unat flag < 0xC0"
    "2 ^ 14 \<le> unat n \<Longrightarrow> unat n < 2 ^ 21 \<Longrightarrow> 0xC0 \<le> unat flag \<and> unat flag < 0xE0"
    "2 ^ 21 \<le> unat n \<Longrightarrow> unat n < 2 ^ 28 \<Longrightarrow> 0xE0 \<le> unat flag \<and> unat flag < 0xF0"
    "2 ^ 28 \<le> unat n \<Longrightarrow> unat flag = 0xF0"
    using flag_range [OF assms(1)] by blast
  note v = word_unat_eq_iff unat_take_bit unat_or_marker
  show ?thesis
  proof (cases rule: compress_cases [of n])
    case 2
    then have "take_bit 15 (take_bit 16 (n OR 0x8000)) = n" by (simp add: v)
    with 2 assms f show ?thesis by (simp add: read_compressed_unat compress_unat holds_read)
  next
    case 3
    then have "take_bit 22 (take_bit 24 (n OR 0xC00000)) = n" by (simp add: v)
    with 3 assms f show ?thesis by (simp add: read_compressed_unat compress_unat holds_read)
  next
    case 4
    then have "take_bit 29 (take_bit 32 (n OR 0xE0000000)) = n" by (simp add: v)
    with 4 assms f show ?thesis by (simp add: read_compressed_unat compress_unat holds_read)
  next
    case 5
    then have "holds_bytes m (Suc b) (be_bytes 4 n)" using assms(1) by (simp add: compress_unat holds_Cons)
    with 5 assms f show ?thesis by (simp add: read_compressed_unat holds_read take_bit_small)
  qed (use f in \<open>simp add: read_compressed_unat\<close>)
qed


section \<open>Parsing within a buffer\<close>

definition field_size :: "ulint \<Rightarrow> nat" where
  "field_size flag =
     (if unat flag < 0x80 then 1 else if unat flag < 0xC0 then 2 else if unat flag < 0xE0 then 3
      else if unat flag < 0xF0 then 4 else 5)"

lemma parse_is_guarded_read:
  "mach_parse_compressed m p e =
     (if e \<le> p then Inr None
      else rbind (mach_read_from_1 m p) (\<lambda>flag.
        if e < p + field_size flag then Inr None
        else rbind (mach_read_compressed m p) (\<lambda>v. Inr (Some (p + field_size flag, v)))))"
  by (cases "mach_read_from_1 m p")
    (auto simp: mach_parse_compressed_def read_compressed_unat field_size_def and_low_mask
      word_less_nat_alt rbind_def cong: if_cong split: sum.splits)

lemma field_size_compress:
  assumes "holds_bytes m b (compress n)"
  shows "\<exists>flag. mach_read_from_1 m b = Inr flag \<and> field_size flag = mach_get_compressed_size n"
proof -
  obtain flag where f: "mach_read_from_1 m b = Inr flag"
    "unat n < 2 ^ 7 \<Longrightarrow> flag = n"
    "2 ^ 7 \<le> unat n \<Longrightarrow> unat n < 2 ^ 14 \<Longrightarrow> 0x80 \<le> unat flag \<and> unat flag < 0xC0"
    "2 ^ 14 \<le> unat n \<Longrightarrow> unat n < 2 ^ 21 \<Longrightarrow> 0xC0 \<le> unat flag \<and> unat flag < 0xE0"
    "2 ^ 21 \<le> unat n \<Longrightarrow> unat n < 2 ^ 28 \<Longrightarrow> 0xE0 \<le> unat flag \<and> unat flag < 0xF0"
    "2 ^ 28 \<le> unat n \<Longrightarrow> unat flag = 0xF0"
    using flag_range [OF assms] by blast
  then have "field_size flag = mach_get_compressed_size n"
    by (cases rule: compress_cases [of n])
      (auto simp: field_size_def mach_get_compressed_size_def word_less_nat_alt)
  with f(1) show ?thesis by blast
qed

lemma compress_size_pos: "0 < mach_get_compressed_size n"
  by (simp add: mach_get_compressed_size_def)

lemma parse_compressed_holds:
  assumes "holds_bytes m b (compress n)" and "unat n < 2 ^ 32"
  shows "mach_parse_compressed m b e =
     Inr (if e < b + mach_get_compressed_size n then None
          else Some (b + mach_get_compressed_size n, n))"
  using field_size_compress [OF assms(1)] read_compressed_holds [OF assms]
    compress_size_pos [of n]
  by (auto simp: parse_is_guarded_read)

lemma block_local: "take e m' = take e m \<Longrightarrow> p + k \<le> e \<Longrightarrow> e \<le> length m \<Longrightarrow> e \<le> length m' \<Longrightarrow>
    block m' p k = block m p k"
proof -
  assume a: "take e m' = take e m" "p + k \<le> e" "e \<le> length m" "e \<le> length m'"
  have "take k (drop p m) = take k (drop p (take e m))" if "p + k \<le> e" for m :: "byte list"
    using that by (simp add: drop_take min_def)
  with a show ?thesis by (simp add: block_def) metis
qed


lemma be_val_bound: "unat (be_val bs) < 2 ^ (8 * length bs)"
proof -
  have "take_bit (8 * length bs) (be_val bs) = be_val bs"
  proof (induction bs rule: rev_induct)
    case (snoc x bs)
    have b: "bit (be_val bs) i \<Longrightarrow> i < 8 * length bs" for i
      using snoc by (metis bit_take_bit_iff)
    have x: "bit x i \<Longrightarrow> i < 8" for i
      using bit_imp_le_length [of x i] by simp
    show ?case by (rule bit_word_eqI) (auto simp: bit_simps dest: b x)
  qed simp
  then show ?thesis using unat_take_bit_less [of "8 * length bs" "be_val bs"] by simp
qed

lemma block_total: "p + k \<le> length m \<Longrightarrow> \<exists>bs. block m p k = Inr bs \<and> unat (be_val bs) < 2 ^ (8 * k)"
  using be_val_bound [of "take k (drop p m)"] by (simp add: block_def)

lemma read_from_total:
  "p + 1 \<le> length m \<Longrightarrow> \<exists>v. mach_read_from_1 m p = Inr v \<and> unat v < 2 ^ 8"
  "p + 2 \<le> length m \<Longrightarrow> \<exists>v. mach_read_from_2 m p = Inr v \<and> unat v < 2 ^ 16"
  "p + 3 \<le> length m \<Longrightarrow> \<exists>v. mach_read_from_3 m p = Inr v \<and> unat v < 2 ^ 24"
  "p + 4 \<le> length m \<Longrightarrow> \<exists>v. mach_read_from_4 m p = Inr v \<and> unat v < 2 ^ 32"
  by (drule block_total, force simp: read_from_block)+

lemma read_compressed_total:
  assumes "mach_read_from_1 m p = Inr flag" and "p + field_size flag \<le> length m"
  shows "\<exists>v. mach_read_compressed m p = Inr v \<and> unat v < 2 ^ 32"
proof -
  have "unat (take_bit k v) < 2 ^ 32" if "k \<le> 32" for k and v :: ulint
    using that unat_take_bit_less [of k v] power_increasing [of k 32 "2 :: nat"] by linarith
  then show ?thesis
    using assms read_from_total [of p m] read_from_total(4) [of "p + 1" m]
    by (auto simp: read_compressed_unat field_size_def split: if_splits)
qed

lemma read_compressed_local:
  assumes "take e m' = take e m" and "e \<le> length m" and "e \<le> length m'"
    and "mach_read_from_1 m p = Inr flag" and "p + field_size flag \<le> e"
  shows "mach_read_from_1 m' p = Inr flag" and "mach_read_compressed m' p = mach_read_compressed m p"
proof -
  note l = block_local [OF assms(1) _ assms(2,3)]
  have 1: "p + 1 \<le> e" using assms(5) by (simp add: field_size_def split: if_splits)
  show f: "mach_read_from_1 m' p = Inr flag"
    using l [OF 1] assms(4) by (simp add: read_from_block)
  show "mach_read_compressed m' p = mach_read_compressed m p"
    using f assms(4,5) l [of p 2] l [of p 3] l [of p 4] l [of "p + 1" 4]
    by (auto simp: read_compressed_unat field_size_def read_from_block split: if_splits)
qed


section \<open>The 64-bit forms\<close>

lemma join_halves: "push_bit 32 (drop_bit 32 n) OR take_bit 32 n = (n :: ulint)"
  by (rule bit_word_eqI) (auto simp: bit_simps)

lemma unat_high_half: "unat (drop_bit 32 (n :: ulint)) < 2 ^ 32"
proof -
  have "unat n < 2 ^ 64" using unsigned_less [of n, where 'a = nat] by simp
  then show ?thesis by (simp add: unat_drop_bit)
qed

lemma unat_low_half: "unat (take_bit 32 (n :: ulint)) < 2 ^ 32"
  by (rule unat_take_bit_less)

lemma ull_write_compressed_put:
  "mach_ull_write_compressed m b n =
     rbind (put m b (compress (drop_bit 32 n) @ be_bytes 4 n)) (\<lambda>m.
     Inr (m, mach_ull_get_compressed_size n))"
  by (simp add: mach_ull_write_compressed_def write_compressed_put write_to_put put_append
      length_compress mach_ull_get_compressed_size_def rbind_def split: sum.splits)

definition much_compress :: "ulint \<Rightarrow> byte list" where
  "much_compress n =
     (if drop_bit 32 n = 0 then compress n
      else [0xFF] @ compress (drop_bit 32 n) @ compress (take_bit 32 n))"

lemma length_much_compress: "length (much_compress n) = mach_ull_get_much_compressed_size n"
  by (simp add: much_compress_def mach_ull_get_much_compressed_size_def length_compress and_low_mask)

lemma ull_write_much_compressed_put:
  "mach_ull_write_much_compressed m b n =
     rbind (put m b (much_compress n)) (\<lambda>m. Inr (m, mach_ull_get_much_compressed_size n))"
proof (cases "drop_bit 32 n = 0")
  case False
  let ?h = "compress (drop_bit 32 n)" and ?l = "compress (take_bit 32 n)"
  have "put m b (much_compress n) = rbind (aset m b 0xFF) (\<lambda>m.
      rbind (put m (b + 1) ?h) (\<lambda>m. put m (b + 1 + mach_get_compressed_size (drop_bit 32 n)) ?l))"
    using False put_append [of m b "[0xFF]" "?h @ ?l"]
    by (simp add: much_compress_def put_append put_single length_compress)
  with False show ?thesis
    by (simp add: mach_ull_write_much_compressed_def mach_ull_get_much_compressed_size_def
        write_compressed_put and_low_mask rbind_def split: sum.splits)
qed (simp add: mach_ull_write_much_compressed_def much_compress_def write_compressed_put
    mach_ull_get_much_compressed_size_def)

lemma compress_first_byte:
  assumes "holds_bytes m b (compress n)"
  shows "\<exists>x. aget m b = Inr x \<and> x \<noteq> 0xFF"
proof -
  obtain flag where f: "mach_read_from_1 m b = Inr flag" "unat flag \<le> 0xF0"
    by (rule flag_range [OF assms], cases rule: compress_cases [of n]) force+
  then obtain x where x: "aget m b = Inr x" "flag = ucast x"
    by (auto simp: mach_read_from_1_def rbind_eq_Inr_iff)
  with f(2) have "x \<noteq> 0xFF" by auto
  with x show ?thesis by blast
qed

lemma small_iff: "drop_bit 32 n = 0 \<longleftrightarrow> unat (n :: ulint) < 2 ^ 32"
  by (simp add: word_unat_eq_iff unat_drop_bit div_eq_0_iff)

lemma ull_read_much_compressed_holds:
  assumes "holds_bytes m b (much_compress n)"
  shows "mach_ull_read_much_compressed m b = Inr n"
proof (cases "drop_bit 32 n = 0")
  case True
  with assms have h: "holds_bytes m b (compress n)" by (simp add: much_compress_def)
  from True have "unat n < 2 ^ 32" by (simp add: small_iff)
  with compress_first_byte [OF h] read_compressed_holds [OF h] show ?thesis
    by (auto simp: mach_ull_read_much_compressed_def)
next
  case False
  with assms have x: "aget m b = Inr 0xFF" and h: "holds_bytes m (b + 1) (compress (drop_bit 32 n))"
    and l: "holds_bytes m (b + 1 + mach_get_compressed_size (drop_bit 32 n)) (compress (take_bit 32 n))"
    by (auto simp: much_compress_def holds_Cons holds_append length_compress)
  have "mach_read_compressed m (b + 1) = Inr (drop_bit 32 n)"
    using read_compressed_holds [OF h unat_high_half] .
  moreover have "mach_read_compressed m (b + 1 + mach_get_compressed_size (drop_bit 32 n))
      = Inr (take_bit 32 n)"
    using read_compressed_holds [OF l unat_low_half] .
  ultimately show ?thesis
    using x by (simp add: mach_ull_read_much_compressed_def join_halves)
qed


section \<open>The SQL integer format\<close>

lemma put_last: "rbind (aset m (d + length ys) x) (\<lambda>m. put m d ys) = put m d (ys @ [x])"
proof (cases "d + length ys < length m")
  case True
  then have "drop (d + length ys) m = m ! (d + length ys) # drop (Suc (d + length ys)) m"
    by (simp add: Cons_nth_drop_Suc)
  with True show ?thesis by (simp add: put_def drop_update_swap)
qed (simp add: put_def)

lemma swap_loop_put:
  "f + k \<le> length from \<Longrightarrow> d \<le> length m \<Longrightarrow>
     swap_loop m (d + k) from f k = put m d (rev (take k (drop f from)))"
proof (induction k arbitrary: m f)
  case (Suc k)
  have "take (Suc k) (drop f from) = from ! f # take k (drop (Suc f) from)"
    using Suc.prems(1) by (simp add: take_Suc_conv_app_nth Cons_nth_drop_Suc [symmetric])
  moreover have "rbind (aset m (d + k) (from ! f)) (\<lambda>m. swap_loop m (d + k) from (f + 1) k)
      = rbind (aset m (d + k) (from ! f)) (\<lambda>m. put m d (rev (take k (drop (Suc f) from))))"
    using Suc by (intro rbind_cong) (auto simp: aset_eq_Inr_iff)
  ultimately show ?case
    using Suc.prems put_last [of m d "rev (take k (drop (Suc f) from))" "from ! f"] by simp
qed (simp add: put_def)

lemma rev_host_bytes: "k \<le> 8 \<Longrightarrow> rev (take k (host_bytes n)) = be_bytes k n"
proof (induction k)
  case (Suc k)
  then have "take (Suc k) (host_bytes n) = take k (host_bytes n) @ [ucast (drop_bit (8 * k) n)]"
    by (simp add: host_bytes_def take_map)
  with Suc show ?case by (simp add: be_bytes_Cons)
qed simp

definition int_bytes :: "nat \<Rightarrow> ulint \<Rightarrow> bool \<Rightarrow> byte list" where
  "int_bytes len n usign =
     (if usign then be_bytes len n
      else (ucast (drop_bit (8 * (len - 1)) n) XOR 0x80) # be_bytes (len - 1) n)"

lemma write_ulonglong_put:
  assumes "0 < len" and "len \<le> 8" and "dest \<le> length m"
  shows "mach_write_ulonglong m dest n len usign = put m dest (int_bytes len n usign)"
proof -
  have "mach_swap_byte_order m dest (host_bytes n) len = put m dest (be_bytes len n)"
    using assms swap_loop_put [of 0 len "host_bytes n" dest m] rev_host_bytes [of len n]
    by (auto simp: mach_swap_byte_order_def host_bytes_def le_less_Suc_eq dest!: le_eq_less_or_eq [THEN iffD1])
  moreover obtain k where "len = Suc k" using assms(1) by (cases len) auto
  ultimately show ?thesis
    by (auto simp: mach_write_ulonglong_def int_bytes_def xor_first_def put_def be_bytes_Cons
        nth_append list_update_append rbind_def split: if_splits)
qed


lemma read_int_loop_block:
  "read_int_loop m src k ret =
     (if src + k \<le> length m \<or> k = 0
      then Inr (foldl (\<lambda>a x. push_bit 8 a OR ucast x) ret (take k (drop src m))) else Inl OutOfBounds)"
proof (induction k arbitrary: src ret)
  case (Suc k)
  then show ?case
    by (auto simp: aget_def Cons_nth_drop_Suc [symmetric])
qed simp

lemma fold_be_bytes:
  "foldl (\<lambda>a x. push_bit 8 a OR ucast x) a (be_bytes k n) = push_bit (8 * k) a OR take_bit (8 * k) n"
proof (induction k arbitrary: n)
  case (Suc k)
  show ?case
    by (simp add: be_bytes.simps(2) Suc) (rule bit_word_eqI, auto simp: bit_simps)
qed simp

lemma read_int_type_holds:
  assumes "holds_bytes m b (x # be_bytes k n)"
  shows "mach_read_int_type m b (Suc k) u = Inr (push_bit (8 * k)
     (if u then ucast x else (if x AND 0x80 \<noteq> 0 then 0 else 0xFFFFFFFFFFFFFF00) OR ucast (x XOR 0x80))
     OR take_bit (8 * k) n)"
proof -
  from assms have "aget m b = Inr x" and "holds_bytes m (b + 1) (be_bytes k n)" by (auto simp: holds_Cons)
  moreover from this(2) have "b + 1 + k \<le> length m" "take k (drop (b + 1) m) = be_bytes k n"
    by (auto simp: holds_iff)
  ultimately show ?thesis
    by (auto simp: mach_read_int_type_def read_int_loop_block fold_be_bytes Let_def)
qed

lemma sign_extend_top:
  "(if (y XOR 0x80) AND 0x80 \<noteq> 0 then 0 else 0xFFFFFFFFFFFFFF00) OR ucast ((y XOR 0x80) XOR 0x80)
     = (scast (y :: byte) :: ulint)"
proof -
  have m: "0xFFFFFFFFFFFFFF00 = (NOT (mask 8) :: ulint)" by (simp add: mask_eq_exp_minus_1)
  have s: "(y XOR 0x80) AND 0x80 \<noteq> 0 \<longleftrightarrow> \<not> bit y 7"
  proof -
    have "bit (2 ^ 7 :: byte) i \<longleftrightarrow> i = 7" for i unfolding bit_exp_iff by auto
    then have b: "bit (0x80 :: byte) i \<longleftrightarrow> i = 7" for i by (simp only: power_numeral) simp
    have "bit ((y XOR 0x80) AND 0x80) i \<longleftrightarrow> i = 7 \<and> \<not> bit y 7" for i
      by (auto simp only: bit_and_iff bit_xor_iff b)
    then show ?thesis by (metis bit_0_eq bot_apply bot_bool_def bit_eq_iff)
  qed
  have x: "(y XOR 0x80) XOR 0x80 = y" by (simp add: xor.assoc)
  have y: "\<not> i < 8 \<Longrightarrow> \<not> bit y i" for i using bit_imp_le_length [of y i] by auto
  have n: "min 7 i = (if i < 8 then i else 7)" for i :: nat by auto
  have "(if \<not> bit y 7 then 0 else NOT (mask 8)) OR ucast y = (scast y :: ulint)"
    by (rule bit_word_eqI) (auto simp: bit_simps n y split: if_splits)
  then show ?thesis by (simp only: m s x)
qed


lemma int_type_roundtrip_holds:
  assumes "holds_bytes m b (int_bytes len n usign)" and "0 < len"
  shows "mach_read_int_type m b len usign =
     Inr (if usign then take_bit (8 * len) n else signed_take_bit (8 * len - 1) n)"
proof -
  obtain k where k: "len = Suc k" using assms(2) by (cases len) auto
  show ?thesis
  proof (cases usign)
    case True
    then show ?thesis
      using assms(1) read_int_type_holds [of m b "ucast (drop_bit (8 * k) n)" k n True]
      by (auto simp: k int_bytes_def be_bytes_Cons bit_simps intro!: bit_word_eqI)
  next
    case False
    let ?y = "ucast (drop_bit (8 * k) n) :: byte"
    have "mach_read_int_type m b len usign = Inr (push_bit (8 * k) (scast ?y) OR take_bit (8 * k) n)"
      using assms(1) False read_int_type_holds [of m b "?y XOR 0x80" k n False]
      by (simp only: k int_bytes_def if_False simp_thms diff_Suc_1 sign_extend_top)
    moreover have "push_bit (8 * k) (scast ?y) OR take_bit (8 * k) n = signed_take_bit (8 * len - 1) n"
      by (rule bit_word_eqI) (auto simp: k bit_simps min_def add.commute [of 7])
    ultimately show ?thesis using False by simp
  qed
qed


section \<open>Little-endian fields are the reversed bytes\<close>

lemma read_little_loop_rev:
  "0 < k \<Longrightarrow> buf + k \<le> length m \<Longrightarrow> read_little_loop m buf k n =
     Inr (foldl (\<lambda>a x. push_bit 8 a OR ucast x) n (rev (take k (drop buf m))))"
proof (induction k arbitrary: n)
  case (Suc k)
  have "push_bit 8 n + ucast x = push_bit 8 n OR (ucast x :: ulint)" for n :: ulint and x :: byte
    using bit_imp_le_length [of x] by (intro disjunctive_add) (fastforce simp: bit_simps)
  moreover have "take (Suc k) (drop buf m) = take k (drop buf m) @ [m ! (buf + k)]"
    using Suc.prems(2) by (simp add: take_Suc_conv_app_nth)
  ultimately show ?case using Suc by (auto simp: Let_def)
qed simp

lemma low_byte: "ucast (n AND 0xFF :: ulint) = (ucast n :: byte)"
proof -
  have "n AND 0xFF = take_bit 8 n" by (simp add: take_bit_eq_mask mask_eq_exp_minus_1)
  then show ?thesis by (auto intro!: bit_word_eqI simp: bit_simps)
qed

lemma put_first:
  assumes "d + Suc (length ys) \<le> length m"
  shows "put (m[d := x]) (Suc d) ys = put m d (x # ys)"
  using assms put_append [of m d "[x]" ys] by (simp add: put_single)

lemma write_little_loop_put:
  "d + Suc k \<le> length m \<Longrightarrow> write_little_loop m d (d + Suc k) n = put m d (rev (be_bytes (Suc k) n))"
proof (induction k arbitrary: m d n)
  case 0
  then show ?case by (simp add: low_byte be_bytes.simps put_single)
next
  case (Suc k)
  have "write_little_loop m d (d + Suc (Suc k)) n
      = write_little_loop (m[d := ucast n]) (Suc d) (Suc d + Suc k) (drop_bit 8 n)"
    using Suc.prems by (subst write_little_loop.simps) (simp add: low_byte Let_def)
  also have "\<dots> = put (m[d := ucast n]) (Suc d) (rev (be_bytes (Suc k) (drop_bit 8 n)))"
    using Suc.prems by (intro Suc.IH) simp
  also have "\<dots> = put m d (rev (be_bytes (Suc (Suc k)) n))"
    using Suc.prems by (simp add: put_first be_bytes.simps(2) [of "Suc k"])
  finally show ?case .
qed

lemma little_endian_roundtrip:
  assumes "0 < k" and "dest + k \<le> length m"
  shows "\<exists>m'. mach_write_to_n_little_endian m dest k n = Inr m' \<and>
     mach_read_from_n_little_endian m' dest k = Inr (take_bit (8 * k) n)"
proof -
  obtain j where k: "k = Suc j" using assms(1) by (cases k) auto
  from assms(2) obtain m' where m': "put m dest (rev (be_bytes k n)) = Inr m'"
    by (simp add: put_def)
  with assms(2) have "mach_write_to_n_little_endian m dest k n = Inr m'"
    using write_little_loop_put [of dest j m n] by (simp add: mach_write_to_n_little_endian_def k)
  moreover have "dest + k \<le> length m'" "take k (drop dest m') = rev (be_bytes k n)"
    using put_holds [OF m'] by (auto simp: holds_iff)
  then have "mach_read_from_n_little_endian m' dest k = Inr (take_bit (8 * k) n)"
    using read_little_loop_rev [OF assms(1), of dest m' 0] fold_be_bytes [of 0 k n]
    by (simp add: mach_read_from_n_little_endian_def)
  ultimately show ?thesis by blast
qed


section \<open>Properties\<close>

lemma put_frame:
  "put m b bs = Inr m' \<Longrightarrow>
     length m' = length m \<and> take b m' = take b m \<and> drop (b + length bs) m' = drop (b + length bs) m"
  by (auto simp: put_def split: if_splits)

text \<open>C30: A 32-bit number written by \<open>mach_write_compressed\<close> occupies exactly the size that
  \<open>mach_get_compressed_size\<close> announces and changes no other byte; \<open>mach_read_compressed\<close> and
  \<open>mach_parse_compressed\<close> return the number, and the parser returns the null pointer exactly
  when the buffer ends before the field does.\<close>

theorem compressed_roundtrip:
  assumes "unat n < 2 ^ 32" and "mach_write_compressed m b n = Inr (m', sz)"
  shows "sz = mach_get_compressed_size n \<and>
    mach_read_compressed m' b = Inr n \<and>
    mach_parse_compressed m' b e = Inr (if e < b + sz then None else Some (b + sz, n)) \<and>
    length m' = length m \<and> take b m' = take b m \<and> drop (b + sz) m' = drop (b + sz) m"
proof -
  from assms(2) have p: "put m b (compress n) = Inr m'" and sz: "sz = mach_get_compressed_size n"
    by (auto simp: write_compressed_put rbind_eq_Inr_iff)
  from read_compressed_holds [OF put_holds [OF p] assms(1)]
    parse_compressed_holds [OF put_holds [OF p] assms(1)] put_frame [OF p]
  show ?thesis by (simp add: sz length_compress)
qed

lemmas mach_eval = mach_write_compressed_def mach_read_compressed_def mach_write_to_1_def
  mach_write_to_2_def mach_write_to_3_def mach_write_to_4_def mach_read_from_1_def
  mach_read_from_2_def mach_read_from_3_def mach_read_from_4_def mach_get_compressed_size_def
  mach_ull_write_compressed_def mach_ull_write_much_compressed_def
  mach_ull_get_compressed_size_def mach_ull_get_much_compressed_size_def

theorem compressed_roundtrip_witness:
  "mach_read_compressed [7, 0x81, 0x2C, 9] 1 = Inr 300 \<and>
   mach_parse_compressed [7, 0x81, 0x2C, 9] 1 2 = Inr None \<and>
   mach_parse_compressed [7, 0x81, 0x2C, 9] 1 3 = Inr (Some (3, 300))"
  using compressed_roundtrip [of 300 "[7, 0, 0, 9]" 1 "[7, 0x81, 0x2C, 9]" 2 2]
    compressed_roundtrip [of 300 "[7, 0, 0, 9]" 1 "[7, 0x81, 0x2C, 9]" 2 3]
  by (simp add: mach_eval)

text \<open>C31: Both compressed forms of 64-bit numbers are read back as the number that was
  written, in the announced number of bytes; the parser of the first form additionally
  returns the null pointer exactly when the buffer is too short. The second form is
  unambiguous: no compressed 32-bit number begins with the byte \<open>0xFF\<close> that announces a
  high half.\<close>

theorem ull_compressed_roundtrip:
  "(mach_ull_write_compressed m b n = Inr (m1, s1) \<longrightarrow>
      s1 = mach_ull_get_compressed_size n \<and> mach_ull_read_compressed m1 b = Inr n \<and>
      mach_ull_parse_compressed m1 b e = Inr (if e < b + s1 then None else Some (b + s1, n))) \<and>
   (mach_ull_write_much_compressed m b n = Inr (m2, s2) \<longrightarrow>
      s2 = mach_ull_get_much_compressed_size n \<and> mach_ull_read_much_compressed m2 b = Inr n)"
proof (intro conjI impI)
  assume "mach_ull_write_compressed m b n = Inr (m1, s1)"
  then have p: "put m b (compress (drop_bit 32 n) @ be_bytes 4 n) = Inr m1"
    and s1: "s1 = mach_ull_get_compressed_size n"
    by (auto simp: ull_write_compressed_put rbind_eq_Inr_iff)
  let ?k = "mach_get_compressed_size (drop_bit 32 n)"
  have h: "holds_bytes m1 b (compress (drop_bit 32 n))" and l: "holds_bytes m1 (b + ?k) (be_bytes 4 n)"
    using put_holds [OF p] by (auto simp: holds_append length_compress)
  note r = read_compressed_holds [OF h unat_high_half] holds_read(4) [OF l]
  show "s1 = mach_ull_get_compressed_size n" by (rule s1)
  show "mach_ull_read_compressed m1 b = Inr n"
    using r by (simp add: mach_ull_read_compressed_def join_halves)
  show "mach_ull_parse_compressed m1 b e = Inr (if e < b + s1 then None else Some (b + s1, n))"
    using r compress_size_pos [of "drop_bit 32 n"]
    by (auto simp: mach_ull_parse_compressed_def join_halves s1 mach_ull_get_compressed_size_def)
next
  assume "mach_ull_write_much_compressed m b n = Inr (m2, s2)"
  then have p: "put m b (much_compress n) = Inr m2" and "s2 = mach_ull_get_much_compressed_size n"
    by (auto simp: ull_write_much_compressed_put rbind_eq_Inr_iff)
  then show "s2 = mach_ull_get_much_compressed_size n" by simp
  from put_holds [OF p] show "mach_ull_read_much_compressed m2 b = Inr n"
    by (rule ull_read_much_compressed_holds)
qed

theorem ull_compressed_roundtrip_witness:
  "mach_ull_read_compressed [0x81, 0x2C, 0, 0, 0, 7] 0 = Inr 0x12C00000007 \<and>
   mach_ull_read_much_compressed [0xFF, 0x81, 0x2C, 7] 0 = Inr 0x12C00000007"
  using ull_compressed_roundtrip [of "[0, 0, 0, 0, 0, 0]" 0 "0x12C00000007" "[0x81, 0x2C, 0, 0, 0, 7]" 6 0
      "[]" 0]
    ull_compressed_roundtrip [of "[0, 0, 0, 0]" 0 "0x12C00000007" "[]" 0 0 "[0xFF, 0x81, 0x2C, 7]" 4]
  by (simp add: mach_eval Let_def)





end
