(* ===== verification/OsEvent.thy ===== *)
theory OsEvent
  imports MachData
begin

text \<open>
  The event semaphores of XtraDB (\<open>os/os0sync.cc\<close>, \<open>include/os0sync.h\<close>). The real event keeps
  a set flag in the most significant bit of a 64-bit word and counts the signals in the
  others. The first part models that word; the second the same operations on a flag and an
  unbounded count, and shows that they agree until \<open>2 ^ 63 - 1\<close> signals have been sent, the
  bound that \<open>inc_signal_count\<close> asserts. The locale \<open>event_semaphore\<close> states what the mutexes,
  the latches and the wait array rely on: a thread that took a ticket with
  \<open>os_event_reset\<close> does not miss a signal sent before it starts to wait.
\<close>

section \<open>The event word\<close>

definition count_mask :: ulint where
  "count_mask = 0x7fffffffffffffff"

definition set_mask :: ulint where
  "set_mask = 0x8000000000000000"

definition init_count_and_set :: ulint where
  "init_count_and_set = 1"

definition ev_set :: "ulint \<Rightarrow> ulint" where
  "ev_set count_and_set = count_and_set OR set_mask"

definition ev_reset :: "ulint \<Rightarrow> ulint" where
  "ev_reset count_and_set = count_and_set AND count_mask"

definition ev_is_set :: "ulint \<Rightarrow> bool" where
  "ev_is_set count_and_set \<longleftrightarrow> count_and_set AND set_mask \<noteq> 0"

definition ev_inc_signal_count :: "ulint \<Rightarrow> ulint" where
  "ev_inc_signal_count count_and_set = count_and_set + 1"

definition ev_signal_count :: "ulint \<Rightarrow> ulint" where
  "ev_signal_count count_and_set = count_and_set AND count_mask"

text \<open>The bodies run while the event's own mutex is held, so each is one step.\<close>

definition os_event_set_word :: "ulint \<Rightarrow> ulint" where
  "os_event_set_word e = (if ev_is_set e then e else ev_inc_signal_count (ev_set e))"

definition os_event_reset_word :: "ulint \<Rightarrow> ulint \<times> ulint" where
  "os_event_reset_word e =
     (let e = (if \<not> ev_is_set e then e else ev_reset e) in (e, ev_signal_count e))"

text \<open>The loop condition of \<open>os_event_wait_low\<close>: the thread stays suspended.\<close>

definition os_event_blocks_word :: "ulint \<Rightarrow> ulint \<Rightarrow> bool" where
  "os_event_blocks_word e reset_sig_count \<longleftrightarrow>
     \<not> ev_is_set e \<and> ev_signal_count e = reset_sig_count"

section \<open>Events with an unbounded count\<close>

record os_event =
  is_set :: bool
  signal_count :: nat

definition os_event_create :: os_event where
  "os_event_create = \<lparr>is_set = False, signal_count = 1\<rparr>"

definition os_event_set :: "os_event \<Rightarrow> os_event" where
  "os_event_set e =
     (if is_set e then e else e\<lparr>is_set := True, signal_count := signal_count e + 1\<rparr>)"

definition os_event_reset :: "os_event \<Rightarrow> os_event \<times> nat" where
  "os_event_reset e =
     (if \<not> is_set e then (e, signal_count e) else (e\<lparr>is_set := False\<rparr>, signal_count e))"

text \<open>
  The loop condition of \<open>os_event_wait_low\<close>. The count is at least one from the start, so the
  value \<open>0\<close>, which \<open>os_event_wait_low\<close> reserves for "no ticket", is never returned by a reset.
\<close>

definition os_event_blocks :: "os_event \<Rightarrow> nat \<Rightarrow> bool" where
  "os_event_blocks e reset_sig_count \<longleftrightarrow> \<not> is_set e \<and> signal_count e = reset_sig_count"

section \<open>What a client relies on\<close>

text \<open>
  \<open>issued e c\<close>: the ticket \<open>c\<close> was returned by an earlier reset of \<open>e\<close>. A new ticket
  blocks; a signal releases every ticket; no reset by another thread takes a signal back.
\<close>

locale event_semaphore =
  fixes sig :: "'e \<Rightarrow> 'e" and rst :: "'e \<Rightarrow> 'e \<times> 'c" and blocks :: "'e \<Rightarrow> 'c \<Rightarrow> bool"
    and issued :: "'e \<Rightarrow> 'c \<Rightarrow> bool"
  assumes rst_issues: "rst e = (e', c) \<Longrightarrow> issued e' c"
    and rst_blocks: "rst e = (e', c) \<Longrightarrow> blocks e' c"
    and issued_sig: "issued e c \<Longrightarrow> issued (sig e) c"
    and issued_rst: "issued e c \<Longrightarrow> issued (fst (rst e)) c"
    and sig_releases: "issued e c \<Longrightarrow> \<not> blocks (sig e) c"
    and rst_keeps: "issued e c \<Longrightarrow> blocks (fst (rst e)) c \<longleftrightarrow> blocks e c"
begin

text \<open>\<open>True\<close> is a signal and \<open>False\<close> a reset by some thread.\<close>

fun after :: "'e \<Rightarrow> bool list \<Rightarrow> 'e" where
  "after e [] = e"
| "after e (op # ops) = after (if op then sig e else fst (rst e)) ops"

lemma issued_after: "issued e c \<Longrightarrow> issued (after e ops) c"
  by (induction ops arbitrary: e) (auto simp: issued_sig issued_rst)

lemma blocks_after_iff: "issued e c \<Longrightarrow> blocks (after e ops) c \<longleftrightarrow> blocks e c \<and> True \<notin> set ops"
proof (induction ops arbitrary: e)
  case (Cons op ops)
  then show ?case
    by (cases op) (simp_all add: issued_sig issued_rst sig_releases rst_keeps)
qed simp

text \<open>No lost signal: after a reset, a wait with the returned ticket blocks exactly when no
  signal was sent in between, however many other threads reset the event.\<close>

lemma ticket_blocks_iff: "rst e = (e', c) \<Longrightarrow> blocks (after e' ops) c \<longleftrightarrow> True \<notin> set ops"
  using blocks_after_iff rst_blocks rst_issues by blast

end

definition issued_ticket :: "os_event \<Rightarrow> nat \<Rightarrow> bool" where
  "issued_ticket e c \<longleftrightarrow> c \<le> signal_count e \<and> (c = signal_count e \<longrightarrow> \<not> is_set e)"

lemmas event_defs = os_event_reset_def os_event_set_def os_event_blocks_def issued_ticket_def

lemma reset_ticket:
  assumes "os_event_reset e = (e', c)"
  shows "issued_ticket e' c" and "os_event_blocks e' c"
proof -
  from assms have "\<not> is_set e'" "c = signal_count e'"
    by (auto simp: os_event_reset_def split: if_splits)
  then show "issued_ticket e' c" "os_event_blocks e' c" by (simp_all add: event_defs)
qed

lemma issued_ticket_kept:
  assumes "issued_ticket e c"
  shows "issued_ticket (os_event_set e) c" and "issued_ticket (fst (os_event_reset e)) c"
    and "\<not> os_event_blocks (os_event_set e) c"
    and "os_event_blocks (fst (os_event_reset e)) c \<longleftrightarrow> os_event_blocks e c"
proof -
  obtain s n where e: "e = \<lparr>is_set = s, signal_count = n\<rparr>" by (cases e)
  from assms have "c \<le> n" "c = n \<Longrightarrow> \<not> s" by (auto simp: e issued_ticket_def)
  then show "issued_ticket (os_event_set e) c" "issued_ticket (fst (os_event_reset e)) c"
    "\<not> os_event_blocks (os_event_set e) c"
    "os_event_blocks (fst (os_event_reset e)) c \<longleftrightarrow> os_event_blocks e c"
    by (cases s; auto simp: e event_defs)+
qed

interpretation ev: event_semaphore os_event_set os_event_reset os_event_blocks issued_ticket
  by unfold_locales (simp_all add: reset_ticket issued_ticket_kept)

section \<open>The word implements the record\<close>

definition event_of :: "ulint \<Rightarrow> os_event" where
  "event_of e = \<lparr>is_set = ev_is_set e, signal_count = unat (ev_signal_count e)\<rparr>"

lemma set_mask_bit: "bit set_mask i \<longleftrightarrow> i = 63"
proof -
  have "set_mask = 2 ^ 63" by (simp add: set_mask_def)
  show ?thesis unfolding \<open>set_mask = 2 ^ 63\<close> bit_exp_iff by auto
qed

lemma count_mask_eq: "count_mask = mask 63"
  by (simp add: count_mask_def mask_eq_exp_minus_1)

lemma ev_is_set_bit: "ev_is_set e \<longleftrightarrow> bit e 63"
proof -
  have "bit (e AND set_mask) i \<longleftrightarrow> i = 63 \<and> bit e 63" for i
    by (auto simp: bit_and_iff set_mask_bit)
  then show ?thesis
    unfolding ev_is_set_def by (metis bit_0_eq bot_apply bot_bool_def bit_eq_iff)
qed

lemma ev_signal_count_take: "ev_signal_count e = take_bit 63 e"
  by (simp add: ev_signal_count_def count_mask_eq take_bit_eq_mask)

lemma bit_63: "bit (e :: ulint) 63 \<longleftrightarrow> 2 ^ 63 \<le> unat e"
proof -
  have "unat e < 2 ^ 64" using unsigned_less [of e, where 'a = nat] by simp
  then have "unat e div 2 ^ 63 < 2" by (simp add: less_mult_imp_div_less)
  then have "odd (unat e div 2 ^ 63) \<longleftrightarrow> 2 ^ 63 \<le> unat e"
    by (auto simp: less_2_cases_iff div_eq_0_iff)
  moreover have "bit e 63 \<longleftrightarrow> bit (unat e) 63" by (simp add: bit_unsigned_iff)
  ultimately show ?thesis by (simp only: bit_iff_odd [of "unat e"])
qed

lemma unat_set_inc:
  assumes "unat e < 2 ^ 63 - 1"
  shows "unat (ev_inc_signal_count (ev_set e)) = unat e + 1 + 2 ^ 63"
proof -
  have "e OR set_mask = e + 0x8000000000000000"
    using or_high_bits [of e 63 1] assms by (simp add: set_mask_def)
  then show ?thesis
    using assms by (simp add: ev_inc_signal_count_def ev_set_def unat_word_ariths)
qed

lemma os_event_set_refines:
  assumes "unat (ev_signal_count e) < 2 ^ 63 - 1"
  shows "event_of (os_event_set_word e) = os_event_set (event_of e)"
proof (cases "bit e 63")
  case False
  then have "unat e < 2 ^ 63 - 1" using assms bit_63 [of e]
    by (simp add: ev_signal_count_take take_bit_small)
  then have u: "unat (ev_inc_signal_count (ev_set e)) = unat e + 1 + 2 ^ 63" and s: "unat e < 2 ^ 63"
    by (simp_all add: unat_set_inc)
  from s have "unat (take_bit 63 e) = unat e" by (simp add: unat_take_bit)
  moreover have "unat (take_bit 63 (ev_inc_signal_count (ev_set e))) = unat e + 1"
    unfolding unat_take_bit u mod_add_self2 using \<open>unat e < 2 ^ 63 - 1\<close> by simp
  moreover have "bit (ev_inc_signal_count (ev_set e)) 63" using u by (simp add: bit_63)
  ultimately show ?thesis
    using False by (simp add: os_event_set_word_def os_event_set_def event_of_def ev_is_set_bit
        ev_signal_count_take)
qed (simp add: os_event_set_word_def os_event_set_def event_of_def ev_is_set_bit)

lemma os_event_reset_refines:
  "event_of (fst (os_event_reset_word e)) = fst (os_event_reset (event_of e)) \<and>
   unat (snd (os_event_reset_word e)) = snd (os_event_reset (event_of e))"
  by (simp add: os_event_reset_word_def os_event_reset_def event_of_def ev_is_set_bit ev_reset_def
      ev_signal_count_take count_mask_eq bit_simps Let_def flip: take_bit_eq_mask)

lemma os_event_blocks_refines:
  "os_event_blocks_word e c \<longleftrightarrow> os_event_blocks (event_of e) (unat c)"
  by (simp add: os_event_blocks_word_def os_event_blocks_def event_of_def word_unat_eq_iff)

fun after_word :: "ulint \<Rightarrow> bool list \<Rightarrow> ulint" where
  "after_word e [] = e"
| "after_word e (op # ops) = after_word (if op then os_event_set_word e else fst (os_event_reset_word e)) ops"


lemma after_word_refines:
  "unat (ev_signal_count e) + length ops < 2 ^ 63 - 1 \<Longrightarrow>
     event_of (after_word e ops) = ev.after (event_of e) ops"
proof (induction ops arbitrary: e)
  case (Cons op ops)
  let ?e = "if op then os_event_set_word e else fst (os_event_reset_word e)"
  have eq: "event_of ?e = (if op then os_event_set (event_of e) else fst (os_event_reset (event_of e)))"
    using os_event_set_refines [of e] os_event_reset_refines [of e] Cons.prems by simp
  have "signal_count (event_of ?e) \<le> signal_count (event_of e) + 1"
    unfolding eq by (simp add: os_event_set_def os_event_reset_def)
  then have "unat (ev_signal_count ?e) + length ops < 2 ^ 63 - 1"
    using Cons.prems by (simp add: event_of_def)
  from Cons.IH [OF this] show ?case by (simp add: eq)
qed simp

text \<open>C34: An event never loses a signal. On the event word of the implementation, a thread that
  waits with the count it obtained from \<open>os_event_reset\<close> is suspended exactly if no
  \<open>os_event_set\<close> came in between, even if other threads have reset the event after the signal,
  as long as fewer than \<open>2 ^ 63 - 1\<close> signals are sent.\<close>

theorem event_signal_not_lost:
  assumes "os_event_reset_word e = (e', c)"
    and "unat (ev_signal_count e') + length ops < 2 ^ 63 - 1"
  shows "os_event_blocks_word (after_word e' ops) c \<longleftrightarrow> True \<notin> set ops"
proof -
  have "os_event_reset (event_of e) = (event_of e', unat c)"
    using os_event_reset_refines [of e] assms(1) by (simp add: prod_eq_iff)
  then show ?thesis
    using ev.ticket_blocks_iff after_word_refines [OF assms(2)]
    by (simp add: os_event_blocks_refines)
qed

theorem event_signal_not_lost_witness:
  "\<not> os_event_blocks_word (after_word 1 [False, True, False]) 1 \<and>
   os_event_blocks_word (after_word 1 [False, False]) 1"
  using event_signal_not_lost [of 1 1 1 "[False, True, False]"]
    event_signal_not_lost [of 1 1 1 "[False, False]"]
  by (simp add: os_event_reset_word_def ev_is_set_def ev_signal_count_def set_mask_def count_mask_def
      Let_def)

end
