(* ===== verification/SyncMutex.thy ===== *)
theory SyncMutex
  imports OsEvent
begin

text \<open>
  The spinning mutex of XtraDB and its priority variant (\<open>sync/sync0sync.cc\<close>,
  \<open>include/sync0sync.ic\<close>) as a machine of several threads: one step per access to a shared
  word, per event operation and per test-and-set. A regular mutex is the machine with
  \<open>prio = False\<close>, whose threads never ask for high priority. The reservation of a cell in the
  wait array is the reset of the event whose ticket the cell keeps. Memory is sequentially
  consistent, as the barriers of the source ask for.
\<close>

section \<open>State\<close>

record ib_mutex =
  lock_word :: nat
  waiters :: nat
  event :: os_event
  thread_id :: "nat option"
  high_priority_waiters :: nat
  high_priority_event :: os_event
  count_os_wait :: nat

text \<open>
  Where a thread is. The flag is \<open>high_priority\<close>, a number after it the ticket kept in the
  reserved cell, the last number of \<open>SpinRead\<close>, \<open>SpinTas\<close> and \<open>RetryTas\<close> the counter \<open>i\<close>. The
  flag of \<open>SetThreadId\<close> says whether \<open>prio_mutex\<close> is set, that is whether the thread still has
  to leave the count of high-priority waiters.
\<close>

datatype mpc = Outside
  | EnterTas bool | NowaitTas
  | SpinRead bool nat | SpinTas bool nat | ReserveCell bool | SetWaiters bool nat
  | RetryTas bool nat nat | CountWait bool nat | WaitEvent bool nat | EndWait bool
  | SetThreadId bool | DecWaiters
  | Owns
  | ClearThreadId | ClearLock | CheckWaiters | ClearWaiters | SetEvent | SetHighEvent

type_synonym mconf = "ib_mutex \<times> mpc list"

section \<open>Operations\<close>

definition mutex_create_func :: ib_mutex where
  "mutex_create_func =
     \<lparr>lock_word = 0, waiters = 0, event = os_event_create, thread_id = None,
      high_priority_waiters = 0, high_priority_event = os_event_create, count_os_wait = 0\<rparr>"

definition ib_mutex_test_and_set :: "ib_mutex \<Rightarrow> nat \<times> ib_mutex" where
  "ib_mutex_test_and_set m = (lock_word m, m\<lparr>lock_word := 1\<rparr>)"

definition mutex_reset_lock_word :: "ib_mutex \<Rightarrow> ib_mutex" where
  "mutex_reset_lock_word m = m\<lparr>lock_word := 0\<rparr>"

definition mutex_get_lock_word :: "ib_mutex \<Rightarrow> nat" where
  "mutex_get_lock_word m = lock_word m"

definition mutex_get_waiters :: "ib_mutex \<Rightarrow> nat" where
  "mutex_get_waiters m = waiters m"

definition mutex_set_waiters :: "ib_mutex \<Rightarrow> nat \<Rightarrow> ib_mutex" where
  "mutex_set_waiters m n = m\<lparr>waiters := n\<rparr>"

text \<open>One test-and-set of a function that continues at \<open>yes\<close> with the mutex and at \<open>no\<close> without.\<close>

definition tas_step :: "mpc \<Rightarrow> mpc \<Rightarrow> ib_mutex \<Rightarrow> (mpc \<times> ib_mutex) option" where
  "tas_step yes no m =
     (case ib_mutex_test_and_set m of (old, m') \<Rightarrow> Some (if old = 0 then yes else no, m'))"

fun mutex_enter_func :: "mpc \<Rightarrow> ib_mutex \<Rightarrow> (mpc \<times> ib_mutex) option" where
  "mutex_enter_func (EnterTas hp) m = tas_step (SetThreadId False) (SpinRead hp 0) m"
| "mutex_enter_func _ m = None"

fun mutex_enter_nowait_func :: "mpc \<Rightarrow> ib_mutex \<Rightarrow> (mpc \<times> ib_mutex) option" where
  "mutex_enter_nowait_func NowaitTas m = tas_step (SetThreadId False) Outside m"
| "mutex_enter_nowait_func _ m = None"

text \<open>\<open>rounds\<close> is \<open>SYNC_SPIN_ROUNDS\<close>.\<close>

fun mutex_spin_wait :: "nat \<Rightarrow> nat \<Rightarrow> mpc \<Rightarrow> ib_mutex \<Rightarrow> (mpc \<times> ib_mutex) option" where
  "mutex_spin_wait rounds t (SpinRead hp i) m =
     Some (if mutex_get_lock_word m \<noteq> 0 \<and> i < rounds then SpinRead hp (i + 1) else SpinTas hp i, m)"
| "mutex_spin_wait rounds t (SpinTas hp i) m =
     tas_step (SetThreadId False) (if i + 1 < rounds then SpinRead hp (i + 1) else ReserveCell hp) m"
| "mutex_spin_wait rounds t (ReserveCell hp) m =
     (if hp then case os_event_reset (high_priority_event m) of (e, c) \<Rightarrow>
          Some (SetWaiters hp c, m\<lparr>high_priority_event := e\<rparr>)
      else case os_event_reset (event m) of (e, c) \<Rightarrow> Some (SetWaiters hp c, m\<lparr>event := e\<rparr>))"
| "mutex_spin_wait rounds t (SetWaiters hp c) m =
     Some (RetryTas hp c 0,
       if hp then m\<lparr>high_priority_waiters := high_priority_waiters m + 1\<rparr> else mutex_set_waiters m 1)"
| "mutex_spin_wait rounds t (RetryTas hp c i) m =
     tas_step (SetThreadId hp) (if i + 1 < 4 then RetryTas hp c (i + 1) else CountWait hp c) m"
| "mutex_spin_wait rounds t (CountWait hp c) m =
     Some (WaitEvent hp c, m\<lparr>count_os_wait := count_os_wait m + 1\<rparr>)"
| "mutex_spin_wait rounds t (WaitEvent hp c) m =
     (if os_event_blocks (if hp then high_priority_event m else event m) c then None
      else Some (EndWait hp, m))"
| "mutex_spin_wait rounds t (EndWait hp) m =
     Some (SpinRead hp 0,
       if hp then m\<lparr>high_priority_waiters := high_priority_waiters m - 1\<rparr> else m)"
| "mutex_spin_wait rounds t (SetThreadId dec) m =
     Some (if dec then DecWaiters else Owns, m\<lparr>thread_id := Some t\<rparr>)"
| "mutex_spin_wait rounds t DecWaiters m =
     Some (Owns, m\<lparr>high_priority_waiters := high_priority_waiters m - 1\<rparr>)"
| "mutex_spin_wait rounds t _ m = None"

fun mutex_signal_object :: "mpc \<Rightarrow> ib_mutex \<Rightarrow> (mpc \<times> ib_mutex) option" where
  "mutex_signal_object ClearWaiters m = Some (SetEvent, mutex_set_waiters m 0)"
| "mutex_signal_object SetEvent m = Some (Outside, m\<lparr>event := os_event_set (event m)\<rparr>)"
| "mutex_signal_object _ m = None"

text \<open>The two variants of \<open>mutex_exit_func\<close> differ in what they look at after the release.\<close>

fun mutex_exit_func :: "mpc \<Rightarrow> ib_mutex \<Rightarrow> (mpc \<times> ib_mutex) option" where
  "mutex_exit_func ClearThreadId m = Some (ClearLock, m\<lparr>thread_id := None\<rparr>)"
| "mutex_exit_func ClearLock m = Some (CheckWaiters, mutex_reset_lock_word m)"
| "mutex_exit_func CheckWaiters m =
     Some (if mutex_get_waiters m \<noteq> 0 then ClearWaiters else Outside, m)"
| "mutex_exit_func _ m = None"

fun prio_mutex_exit_func :: "mpc \<Rightarrow> ib_mutex \<Rightarrow> (mpc \<times> ib_mutex) option" where
  "prio_mutex_exit_func ClearThreadId m = Some (ClearLock, m\<lparr>thread_id := None\<rparr>)"
| "prio_mutex_exit_func ClearLock m = Some (CheckWaiters, mutex_reset_lock_word m)"
| "prio_mutex_exit_func CheckWaiters m =
     Some (if high_priority_waiters m \<noteq> 0 then SetHighEvent
           else if mutex_get_waiters m \<noteq> 0 then ClearWaiters else Outside, m)"
| "prio_mutex_exit_func SetHighEvent m =
     Some (Outside, m\<lparr>high_priority_event := os_event_set (high_priority_event m)\<rparr>)"
| "prio_mutex_exit_func _ m = None"

section \<open>Threads\<close>

text \<open>What the environment lets a thread do: call a function or run on.\<close>

datatype mact = CallEnter bool | CallNowait | CallExit | Run

text \<open>The step of a running thread is the step of the function it is in; the read of the
  waiters has no common case in the functions, so at most one of them is defined.\<close>

definition mutex_run_step :: "nat \<Rightarrow> bool \<Rightarrow> nat \<Rightarrow> mpc \<Rightarrow> ib_mutex \<Rightarrow> (mpc \<times> ib_mutex) option" where
  "mutex_run_step rounds prio t pc m =
     (case pc of
        EnterTas _ \<Rightarrow> mutex_enter_func pc m
      | NowaitTas \<Rightarrow> mutex_enter_nowait_func pc m
      | ClearWaiters \<Rightarrow> mutex_signal_object pc m
      | SetEvent \<Rightarrow> mutex_signal_object pc m
      | ClearThreadId \<Rightarrow> (if prio then prio_mutex_exit_func pc m else mutex_exit_func pc m)
      | ClearLock \<Rightarrow> (if prio then prio_mutex_exit_func pc m else mutex_exit_func pc m)
      | CheckWaiters \<Rightarrow> (if prio then prio_mutex_exit_func pc m else mutex_exit_func pc m)
      | SetHighEvent \<Rightarrow> (if prio then prio_mutex_exit_func pc m else mutex_exit_func pc m)
      | _ \<Rightarrow> mutex_spin_wait rounds t pc m)"

fun mutex_thread_step :: "nat \<Rightarrow> bool \<Rightarrow> mact \<Rightarrow> nat \<Rightarrow> mpc \<Rightarrow> ib_mutex \<Rightarrow> (mpc \<times> ib_mutex) option" where
  "mutex_thread_step rounds prio (CallEnter hp) t pc m =
     (if pc = Outside \<and> (hp \<longrightarrow> prio) then Some (EnterTas hp, m) else None)"
| "mutex_thread_step rounds prio CallNowait t pc m = (if pc = Outside then Some (NowaitTas, m) else None)"
| "mutex_thread_step rounds prio CallExit t pc m = (if pc = Owns then Some (ClearThreadId, m) else None)"
| "mutex_thread_step rounds prio Run t pc m = mutex_run_step rounds prio t pc m"

definition mutex_step :: "nat \<Rightarrow> bool \<Rightarrow> mact \<Rightarrow> nat \<Rightarrow> mconf \<Rightarrow> mconf option" where
  "mutex_step rounds prio a t s =
     (case s of (m, ps) \<Rightarrow>
        if t < length ps then
          map_option (\<lambda>(pc', m'). (m', ps[t := pc'])) (mutex_thread_step rounds prio a t (ps ! t) m)
        else None)"

definition mutex_init :: "nat \<Rightarrow> mconf" where
  "mutex_init n = (mutex_create_func, replicate n Outside)"

inductive mutex_reach :: "nat \<Rightarrow> bool \<Rightarrow> nat \<Rightarrow> mconf \<Rightarrow> bool" for rounds prio n where
  init: "mutex_reach rounds prio n (mutex_init n)"
| step: "mutex_reach rounds prio n s \<Longrightarrow> mutex_step rounds prio a t s = Some s' \<Longrightarrow>
     mutex_reach rounds prio n s'"

fun mutex_run :: "nat \<Rightarrow> bool \<Rightarrow> (mact \<times> nat) list \<Rightarrow> mconf \<Rightarrow> mconf option" where
  "mutex_run rounds prio [] s = Some s"
| "mutex_run rounds prio ((a, t) # as) s =
     Option.bind (mutex_step rounds prio a t s) (mutex_run rounds prio as)"

text \<open>A thread is asleep when it is in \<open>os_event_wait_low\<close> and its event has not been signalled
  since it reserved its cell; it holds the mutex from the successful test-and-set to the
  reset of the lock word.\<close>

definition asleep :: "ib_mutex \<Rightarrow> mpc \<Rightarrow> bool" where
  "asleep m pc \<longleftrightarrow> (case pc of WaitEvent hp c \<Rightarrow>
     os_event_blocks (if hp then high_priority_event m else event m) c | _ \<Rightarrow> False)"

fun holds_mutex :: "mpc \<Rightarrow> bool" where
  "holds_mutex (SetThreadId _) = True"
| "holds_mutex DecWaiters = True"
| "holds_mutex Owns = True"
| "holds_mutex ClearThreadId = True"
| "holds_mutex ClearLock = True"
| "holds_mutex _ = False"

end
