(* ===== verification/SyncMutexProps.thy ===== *)
theory SyncMutexProps
  imports SyncMutex
begin

text \<open>
  Properties of the spinning mutex: mutual exclusion, and the two lemmas that the comment at
  the head of \<open>sync0sync.cc\<close> states without a formal argument, namely that a thread which
  goes to sleep in the wait array is never left behind.
\<close>

section \<open>Invariant\<close>

fun hp_counted :: "mpc \<Rightarrow> bool" where
  "hp_counted (RetryTas hp _ _) = hp"
| "hp_counted (CountWait hp _) = hp"
| "hp_counted (WaitEvent hp _) = hp"
| "hp_counted (EndWait hp) = hp"
| "hp_counted (SetThreadId dec) = dec"
| "hp_counted DecWaiters = True"
| "hp_counted _ = False"

fun is_high :: "mpc \<Rightarrow> bool" where
  "is_high (EnterTas hp) = hp"
| "is_high (SpinRead hp _) = hp"
| "is_high (SpinTas hp _) = hp"
| "is_high (ReserveCell hp) = hp"
| "is_high (SetWaiters hp _) = hp"
| "is_high SetHighEvent = True"
| "is_high pc = hp_counted pc"

fun ticket_ok :: "ib_mutex \<Rightarrow> mpc \<Rightarrow> bool" where
  "ticket_ok m (SetWaiters hp c) = issued_ticket (if hp then high_priority_event m else event m) c"
| "ticket_ok m (RetryTas hp c _) = issued_ticket (if hp then high_priority_event m else event m) c"
| "ticket_ok m (CountWait hp c) = issued_ticket (if hp then high_priority_event m else event m) c"
| "ticket_ok m (WaitEvent hp c) = issued_ticket (if hp then high_priority_event m else event m) c"
| "ticket_ok m _ = True"

text \<open>A regular waiter that has announced itself and whose event has not been signalled since.\<close>

fun announced :: "ib_mutex \<Rightarrow> mpc \<Rightarrow> bool" where
  "announced m (RetryTas hp c _) = (\<not> hp \<and> os_event_blocks (event m) c)"
| "announced m (CountWait hp c) = (\<not> hp \<and> os_event_blocks (event m) c)"
| "announced m (WaitEvent hp c) = (\<not> hp \<and> os_event_blocks (event m) c)"
| "announced m _ = False"

text \<open>A waiter is counted as asleep from its last failed test-and-set on.\<close>

fun low_asleep :: "ib_mutex \<Rightarrow> mpc \<Rightarrow> bool" where
  "low_asleep m (CountWait hp c) = (\<not> hp \<and> os_event_blocks (event m) c)"
| "low_asleep m (WaitEvent hp c) = (\<not> hp \<and> os_event_blocks (event m) c)"
| "low_asleep m _ = False"

fun high_asleep :: "ib_mutex \<Rightarrow> mpc \<Rightarrow> bool" where
  "high_asleep m (CountWait hp c) = (hp \<and> os_event_blocks (high_priority_event m) c)"
| "high_asleep m (WaitEvent hp c) = (hp \<and> os_event_blocks (high_priority_event m) c)"
| "high_asleep m _ = False"

fun owner_known :: "mpc \<Rightarrow> bool" where
  "owner_known DecWaiters = True"
| "owner_known Owns = True"
| "owner_known ClearThreadId = True"
| "owner_known _ = False"

definition counts_inv :: "mconf \<Rightarrow> bool" where
  "counts_inv s \<longleftrightarrow> (case s of (m, ps) \<Rightarrow>
     lock_word m = n_of holds_mutex ps \<and> lock_word m \<le> 1 \<and>
     high_priority_waiters m = n_of hp_counted ps)"

definition threads_inv :: "bool \<Rightarrow> mconf \<Rightarrow> bool" where
  "threads_inv prio s \<longleftrightarrow> (case s of (m, ps) \<Rightarrow>
     (\<forall>pc\<in>set ps. ticket_ok m pc) \<and> (\<forall>pc\<in>set ps. is_high pc \<longrightarrow> prio))"

definition owner_inv :: "mconf \<Rightarrow> bool" where
  "owner_inv s \<longleftrightarrow> (case s of (m, ps) \<Rightarrow>
     \<forall>t<length ps. owner_known (ps ! t) \<longrightarrow> thread_id m = Some t)"

definition announced_inv :: "mconf \<Rightarrow> bool" where
  "announced_inv s \<longleftrightarrow> (case s of (m, ps) \<Rightarrow>
     (\<exists>pc\<in>set ps. announced m pc) \<longrightarrow> waiters m \<noteq> 0 \<or> SetEvent \<in> set ps)"

definition low_inv :: "mconf \<Rightarrow> bool" where
  "low_inv s \<longleftrightarrow> (case s of (m, ps) \<Rightarrow>
     (\<exists>pc\<in>set ps. low_asleep m pc) \<longrightarrow>
     (\<exists>v\<in>set ps. v \<noteq> Outside \<and> v \<noteq> SetHighEvent \<and> \<not> low_asleep m v))"

definition high_inv :: "mconf \<Rightarrow> bool" where
  "high_inv s \<longleftrightarrow> (case s of (m, ps) \<Rightarrow>
     (\<exists>pc\<in>set ps. high_asleep m pc) \<longrightarrow>
     (\<exists>v\<in>set ps. holds_mutex v \<or> v = CheckWaiters \<or> v = SetHighEvent))"

section \<open>One thread's step and the list of threads\<close>

lemma mutex_run_step_simps [simp]:
  "mutex_run_step rounds prio t Outside m = None"
  "mutex_run_step rounds prio t (EnterTas hp) m = mutex_enter_func (EnterTas hp) m"
  "mutex_run_step rounds prio t NowaitTas m = mutex_enter_nowait_func NowaitTas m"
  "mutex_run_step rounds prio t (SpinRead hp i) m = mutex_spin_wait rounds t (SpinRead hp i) m"
  "mutex_run_step rounds prio t (SpinTas hp i) m = mutex_spin_wait rounds t (SpinTas hp i) m"
  "mutex_run_step rounds prio t (ReserveCell hp) m = mutex_spin_wait rounds t (ReserveCell hp) m"
  "mutex_run_step rounds prio t (SetWaiters hp c) m = mutex_spin_wait rounds t (SetWaiters hp c) m"
  "mutex_run_step rounds prio t (RetryTas hp c i) m = mutex_spin_wait rounds t (RetryTas hp c i) m"
  "mutex_run_step rounds prio t (CountWait hp c) m = mutex_spin_wait rounds t (CountWait hp c) m"
  "mutex_run_step rounds prio t (WaitEvent hp c) m = mutex_spin_wait rounds t (WaitEvent hp c) m"
  "mutex_run_step rounds prio t (EndWait hp) m = mutex_spin_wait rounds t (EndWait hp) m"
  "mutex_run_step rounds prio t (SetThreadId b) m = mutex_spin_wait rounds t (SetThreadId b) m"
  "mutex_run_step rounds prio t DecWaiters m = mutex_spin_wait rounds t DecWaiters m"
  "mutex_run_step rounds prio t Owns m = None"
  "mutex_run_step rounds prio t ClearThreadId m = Some (ClearLock, m\<lparr>thread_id := None\<rparr>)"
  "mutex_run_step rounds prio t ClearLock m = Some (CheckWaiters, mutex_reset_lock_word m)"
  "mutex_run_step rounds prio t CheckWaiters m =
     Some (if prio \<and> high_priority_waiters m \<noteq> 0 then SetHighEvent
           else if waiters m \<noteq> 0 then ClearWaiters else Outside, m)"
  "mutex_run_step rounds prio t ClearWaiters m = Some (SetEvent, mutex_set_waiters m 0)"
  "mutex_run_step rounds prio t SetEvent m = Some (Outside, m\<lparr>event := os_event_set (event m)\<rparr>)"
  "mutex_run_step rounds prio t SetHighEvent m =
     (if prio then Some (Outside, m\<lparr>high_priority_event := os_event_set (high_priority_event m)\<rparr>)
      else None)"
  by (simp_all add: mutex_run_step_def mutex_get_waiters_def)

lemmas run_defs = tas_step_def ib_mutex_test_and_set_def mutex_get_lock_word_def
  mutex_get_waiters_def mutex_set_waiters_def mutex_reset_lock_word_def

lemma step_counts:
  assumes "counts_inv (m, ps)" and "t < length ps"
    and "mutex_thread_step rounds prio a t (ps ! t) m = Some (pc', m')"
  shows "counts_inv (m', ps[t := pc'])"
proof -
  have h: "n_of holds_mutex (ps[t := pc']) + of_bool (holds_mutex (ps ! t))
      = n_of holds_mutex ps + of_bool (holds_mutex pc')"
    and c: "n_of hp_counted (ps[t := pc']) + of_bool (hp_counted (ps ! t))
      = n_of hp_counted ps + of_bool (hp_counted pc')"
    using assms(2) by (rule n_of_update)+
  show ?thesis
    using assms(1,3) h c
    by (cases a; cases "ps ! t")
      (auto simp: counts_inv_def run_defs split: if_splits prod.splits)
qed


text \<open>The only steps that change an event are a reset and a signal; for a ticket that has been
  issued, only a signal matters.\<close>

lemma event_effect:
  assumes "mutex_thread_step rounds prio a t pc m = Some (pc', m')"
  shows "event m' = (if a = Run \<and> pc = ReserveCell False then fst (os_event_reset (event m))
      else if a = Run \<and> pc = SetEvent then os_event_set (event m) else event m)"
    and "high_priority_event m' =
      (if a = Run \<and> pc = ReserveCell True then fst (os_event_reset (high_priority_event m))
       else if a = Run \<and> pc = SetHighEvent then os_event_set (high_priority_event m)
       else high_priority_event m)"
  using assms by (cases a; cases pc; auto simp: run_defs split: if_splits prod.splits)+

lemma ticket_effect:
  assumes "mutex_thread_step rounds prio a t pc m = Some (pc', m')"
  shows "issued_ticket (event m) c \<Longrightarrow> issued_ticket (event m') c"
    and "issued_ticket (high_priority_event m) c \<Longrightarrow> issued_ticket (high_priority_event m') c"
    and "issued_ticket (event m) c \<Longrightarrow>
      os_event_blocks (event m') c \<longleftrightarrow> os_event_blocks (event m) c \<and> \<not> (a = Run \<and> pc = SetEvent)"
    and "issued_ticket (high_priority_event m) c \<Longrightarrow>
      os_event_blocks (high_priority_event m') c \<longleftrightarrow>
      os_event_blocks (high_priority_event m) c \<and> \<not> (a = Run \<and> pc = SetHighEvent)"
  by (auto simp: event_effect [OF assms] issued_ticket_kept)

lemma pred_effect:
  assumes "mutex_thread_step rounds prio a t pc m = Some (pc', m')" and "ticket_ok m q"
  shows "ticket_ok m' q"
    and "announced m' q \<longleftrightarrow> announced m q \<and> \<not> (a = Run \<and> pc = SetEvent)"
    and "low_asleep m' q \<longleftrightarrow> low_asleep m q \<and> \<not> (a = Run \<and> pc = SetEvent)"
    and "high_asleep m' q \<longleftrightarrow> high_asleep m q \<and> \<not> (a = Run \<and> pc = SetHighEvent)"
  using assms(2) by (cases q; auto simp: ticket_effect [OF assms(1)] split: if_splits)+

lemma step_threads:
  assumes "threads_inv prio (m, ps)" and "t < length ps"
    and "mutex_thread_step rounds prio a t (ps ! t) m = Some (pc', m')"
  shows "threads_inv prio (m', ps[t := pc'])"
proof -
  have own: "ticket_ok m (ps ! t)" "is_high (ps ! t) \<longrightarrow> prio"
    using assms(1,2) by (auto simp: threads_inv_def)
  have "ticket_ok m' (ps ! t)" by (rule pred_effect [OF assms(3) own(1)])
  then have new: "ticket_ok m' pc'" "is_high pc' \<longrightarrow> prio"
    using assms(3) own(2)
    by (cases a; cases "ps ! t"; auto simp: run_defs split: if_splits prod.splits
        dest: reset_ticket)+
  have "\<forall>pc\<in>set ps. ticket_ok m' pc"
    using assms(1) pred_effect(1) [OF assms(3)] by (auto simp: threads_inv_def)
  then have "\<forall>pc\<in>set (ps[t := pc']). ticket_ok m' pc \<and> (is_high pc \<longrightarrow> prio)"
    using new assms(1,2) by (intro ball_update) (auto simp: threads_inv_def)
  then show ?thesis by (auto simp: threads_inv_def)
qed


lemma holder_exists: "counts_inv (m, ps) \<Longrightarrow> lock_word m \<noteq> 0 \<Longrightarrow> \<exists>v\<in>set ps. holds_mutex v"
  using n_of_pos [of holds_mutex ps] by (simp add: counts_inv_def)

lemma high_waiter_exists:
  "counts_inv (m, ps) \<Longrightarrow> high_priority_waiters m \<noteq> 0 \<longleftrightarrow> (\<exists>v\<in>set ps. hp_counted v)"
  using n_of_pos [of hp_counted ps] by (simp add: counts_inv_def)

lemma owner_known_holds: "owner_known pc \<Longrightarrow> holds_mutex pc"
  by (cases pc) auto

lemma step_owner:
  assumes "counts_inv (m, ps)" and "owner_inv (m, ps)" and "t < length ps"
    and "mutex_thread_step rounds prio a t (ps ! t) m = Some (pc', m')"
  shows "owner_inv (m', ps[t := pc'])"
proof -
  have "owner_known (ps ! t) \<Longrightarrow> thread_id m = Some t"
    using assms(2,3) by (auto simp: owner_inv_def)
  then have own: "owner_known pc' \<Longrightarrow> thread_id m' = Some t"
    using assms(4) by (cases a; cases "ps ! t") (auto simp: run_defs split: if_splits prod.splits)
  have other: "thread_id m' = thread_id m" if "\<not> holds_mutex (ps ! t)"
    using assms(4) that by (cases a; cases "ps ! t") (auto simp: run_defs split: if_splits prod.splits)
  have "thread_id m' = Some u" if "u < length ps" "u \<noteq> t" "owner_known (ps ! u)" for u
  proof -
    have "\<not> holds_mutex (ps ! t)"
      using n_of_unique [of holds_mutex ps u t] that assms(1,3) owner_known_holds
      by (auto simp: counts_inv_def)
    with other that assms(2) show ?thesis by (auto simp: owner_inv_def)
  qed
  with own assms(3) show ?thesis by (auto simp: owner_inv_def nth_list_update split: if_splits)
qed

lemma step_announced:
  assumes "threads_inv prio (m, ps)" and "announced_inv (m, ps)" and "t < length ps"
    and "mutex_thread_step rounds prio a t (ps ! t) m = Some (pc', m')"
  shows "announced_inv (m', ps[t := pc'])"
proof -
  have ok: "ticket_ok m q" if "q \<in> set ps" for q using assms(1) that by (auto simp: threads_inv_def)
  have pt: "ps ! t \<in> set ps" using assms(3) by simp
  note eff = pred_effect(2) [OF assms(4) ok]
  have own: "announced m' pc' \<Longrightarrow> waiters m' \<noteq> 0 \<or> announced m (ps ! t) \<and> waiters m' = waiters m"
    using assms(4) by (cases a; cases "ps ! t") (auto simp: run_defs split: if_splits prod.splits)
  have w: "waiters m' \<noteq> 0 \<or> pc' = SetEvent" if "waiters m \<noteq> 0"
    using assms(4) that by (cases a; cases "ps ! t") (auto simp: run_defs split: if_splits prod.splits)
  have "waiters m' \<noteq> 0 \<or> SetEvent \<in> set (ps[t := pc'])" if q: "q \<in> set ps" "announced m' q" for q
  proof -
    from eff [OF q(1)] q(2) have "announced m q" and ns: "\<not> (a = Run \<and> ps ! t = SetEvent)" by auto
    with assms(2) q(1) consider "waiters m \<noteq> 0" | "SetEvent \<in> set ps" by (auto simp: announced_inv_def)
    then show ?thesis
    proof cases
      case 1
      then show ?thesis using w own_in_update [OF assms(3), of pc'] by auto
    next
      case 2
      have "ps ! t \<noteq> SetEvent" using ns assms(4) by (cases a) auto
      with 2 show ?thesis using in_set_update [OF assms(3), of SetEvent pc'] by auto
    qed
  qed
  moreover have "waiters m' \<noteq> 0 \<or> SetEvent \<in> set (ps[t := pc'])" if "announced m' pc'"
  proof -
    have "ps ! t \<noteq> SetEvent" using that assms(4) by (cases a) (auto simp: run_defs)
    with own [OF that] that assms(2) pt show ?thesis
      using in_set_update [OF assms(3), of SetEvent pc'] by (auto simp: announced_inv_def)
  qed
  ultimately show ?thesis
    using set_update_subset_insert [of ps t pc'] by (auto simp: announced_inv_def)
qed


lemma low_asleep_announced: "low_asleep m pc \<Longrightarrow> announced m pc"
  by (cases pc) auto

text \<open>The threads a sleeping regular waiter relies on: they are inside a mutex function or own the
  mutex, and either run or wait with high priority.\<close>

definition low_support :: "ib_mutex \<Rightarrow> mpc \<Rightarrow> bool" where
  "low_support m v \<longleftrightarrow> v \<noteq> Outside \<and> v \<noteq> SetHighEvent \<and> \<not> low_asleep m v"

lemma holds_support: "holds_mutex v \<Longrightarrow> low_support m v"
  by (cases v) (auto simp: low_support_def)

lemma hp_counted_support: "hp_counted v \<Longrightarrow> low_support m v"
  by (cases v) (auto simp: low_support_def)

text \<open>When a supporter makes a step and stops being one, another one is there.\<close>

lemma low_handover:
  assumes "counts_inv (m, ps)" and "announced_inv (m, ps)"
    and "mutex_thread_step rounds prio a t pc m = Some (pc', m')" and "low_support m pc"
    and "q \<in> set ps" "low_asleep m q" and "\<not> (a = Run \<and> pc = SetEvent)"
  shows "low_support m' pc' \<or> (\<exists>v\<in>set ps. v \<noteq> pc \<and> low_support m v)"
proof -
  define other where "other \<longleftrightarrow> (\<exists>v\<in>set ps. v \<noteq> pc \<and> low_support m v)"
  have h: "other" if "lock_word m \<noteq> 0" "\<not> holds_mutex pc"
    unfolding other_def using holder_exists [OF assms(1) that(1)] that(2) holds_support by metis
  have c: "other" if "high_priority_waiters m \<noteq> 0" "\<not> hp_counted pc"
    unfolding other_def using high_waiter_exists [OF assms(1)] that hp_counted_support by metis
  have "waiters m \<noteq> 0 \<or> SetEvent \<in> set ps"
    using assms(2,5,6) low_asleep_announced by (auto simp: announced_inv_def)
  then have s: "other" if "waiters m = 0" "pc \<noteq> SetEvent"
    unfolding other_def using that by (auto simp: low_support_def)
  have "pc \<noteq> Outside" "pc \<noteq> SetHighEvent" "\<not> low_asleep m pc"
    using assms(4) by (simp_all add: low_support_def)
  then show ?thesis
    unfolding other_def [symmetric] using assms(3,7) h c s
    by (cases a; cases pc) (auto simp: run_defs low_support_def [of m'] split: if_splits prod.splits)
qed

lemma step_low:
  assumes "counts_inv (m, ps)" "threads_inv prio (m, ps)" "announced_inv (m, ps)" "low_inv (m, ps)"
    and "t < length ps" and step: "mutex_thread_step rounds prio a t (ps ! t) m = Some (pc', m')"
  shows "low_inv (m', ps[t := pc'])"
proof -
  have ok: "ticket_ok m q" if "q \<in> set ps" for q using assms(2) that by (auto simp: threads_inv_def)
  have pt: "ps ! t \<in> set ps" using assms(5) by simp
  have keep: "\<exists>w\<in>set (ps[t := pc']). low_support m' w"
    if "v \<in> set ps" "v \<noteq> ps ! t" "low_support m v" for v
    using in_set_update [OF assms(5) that(1,2)] that(3) pred_effect(3) [OF step ok [OF that(1)]]
    by (auto simp: low_support_def)
  have old: "\<exists>w\<in>set (ps[t := pc']). low_support m' w"
    if q: "q \<in> set ps" "low_asleep m q" "\<not> (a = Run \<and> ps ! t = SetEvent)" for q
  proof -
    from assms(4) q obtain v where v: "v \<in> set ps" "low_support m v"
      by (auto simp: low_inv_def low_support_def)
    show ?thesis
    proof (cases "v = ps ! t")
      case True
      with low_handover [OF assms(1,3) step _ q] v(2) keep own_in_update [OF assms(5), of pc']
      show ?thesis by blast
    qed (use keep v in blast)
  qed
  have new: "\<exists>w\<in>set (ps[t := pc']). low_support m' w" if "low_asleep m' pc'"
  proof (cases "low_asleep m (ps ! t)")
    case True
    then have "ps ! t \<noteq> SetEvent" by auto
    with old [OF pt True] show ?thesis by blast
  next
    case False
    with that step have "lock_word m \<noteq> 0" "\<not> holds_mutex (ps ! t)"
      by (cases a; cases "ps ! t"; auto simp: run_defs split: if_splits prod.splits)+
    with holder_exists [OF assms(1)] holds_support keep show ?thesis by metis
  qed
  have "\<exists>w\<in>set (ps[t := pc']). low_support m' w" if "q \<in> set ps" "low_asleep m' q" for q
    using old [OF that(1)] that(2) pred_effect(3) [OF step ok [OF that(1)]] by blast
  with new show ?thesis
    using set_update_subset_insert [of ps t pc'] by (auto simp: low_inv_def low_support_def)
qed

lemma step_high:
  assumes "counts_inv (m, ps)" "threads_inv prio (m, ps)" "high_inv (m, ps)"
    and "t < length ps" and step: "mutex_thread_step rounds prio a t (ps ! t) m = Some (pc', m')"
  shows "high_inv (m', ps[t := pc'])"
proof -
  let ?sup = "\<lambda>v. holds_mutex v \<or> v = CheckWaiters \<or> v = SetHighEvent"
  have ok: "ticket_ok m q" "is_high q \<Longrightarrow> prio" if "q \<in> set ps" for q
    using assms(2) that by (auto simp: threads_inv_def)
  have pt: "ps ! t \<in> set ps" using assms(4) by simp
  have keep: "\<exists>w\<in>set (ps[t := pc']). ?sup w" if "v \<in> set ps" "v \<noteq> ps ! t" "?sup v" for v
    using in_set_update [OF assms(4) that(1,2)] that(3) by blast
  have old: "\<exists>w\<in>set (ps[t := pc']). ?sup w"
    if q: "q \<in> set ps" "high_asleep m q" "\<not> (a = Run \<and> ps ! t = SetHighEvent)" for q
  proof -
    from assms(3) q obtain v where v: "v \<in> set ps" "?sup v" by (auto simp: high_inv_def)
    have "hp_counted q" "is_high q" using q(2) by (cases q; simp)+
    then have "high_priority_waiters m \<noteq> 0" prio
      using high_waiter_exists [OF assms(1)] ok(2) q(1) by blast+
    then have "?sup (ps ! t) \<Longrightarrow> ?sup pc'"
      using step q(3) by (cases a; cases "ps ! t") (auto simp: run_defs split: if_splits)
    with v keep own_in_update [OF assms(4), of pc'] show ?thesis by metis
  qed
  have new: "\<exists>w\<in>set (ps[t := pc']). ?sup w" if "high_asleep m' pc'"
  proof (cases "high_asleep m (ps ! t)")
    case True
    then have "ps ! t \<noteq> SetHighEvent" by auto
    with old [OF pt True] show ?thesis by blast
  next
    case False
    with that step have "lock_word m \<noteq> 0" "\<not> holds_mutex (ps ! t)"
      by (cases a; cases "ps ! t"; auto simp: run_defs split: if_splits prod.splits)+
    with holder_exists [OF assms(1)] keep show ?thesis by metis
  qed
  have "\<exists>w\<in>set (ps[t := pc']). ?sup w" if "q \<in> set ps" "high_asleep m' q" for q
    using old [OF that(1)] that(2) pred_effect(4) [OF step ok(1) [OF that(1)]] by blast
  with new show ?thesis
    using set_update_subset_insert [of ps t pc'] by (auto simp: high_inv_def)
qed


section \<open>Reachable states\<close>

definition ib_mutex_inv :: "bool \<Rightarrow> mconf \<Rightarrow> bool" where
  "ib_mutex_inv prio s \<longleftrightarrow> counts_inv s \<and> threads_inv prio s \<and> owner_inv s \<and> announced_inv s \<and>
     low_inv s \<and> high_inv s"

lemma ib_mutex_inv_init: "ib_mutex_inv prio (mutex_init n)"
  by (auto simp: ib_mutex_inv_def mutex_init_def mutex_create_func_def counts_inv_def threads_inv_def
      owner_inv_def announced_inv_def low_inv_def high_inv_def n_of_replicate)

lemma ib_mutex_inv_step:
  assumes "ib_mutex_inv prio s" and "mutex_step rounds prio a t s = Some s'"
  shows "ib_mutex_inv prio s'"
proof -
  obtain m ps where s: "s = (m, ps)" by (cases s)
  from assms(2) obtain pc' m' where t: "t < length ps"
    and st: "mutex_thread_step rounds prio a t (ps ! t) m = Some (pc', m')" and s': "s' = (m', ps[t := pc'])"
    by (auto simp: s mutex_step_def split: if_splits)
  from assms(1) show ?thesis
    by (simp add: ib_mutex_inv_def s s' step_counts [OF _ t st] step_threads [OF _ t st]
        step_owner [OF _ _ t st] step_announced [OF _ _ t st] step_low [OF _ _ _ _ t st]
        step_high [OF _ _ _ t st])
qed

lemma mutex_reach_inv: "mutex_reach rounds prio n s \<Longrightarrow> ib_mutex_inv prio s"
  by (induction rule: mutex_reach.induct) (auto intro: ib_mutex_inv_init ib_mutex_inv_step)

lemma mutex_reach_length: "mutex_reach rounds prio n s \<Longrightarrow> length (snd s) = n"
  by (induction rule: mutex_reach.induct)
    (auto simp: mutex_init_def mutex_step_def split: if_splits prod.splits)

text \<open>Every thread that is neither outside, nor asleep, nor using the mutex can run on.\<close>

lemma mutex_run_step_enabled:
  assumes "pc \<noteq> Outside" "pc \<noteq> Owns" "\<not> asleep m pc" and "is_high pc \<longrightarrow> prio"
  shows "\<exists>r. mutex_run_step rounds prio t pc m = Some r"
  using assms by (cases pc) (auto simp: run_defs asleep_def split: prod.splits)

lemma asleep_iff:
  "asleep m pc \<Longrightarrow> low_asleep m pc \<or> high_asleep m pc"
  by (cases pc) (auto simp: asleep_def split: if_splits)

lemma low_support_awake: "low_support m v \<Longrightarrow> asleep m v \<Longrightarrow> high_asleep m v"
  using asleep_iff by (auto simp: low_support_def)

lemma sleeper_supported:
  assumes "ib_mutex_inv prio (m, ps)" and "pc \<in> set ps" and "asleep m pc"
  shows "\<exists>v\<in>set ps. v \<noteq> Outside \<and> \<not> asleep m v"
proof -
  have high: ?thesis if "q \<in> set ps" "high_asleep m q" for q
  proof -
    from assms(1) that obtain v where "v \<in> set ps" "holds_mutex v \<or> v = CheckWaiters \<or> v = SetHighEvent"
      by (auto simp: ib_mutex_inv_def high_inv_def)
    then show ?thesis
      by (intro bexI [of _ v]) (cases v rule: mpc.exhaust; simp add: asleep_def)+
  qed
  show ?thesis
  proof (cases "low_asleep m pc")
    case True
    with assms(1,2) obtain v where v: "v \<in> set ps" "low_support m v"
      by (auto simp: ib_mutex_inv_def low_inv_def low_support_def)
    then show ?thesis
      using high low_support_awake by (auto simp: low_support_def)
  qed (use assms asleep_iff high in blast)
qed


lemma mutex_run_reach:
  "mutex_reach rounds prio n s \<Longrightarrow> mutex_run rounds prio as s = Some s' \<Longrightarrow> mutex_reach rounds prio n s'"
proof (induction as arbitrary: s)
  case (Cons p as)
  obtain a t where p: "p = (a, t)" by (cases p)
  from Cons.prems(2) obtain s1 where "mutex_step rounds prio a t s = Some s1"
    and "mutex_run rounds prio as s1 = Some s'"
    by (auto simp: p bind_eq_Some_conv)
  with Cons show ?case by (blast intro: mutex_reach.step)
qed simp

section \<open>Properties\<close>

text \<open>C35: Mutual exclusion of the regular and of the priority mutex, for any number of threads and
  any interleaving: at most one thread is between its successful test-and-set and its reset
  of the lock word. While one is, the lock word is 1, and the owner recorded in the mutex is the
  thread that returned from the enter function.\<close>

theorem mutex_exclusion:
  assumes "mutex_reach rounds prio n (m, ps)" and "i < length ps" and "holds_mutex (ps ! i)"
  shows "(\<forall>j<length ps. holds_mutex (ps ! j) \<longrightarrow> j = i) \<and> lock_word m = 1 \<and>
    (ps ! i = Owns \<longrightarrow> thread_id m = Some i)"
proof -
  from mutex_reach_inv [OF assms(1)] have c: "counts_inv (m, ps)" and o: "owner_inv (m, ps)"
    by (simp_all add: ib_mutex_inv_def)
  from c have le: "n_of holds_mutex ps \<le> 1" by (simp add: counts_inv_def)
  have "0 < n_of holds_mutex ps" using assms(2,3) by (auto simp: n_of_pos)
  with c have "lock_word m = 1" by (simp add: counts_inv_def)
  moreover have "\<forall>j<length ps. holds_mutex (ps ! j) \<longrightarrow> j = i"
    using n_of_unique [OF le] assms(2,3) by blast
  moreover have "ps ! i = Owns \<longrightarrow> thread_id m = Some i"
    using o assms(2) by (auto simp: owner_inv_def)
  ultimately show ?thesis by blast
qed

text \<open>A run in which thread 0 owns the mutex and thread 1, with no spin rounds, goes to sleep.\<close>

definition sleep_run :: "bool \<Rightarrow> (mact \<times> nat) list" where
  "sleep_run hp = [(CallEnter False, 0), (Run, 0), (Run, 0), (CallEnter hp, 1)] @ replicate 10 (Run, 1)"

lemmas mutex_eval = mutex_step_def run_defs mutex_init_def mutex_create_func_def sleep_run_def
  os_event_reset_def os_event_create_def os_event_blocks_def replicate_numeral

lemma sleep_run_end:
  "\<exists>m. mutex_run 0 True (sleep_run True) (mutex_init 2) = Some (m, [Owns, WaitEvent True 1]) \<and>
     asleep m (WaitEvent True 1)"
  by (simp add: mutex_eval asleep_def)

theorem mutex_exclusion_witness:
  "\<exists>m. mutex_reach 0 True 2 (m, [Owns, WaitEvent True 1]) \<and> lock_word m = 1 \<and> thread_id m = Some 0"
proof -
  obtain m where "mutex_reach 0 True 2 (m, [Owns, WaitEvent True 1])"
    using sleep_run_end mutex_run_reach [OF mutex_reach.init] by blast
  with mutex_exclusion [of 0 True 2 m "[Owns, WaitEvent True 1]" 0] show ?thesis by auto
qed



end
