(* ===== verification/RwLock.thy ===== *)
theory RwLock
  imports OsEvent
begin

text \<open>
  The read-write latch of XtraDB and its priority variant (\<open>sync/sync0rw.cc\<close>,
  \<open>include/sync0rw.ic\<close>) as a machine of several threads. Each step is one access to a shared
  word of the latch, one atomic instruction, or one event operation; the three counters that
  \<open>rw_lock_higher_prio_waiters_exist\<close> looks at are read in one step. A regular latch is the machine
  with \<open>prio = False\<close>, whose threads never ask for high priority. As for the mutex, reserving
  a wait cell is the reset of the event whose ticket the cell keeps. Statistics and the
  fields that only record file names and lines are left out.
\<close>

section \<open>State\<close>

definition X_LOCK_DECR :: int where
  "X_LOCK_DECR = 0x00100000"

record rw_lock =
  lock_word :: int
  waiters :: nat
  recursive :: bool
  writer_thread :: "nat option"
  event :: os_event
  wait_ex_event :: os_event
  high_priority_s_waiters :: nat
  high_priority_s_event :: os_event
  high_priority_x_waiters :: nat
  high_priority_x_event :: os_event
  high_priority_wait_ex_waiter :: nat

text \<open>The call sites of \<open>rw_lock_s_lock_low\<close> and \<open>rw_lock_x_lock_low\<close>: the fast path, the attempt
  after spinning with the counter \<open>i\<close>, and the attempt after announcing the wait, with the
  ticket of the reserved cell.\<close>

datatype s_site = SFast | SSpun nat | SAnnounced nat
datatype x_site = XTry nat | XAnnounced nat

text \<open>
  Where a thread is. \<open>hp\<close> is \<open>high_priority\<close>, \<open>pass\<close> says that the pass value is not zero,
  \<open>d\<close> is the number of exclusive locks the thread already holds, \<open>lr\<close> is \<open>local_recursive\<close>.
\<close>

datatype s_low_pc = SDecr bool s_site | SCas bool s_site int
datatype s_spin_pc = SLoop bool nat | SSpinRead bool nat | STryAgain bool nat | SReserve bool
  | SAnnounce bool nat | SRetry bool nat | SSleep bool nat | SWoken bool | SDecHigh
datatype x_func_pc = XLoop bool bool nat nat | XElse bool bool nat nat
  | XSpinRead bool bool nat nat | XReserve bool bool nat | XAnnounce bool bool nat nat
  | XSleep bool bool nat nat | XWoken bool bool nat | XDecHigh bool nat
datatype x_low_pc = XReadRec bool bool x_site nat | XDecr bool bool x_site bool nat
  | XCas bool bool x_site bool int nat | XAssertRec bool bool x_site
  | XReadWriter bool bool x_site | XCasWriter bool bool x_site "nat option"
  | XSetRec bool bool x_site | XRelockCheck bool bool x_site bool nat
  | XRelockTest bool bool x_site nat | XRelockLoad bool bool x_site int nat
  | XRelockStore bool bool x_site int int nat
datatype x_wait_pc = WMark bool bool x_site | WLoop bool bool x_site nat
  | WReserve bool bool x_site | WRecheck bool bool x_site nat | WSleep bool bool x_site nat
  | WUnmark bool bool x_site
datatype x_nowait_pc = NReadRec bool nat | NCas bool bool nat | NReadWriter
  | NCasWriter "nat option" | NSetRec | NRelockCheck bool bool nat | NRelockTest bool nat
  | NRelockLoad bool int nat | NRelockStore bool int int nat
datatype s_unlock_pc = SUnlock | SSetWaitEx | SCheckWaiters | SResetWaiters | SSetEvent
datatype x_prepare_pc = XUTest bool nat | XUClearRec bool nat | XUAmount bool nat
datatype x_unlock_pc = XUIncr bool int nat | XUCheckX | XUCheckS | XUCheckWaiters | XUSetHighX
  | XUSetHighS | XUResetWaiters | XUSetEvent

text \<open>A place is in one of the functions, or outside them: idle, or holding the latch.\<close>

datatype rpc = RIdle | RHoldS | RHoldX bool nat | RFault | SEnter bool
  | SLow s_low_pc | SSpin s_spin_pc | XFunc x_func_pc | XLow x_low_pc | XWait x_wait_pc
  | XNowait x_nowait_pc | SUn s_unlock_pc | XPrep x_prepare_pc | XUn x_unlock_pc

type_synonym rconf = "rw_lock \<times> rpc list"

section \<open>Inline functions\<close>

definition rw_lock_create_func :: rw_lock where
  "rw_lock_create_func =
     \<lparr>lock_word = X_LOCK_DECR, waiters = 0, recursive = False, writer_thread = None,
      event = os_event_create, wait_ex_event = os_event_create,
      high_priority_s_waiters = 0, high_priority_s_event = os_event_create,
      high_priority_x_waiters = 0, high_priority_x_event = os_event_create,
      high_priority_wait_ex_waiter = 0\<rparr>"

definition rw_lock_set_waiter_flag :: "rw_lock \<Rightarrow> rw_lock" where
  "rw_lock_set_waiter_flag l = (if waiters l = 0 then l\<lparr>waiters := 1\<rparr> else l)"

definition rw_lock_reset_waiter_flag :: "rw_lock \<Rightarrow> rw_lock" where
  "rw_lock_reset_waiter_flag l = (if waiters l = 1 then l\<lparr>waiters := 0\<rparr> else l)"

text \<open>The kinds of locks and lock requests, which the source numbers in one range.\<close>

datatype lock_type = RW_LOCK_NOT_LOCKED | RW_LOCK_EX | RW_LOCK_SHARED | RW_LOCK_WAIT_EX
  | SYNC_MUTEX | SYNC_PRIO_MUTEX | PRIO_RW_LOCK_SHARED | PRIO_RW_LOCK_EX

definition rw_lock_get_writer :: "rw_lock \<Rightarrow> lock_type" where
  "rw_lock_get_writer l =
     (if lock_word l > 0 then RW_LOCK_NOT_LOCKED
      else if lock_word l = 0 \<or> lock_word l \<le> - X_LOCK_DECR then RW_LOCK_EX
      else RW_LOCK_WAIT_EX)"

definition rw_lock_get_reader_count :: "rw_lock \<Rightarrow> int" where
  "rw_lock_get_reader_count l =
     (if lock_word l > 0 then X_LOCK_DECR - lock_word l
      else if lock_word l < 0 \<and> lock_word l > - X_LOCK_DECR then - lock_word l
      else 0)"

definition rw_lock_get_x_lock_count :: "rw_lock \<Rightarrow> int" where
  "rw_lock_get_x_lock_count l =
     (if lock_word l \<noteq> 0 \<and> lock_word l > - X_LOCK_DECR then 0
      else if lock_word l = 0 then 1 else 2 - (lock_word l + X_LOCK_DECR))"

definition rw_lock_validate :: "rw_lock \<Rightarrow> bool" where
  "rw_lock_validate l \<longleftrightarrow>
     (waiters l = 0 \<or> waiters l = 1) \<and> lock_word l > - (2 * X_LOCK_DECR) \<and> lock_word l \<le> X_LOCK_DECR"

text \<open>\<open>rw_lock_lock_word_decr\<close>: read the word, and as long as it is positive try to replace it.\<close>

definition rw_lock_lock_word_decr_read ::
  "(int \<Rightarrow> rpc) \<Rightarrow> rpc \<Rightarrow> rw_lock \<Rightarrow> (rpc \<times> rw_lock) option" where
  "rw_lock_lock_word_decr_read cas fail l =
     Some (if lock_word l > 0 then cas (lock_word l) else fail, l)"

definition rw_lock_lock_word_decr_cas ::
  "int \<Rightarrow> int \<Rightarrow> rpc \<Rightarrow> rpc \<Rightarrow> rw_lock \<Rightarrow> (rpc \<times> rw_lock) option" where
  "rw_lock_lock_word_decr_cas amount local_lock_word yes again l =
     (if lock_word l = local_lock_word then Some (yes, l\<lparr>lock_word := local_lock_word - amount\<rparr>)
      else Some (again, l))"

definition rw_lock_lock_word_incr :: "rw_lock \<Rightarrow> int \<Rightarrow> int \<times> rw_lock" where
  "rw_lock_lock_word_incr l amount =
     (lock_word l + amount, l\<lparr>lock_word := lock_word l + amount\<rparr>)"

definition rw_lock_higher_prio_waiters_exist :: "bool \<Rightarrow> bool \<Rightarrow> rw_lock \<Rightarrow> bool" where
  "rw_lock_higher_prio_waiters_exist prio hp l \<longleftrightarrow>
     (if hp \<or> \<not> prio then False
      else high_priority_wait_ex_waiter l > 0 \<or> high_priority_s_waiters l > 0
         \<or> high_priority_x_waiters l > 0)"

section \<open>Shared locks\<close>

text \<open>Where \<open>rw_lock_s_lock_low\<close> continues after it has succeeded and after it has failed.\<close>

fun s_yes :: "bool \<Rightarrow> s_site \<Rightarrow> rpc" where
  "s_yes hp (SAnnounced c) = (if hp then SSpin SDecHigh else RHoldS)"
| "s_yes hp _ = RHoldS"

definition s_spin_fail :: "nat \<Rightarrow> bool \<Rightarrow> nat \<Rightarrow> rpc" where
  "s_spin_fail rounds hp i = (if i > 0 \<and> i < rounds then SSpin (SLoop hp i)
     else SSpin (SReserve hp))"

fun s_no :: "nat \<Rightarrow> bool \<Rightarrow> s_site \<Rightarrow> rpc" where
  "s_no rounds hp SFast = SSpin (SLoop hp 0)"
| "s_no rounds hp (SSpun i) = s_spin_fail rounds hp i"
| "s_no rounds hp (SAnnounced c) = SSpin (SSleep hp c)"

definition rw_lock_s_lock_func :: "bool \<Rightarrow> bool \<Rightarrow> rw_lock \<Rightarrow> (rpc \<times> rw_lock) option" where
  "rw_lock_s_lock_func prio hp l =
     Some (if rw_lock_higher_prio_waiters_exist prio hp l then SSpin (SLoop hp 0)
           else SLow (SDecr hp SFast), l)"

fun rw_lock_s_lock_low :: "nat \<Rightarrow> s_low_pc \<Rightarrow> rw_lock \<Rightarrow> (rpc \<times> rw_lock) option" where
  "rw_lock_s_lock_low rounds (SDecr hp site) l =
     rw_lock_lock_word_decr_read (\<lambda>v. SLow (SCas hp site v)) (s_no rounds hp site) l"
| "rw_lock_s_lock_low rounds (SCas hp site v) l =
     rw_lock_lock_word_decr_cas 1 v (s_yes hp site) (SLow (SDecr hp site)) l"

fun rw_lock_s_lock_spin :: "nat \<Rightarrow> bool \<Rightarrow> s_spin_pc \<Rightarrow> rw_lock \<Rightarrow> (rpc \<times> rw_lock) option" where
  "rw_lock_s_lock_spin rounds prio (SLoop hp i) l =
     Some (if rw_lock_higher_prio_waiters_exist prio hp l then SSpin (STryAgain hp i)
           else SSpin (SSpinRead hp i), l)"
| "rw_lock_s_lock_spin rounds prio (SSpinRead hp i) l =
     Some (if i < rounds \<and> lock_word l \<le> 0 then SSpin (SSpinRead hp (i + 1))
           else SSpin (STryAgain hp i), l)"
| "rw_lock_s_lock_spin rounds prio (STryAgain hp i) l =
     Some (if rw_lock_higher_prio_waiters_exist prio hp l then s_spin_fail rounds hp i
           else SLow (SDecr hp (SSpun i)), l)"
| "rw_lock_s_lock_spin rounds prio (SReserve hp) l =
     (if hp then case os_event_reset (high_priority_s_event l) of (e, c) \<Rightarrow>
          Some (SSpin (SAnnounce hp c), l\<lparr>high_priority_s_event := e\<rparr>)
      else case os_event_reset (event l) of (e, c) \<Rightarrow> Some (SSpin (SAnnounce hp c), l\<lparr>event := e\<rparr>))"
| "rw_lock_s_lock_spin rounds prio (SAnnounce hp c) l =
     Some (SSpin (SRetry hp c),
       if hp then l\<lparr>high_priority_s_waiters := high_priority_s_waiters l + 1\<rparr>
       else rw_lock_set_waiter_flag l)"
| "rw_lock_s_lock_spin rounds prio (SRetry hp c) l =
     Some (if rw_lock_higher_prio_waiters_exist prio hp l then SSpin (SSleep hp c)
           else SLow (SDecr hp (SAnnounced c)), l)"
| "rw_lock_s_lock_spin rounds prio (SSleep hp c) l =
     (if os_event_blocks (if hp then high_priority_s_event l else event l) c then None
      else Some (SSpin (SWoken hp), l))"
| "rw_lock_s_lock_spin rounds prio (SWoken hp) l =
     Some (SSpin (SLoop hp 0),
       if hp then l\<lparr>high_priority_s_waiters := high_priority_s_waiters l - 1\<rparr> else l)"
| "rw_lock_s_lock_spin rounds prio SDecHigh l =
     Some (RHoldS, l\<lparr>high_priority_s_waiters := high_priority_s_waiters l - 1\<rparr>)"

fun rw_lock_s_unlock_func :: "bool \<Rightarrow> s_unlock_pc \<Rightarrow> rw_lock \<Rightarrow> (rpc \<times> rw_lock) option" where
  "rw_lock_s_unlock_func prio SUnlock l =
     (case rw_lock_lock_word_incr l 1 of (w, l) \<Rightarrow>
        Some (if w = 0 then SUn SSetWaitEx
              else if prio \<and> w = X_LOCK_DECR then SUn SCheckWaiters else RIdle, l))"
| "rw_lock_s_unlock_func prio SSetWaitEx l =
     Some (RIdle, l\<lparr>wait_ex_event := os_event_set (wait_ex_event l)\<rparr>)"
| "rw_lock_s_unlock_func prio SCheckWaiters l =
     Some (if waiters l \<noteq> 0 then SUn SResetWaiters else RIdle, l)"
| "rw_lock_s_unlock_func prio SResetWaiters l = Some (SUn SSetEvent, rw_lock_reset_waiter_flag l)"
| "rw_lock_s_unlock_func prio SSetEvent l = Some (RIdle, l\<lparr>event := os_event_set (event l)\<rparr>)"

section \<open>Exclusive locks\<close>

fun x_yes :: "bool \<Rightarrow> bool \<Rightarrow> x_site \<Rightarrow> nat \<Rightarrow> rpc" where
  "x_yes hp pass (XTry i) d = RHoldX pass d"
| "x_yes hp pass (XAnnounced c) d = (if hp then XFunc (XDecHigh pass d) else RHoldX pass d)"

fun x_no :: "bool \<Rightarrow> bool \<Rightarrow> x_site \<Rightarrow> nat \<Rightarrow> rpc" where
  "x_no hp pass (XTry i) d = XFunc (XElse hp pass i d)"
| "x_no hp pass (XAnnounced c) d = XFunc (XSleep hp pass c d)"

fun rw_lock_x_lock_wait :: "nat \<Rightarrow> x_wait_pc \<Rightarrow> rw_lock \<Rightarrow> (rpc \<times> rw_lock) option" where
  "rw_lock_x_lock_wait rounds (WMark hp pass site) l =
     Some (XWait (WLoop hp pass site 0), if hp then l\<lparr>high_priority_wait_ex_waiter := 1\<rparr> else l)"
| "rw_lock_x_lock_wait rounds (WLoop hp pass site i) l =
     Some (if lock_word l < 0 then
             (if i < rounds then XWait (WLoop hp pass site (i + 1))
              else XWait (WReserve hp pass site))
           else XWait (WUnmark hp pass site), l)"
| "rw_lock_x_lock_wait rounds (WReserve hp pass site) l =
     (case os_event_reset (wait_ex_event l) of (e, c) \<Rightarrow>
        Some (XWait (WRecheck hp pass site c), l\<lparr>wait_ex_event := e\<rparr>))"
| "rw_lock_x_lock_wait rounds (WRecheck hp pass site c) l =
     Some (if lock_word l < 0 then XWait (WSleep hp pass site c)
           else XWait (WLoop hp pass site 0), l)"
| "rw_lock_x_lock_wait rounds (WSleep hp pass site c) l =
     (if os_event_blocks (wait_ex_event l) c then None else Some (XWait (WLoop hp pass site 0), l))"
| "rw_lock_x_lock_wait rounds (WUnmark hp pass site) l =
     Some (x_yes hp pass site 1, if hp then l\<lparr>high_priority_wait_ex_waiter := 0\<rparr> else l)"

text \<open>\<open>XReadWriter\<close>, \<open>XCasWriter\<close> and \<open>XSetRec\<close> are \<open>rw_lock_set_writer_id_and_recursion_flag\<close>; \<open>t\<close> is
  the calling thread. A failed assertion leads to \<open>RFault\<close>.\<close>

fun rw_lock_x_lock_low :: "nat \<Rightarrow> x_low_pc \<Rightarrow> rw_lock \<Rightarrow> (rpc \<times> rw_lock) option" where
  "rw_lock_x_lock_low t (XReadRec hp pass site d) l =
     Some (XLow (XDecr hp pass site (recursive l) d), l)"
| "rw_lock_x_lock_low t (XDecr hp pass site lr d) l =
     rw_lock_lock_word_decr_read (\<lambda>v. XLow (XCas hp pass site lr v d))
       (XLow (XRelockCheck hp pass site lr d)) l"
| "rw_lock_x_lock_low t (XCas hp pass site lr v d) l =
     rw_lock_lock_word_decr_cas X_LOCK_DECR v
       (XLow (XAssertRec hp pass site)) (XLow (XDecr hp pass site lr d)) l"
| "rw_lock_x_lock_low t (XAssertRec hp pass site) l =
     Some (if recursive l then RFault else XLow (XReadWriter hp pass site), l)"
| "rw_lock_x_lock_low t (XReadWriter hp pass site) l =
     Some (XLow (XCasWriter hp pass site (writer_thread l)), l)"
| "rw_lock_x_lock_low t (XCasWriter hp pass site w) l =
     (if writer_thread l = w then Some (XLow (XSetRec hp pass site), l\<lparr>writer_thread := Some t\<rparr>)
      else Some (RFault, l))"
| "rw_lock_x_lock_low t (XSetRec hp pass site) l =
     Some (XWait (WMark hp pass site), l\<lparr>recursive := (\<not> pass)\<rparr>)"
| "rw_lock_x_lock_low t (XRelockCheck hp pass site lr d) l =
     Some (if \<not> pass \<and> lr \<and> writer_thread l = Some t then XLow (XRelockTest hp pass site d)
           else x_no hp pass site d, l)"
| "rw_lock_x_lock_low t (XRelockTest hp pass site d) l =
     Some (XLow (XRelockLoad hp pass site (if lock_word l = 0 then X_LOCK_DECR else 1) d), l)"
| "rw_lock_x_lock_low t (XRelockLoad hp pass site k d) l =
     Some (XLow (XRelockStore hp pass site k (lock_word l) d), l)"
| "rw_lock_x_lock_low t (XRelockStore hp pass site k v d) l =
     Some (x_yes hp pass site (d + 1), l\<lparr>lock_word := v - k\<rparr>)"

fun rw_lock_x_lock_func :: "nat \<Rightarrow> bool \<Rightarrow> x_func_pc \<Rightarrow> rw_lock \<Rightarrow> (rpc \<times> rw_lock) option" where
  "rw_lock_x_lock_func rounds prio (XLoop hp pass i d) l =
     Some (if rw_lock_higher_prio_waiters_exist prio hp l then XFunc (XElse hp pass i d)
           else XLow (XReadRec hp pass (XTry i) d), l)"
| "rw_lock_x_lock_func rounds prio (XElse hp pass i d) l =
     Some (if rw_lock_higher_prio_waiters_exist prio hp l then XFunc (XReserve hp pass d)
           else XFunc (XSpinRead hp pass i d), l)"
| "rw_lock_x_lock_func rounds prio (XSpinRead hp pass i d) l =
     Some (if i < rounds \<and> lock_word l \<le> 0 then XFunc (XSpinRead hp pass (i + 1) d)
           else if i \<ge> rounds then XFunc (XReserve hp pass d) else XFunc (XLoop hp pass i d), l)"
| "rw_lock_x_lock_func rounds prio (XReserve hp pass d) l =
     (if hp then case os_event_reset (high_priority_x_event l) of (e, c) \<Rightarrow>
          Some (XFunc (XAnnounce hp pass c d), l\<lparr>high_priority_x_event := e\<rparr>)
      else case os_event_reset (event l) of (e, c) \<Rightarrow>
          Some (XFunc (XAnnounce hp pass c d), l\<lparr>event := e\<rparr>))"
| "rw_lock_x_lock_func rounds prio (XAnnounce hp pass c d) l =
     Some (XLow (XReadRec hp pass (XAnnounced c) d),
       if hp then l\<lparr>high_priority_x_waiters := high_priority_x_waiters l + 1\<rparr>
       else rw_lock_set_waiter_flag l)"
| "rw_lock_x_lock_func rounds prio (XSleep hp pass c d) l =
     (if os_event_blocks (if hp then high_priority_x_event l else event l) c then None
      else Some (XFunc (XWoken hp pass d), l))"
| "rw_lock_x_lock_func rounds prio (XWoken hp pass d) l =
     Some (XFunc (XLoop hp pass 0 d),
       if hp then l\<lparr>high_priority_x_waiters := high_priority_x_waiters l - 1\<rparr> else l)"
| "rw_lock_x_lock_func rounds prio (XDecHigh pass d) l =
     Some (RHoldX pass d, l\<lparr>high_priority_x_waiters := high_priority_x_waiters l - 1\<rparr>)"

text \<open>\<open>pass\<close> is the value the thread's first exclusive lock was taken with, if \<open>d > 0\<close>.\<close>

fun rw_lock_x_lock_func_nowait :: "nat \<Rightarrow> x_nowait_pc \<Rightarrow> rw_lock \<Rightarrow> (rpc \<times> rw_lock) option" where
  "rw_lock_x_lock_func_nowait t (NReadRec pass d) l = Some (XNowait (NCas pass (recursive l) d), l)"
| "rw_lock_x_lock_func_nowait t (NCas pass lr d) l =
     (if lock_word l = X_LOCK_DECR then Some (XNowait NReadWriter, l\<lparr>lock_word := 0\<rparr>)
      else Some (XNowait (NRelockCheck pass lr d), l))"
| "rw_lock_x_lock_func_nowait t NReadWriter l = Some (XNowait (NCasWriter (writer_thread l)), l)"
| "rw_lock_x_lock_func_nowait t (NCasWriter w) l =
     (if writer_thread l = w then Some (XNowait NSetRec, l\<lparr>writer_thread := Some t\<rparr>)
      else Some (RFault, l))"
| "rw_lock_x_lock_func_nowait t NSetRec l = Some (RHoldX False 1, l\<lparr>recursive := True\<rparr>)"
| "rw_lock_x_lock_func_nowait t (NRelockCheck pass lr d) l =
     Some (if lr \<and> writer_thread l = Some t then XNowait (NRelockTest pass d)
           else if d = 0 then RIdle else RHoldX pass d, l)"
| "rw_lock_x_lock_func_nowait t (NRelockTest pass d) l =
     Some (if lock_word l = 0 then XNowait (NRelockStore pass X_LOCK_DECR 0 d)
           else XNowait (NRelockLoad pass 1 d), l)"
| "rw_lock_x_lock_func_nowait t (NRelockLoad pass k d) l =
     Some (XNowait (NRelockStore pass k (lock_word l) d), l)"
| "rw_lock_x_lock_func_nowait t (NRelockStore pass k v d) l =
     Some (RHoldX pass (d + 1), l\<lparr>lock_word := v - k\<rparr>)"

fun rw_lock_x_prepare_unlock :: "x_prepare_pc \<Rightarrow> rw_lock \<Rightarrow> (rpc \<times> rw_lock) option" where
  "rw_lock_x_prepare_unlock (XUTest pass d) l =
     Some (if lock_word l = 0 then XPrep (XUClearRec pass d) else XPrep (XUAmount pass d), l)"
| "rw_lock_x_prepare_unlock (XUClearRec pass d) l =
     Some (XPrep (XUAmount pass d), l\<lparr>recursive := False\<rparr>)"
| "rw_lock_x_prepare_unlock (XUAmount pass d) l =
     Some (XUn (XUIncr pass (if lock_word l = 0 then X_LOCK_DECR
                        else if lock_word l = - X_LOCK_DECR then X_LOCK_DECR else 1) d), l)"

fun rw_lock_x_unlock_func :: "bool \<Rightarrow> x_unlock_pc \<Rightarrow> rw_lock \<Rightarrow> (rpc \<times> rw_lock) option" where
  "rw_lock_x_unlock_func prio (XUIncr pass k d) l =
     (case rw_lock_lock_word_incr l k of (w, l) \<Rightarrow>
        Some (if w = X_LOCK_DECR then (if prio then XUn XUCheckX else XUn XUCheckWaiters)
              else if d = 1 then RIdle else RHoldX pass (d - 1), l))"
| "rw_lock_x_unlock_func prio XUCheckX l =
     Some (if high_priority_x_waiters l \<noteq> 0 then XUn XUSetHighX else XUn XUCheckS, l)"
| "rw_lock_x_unlock_func prio XUCheckS l =
     Some (if high_priority_s_waiters l \<noteq> 0 then XUn XUSetHighS else XUn XUCheckWaiters, l)"
| "rw_lock_x_unlock_func prio XUCheckWaiters l =
     Some (if waiters l \<noteq> 0 then XUn XUResetWaiters else RIdle, l)"
| "rw_lock_x_unlock_func prio XUSetHighX l =
     Some (RIdle, l\<lparr>high_priority_x_event := os_event_set (high_priority_x_event l)\<rparr>)"
| "rw_lock_x_unlock_func prio XUSetHighS l =
     Some (RIdle, l\<lparr>high_priority_s_event := os_event_set (high_priority_s_event l)\<rparr>)"
| "rw_lock_x_unlock_func prio XUResetWaiters l = Some (XUn XUSetEvent, rw_lock_reset_waiter_flag l)"
| "rw_lock_x_unlock_func prio XUSetEvent l = Some (RIdle, l\<lparr>event := os_event_set (event l)\<rparr>)"

section \<open>Threads\<close>

text \<open>
  The calls a thread may make. A shared lock is not taken twice by one thread and not
  combined with an exclusive one, and only a lock taken with a zero pass value is taken
  again, as the comments of the source require.
\<close>

datatype ract = CallS bool | CallX bool bool | CallNowait | CallUnlock | Run

text \<open>The next step of a thread that is inside one of the functions.\<close>

fun rw_run_step :: "nat \<Rightarrow> bool \<Rightarrow> nat \<Rightarrow> rpc \<Rightarrow> rw_lock \<Rightarrow> (rpc \<times> rw_lock) option" where
  "rw_run_step rounds prio t (SEnter hp) l = rw_lock_s_lock_func prio hp l"
| "rw_run_step rounds prio t (SLow pc) l = rw_lock_s_lock_low rounds pc l"
| "rw_run_step rounds prio t (SSpin pc) l = rw_lock_s_lock_spin rounds prio pc l"
| "rw_run_step rounds prio t (SUn pc) l = rw_lock_s_unlock_func prio pc l"
| "rw_run_step rounds prio t (XWait pc) l = rw_lock_x_lock_wait rounds pc l"
| "rw_run_step rounds prio t (XLow pc) l = rw_lock_x_lock_low t pc l"
| "rw_run_step rounds prio t (XFunc pc) l = rw_lock_x_lock_func rounds prio pc l"
| "rw_run_step rounds prio t (XNowait pc) l = rw_lock_x_lock_func_nowait t pc l"
| "rw_run_step rounds prio t (XPrep pc) l = rw_lock_x_prepare_unlock pc l"
| "rw_run_step rounds prio t (XUn pc) l = rw_lock_x_unlock_func prio pc l"
| "rw_run_step rounds prio t RIdle l = None"
| "rw_run_step rounds prio t RHoldS l = None"
| "rw_run_step rounds prio t (RHoldX pass d) l = None"
| "rw_run_step rounds prio t RFault l = None"

fun rw_call :: "bool \<Rightarrow> ract \<Rightarrow> rpc \<Rightarrow> rpc option" where
  "rw_call prio (CallS hp) pc =
     (case pc of RIdle \<Rightarrow> if hp \<longrightarrow> prio then Some (SEnter hp) else None | _ \<Rightarrow> None)"
| "rw_call prio (CallX hp pass) pc =
     (case pc of RIdle \<Rightarrow> if hp \<longrightarrow> prio then Some (XFunc (XLoop hp pass 0 0)) else None
      | RHoldX p d \<Rightarrow>
          if (hp \<longrightarrow> prio) \<and> \<not> pass \<and> \<not> p then Some (XFunc (XLoop hp pass 0 d)) else None
      | _ \<Rightarrow> None)"
| "rw_call prio CallNowait pc =
     (case pc of RIdle \<Rightarrow> Some (XNowait (NReadRec False 0))
      | RHoldX p d \<Rightarrow> Some (XNowait (NReadRec p d)) | _ \<Rightarrow> None)"
| "rw_call prio CallUnlock pc =
     (case pc of RHoldS \<Rightarrow> Some (SUn SUnlock) | RHoldX p d \<Rightarrow> Some (XPrep (XUTest p d)) | _ \<Rightarrow> None)"
| "rw_call prio Run pc = None"

definition rw_thread_step ::
  "nat \<Rightarrow> bool \<Rightarrow> ract \<Rightarrow> nat \<Rightarrow> rpc \<Rightarrow> rw_lock \<Rightarrow> (rpc \<times> rw_lock) option" where
  "rw_thread_step rounds prio a t pc l =
     (if a = Run then rw_run_step rounds prio t pc l
      else map_option (\<lambda>pc'. (pc', l)) (rw_call prio a pc))"

definition rw_step :: "nat \<Rightarrow> bool \<Rightarrow> ract \<Rightarrow> nat \<Rightarrow> rconf \<Rightarrow> rconf option" where
  "rw_step rounds prio a t s =
     (case s of (l, ps) \<Rightarrow>
        if t < length ps then
          map_option (\<lambda>(pc', l'). (l', ps[t := pc'])) (rw_thread_step rounds prio a t (ps ! t) l)
        else None)"

definition rw_init :: "nat \<Rightarrow> rconf" where
  "rw_init n = (rw_lock_create_func, replicate n RIdle)"

inductive rw_reach :: "nat \<Rightarrow> bool \<Rightarrow> nat \<Rightarrow> rconf \<Rightarrow> bool" for rounds prio n where
  init: "rw_reach rounds prio n (rw_init n)"
| step: "rw_reach rounds prio n s \<Longrightarrow> rw_step rounds prio a t s = Some s' \<Longrightarrow>
     rw_reach rounds prio n s'"

fun rw_run :: "nat \<Rightarrow> bool \<Rightarrow> (ract \<times> nat) list \<Rightarrow> rconf \<Rightarrow> rconf option" where
  "rw_run rounds prio [] s = Some s"
| "rw_run rounds prio ((a, t) # as) s =
     Option.bind (rw_step rounds prio a t s) (rw_run rounds prio as)"

text \<open>A thread is asleep if it waits for an event that has not been signalled since it reserved its
  cell.\<close>

fun rw_asleep :: "rw_lock \<Rightarrow> rpc \<Rightarrow> bool" where
  "rw_asleep l (SSpin q) = (case q of SSleep hp c \<Rightarrow>
     os_event_blocks (if hp then high_priority_s_event l else event l) c | _ \<Rightarrow> False)"
| "rw_asleep l (XFunc q) = (case q of XSleep hp p c d \<Rightarrow>
     os_event_blocks (if hp then high_priority_x_event l else event l) c | _ \<Rightarrow> False)"
| "rw_asleep l (XWait q) = (case q of WSleep hp p s c \<Rightarrow> os_event_blocks (wait_ex_event l) c | _ \<Rightarrow> False)"
| "rw_asleep l _ = False"

end
