(* ===== verification/RwLockProps.thy ===== *)
theory RwLockProps
  imports RwLock
begin

text \<open>
  Properties of the read-write latch: what the lock word encodes, exclusion of readers and
  writers, recursive exclusive locking, and that no waiter is left behind.
\<close>

section \<open>What a place holds\<close>

fun func_depth :: "x_func_pc \<Rightarrow> nat" where
  "func_depth (XLoop hp p i d) = d" | "func_depth (XElse hp p i d) = d"
| "func_depth (XSpinRead hp p i d) = d" | "func_depth (XReserve hp p d) = d"
| "func_depth (XAnnounce hp p c d) = d" | "func_depth (XSleep hp p c d) = d"
| "func_depth (XWoken hp p d) = d" | "func_depth (XDecHigh p d) = d"

fun func_pass :: "x_func_pc \<Rightarrow> bool" where
  "func_pass (XLoop hp p i d) = p" | "func_pass (XElse hp p i d) = p"
| "func_pass (XSpinRead hp p i d) = p" | "func_pass (XReserve hp p d) = p"
| "func_pass (XAnnounce hp p c d) = p" | "func_pass (XSleep hp p c d) = p"
| "func_pass (XWoken hp p d) = p" | "func_pass (XDecHigh p d) = p"

text \<open>After a successful decrement \<open>rw_lock_x_lock_low\<close> has reserved the latch.\<close>

fun low_reserved :: "x_low_pc \<Rightarrow> bool" where
  "low_reserved (XAssertRec hp p s) = True" | "low_reserved (XReadWriter hp p s) = True"
| "low_reserved (XCasWriter hp p s w) = True" | "low_reserved (XSetRec hp p s) = True"
| "low_reserved _ = False"

fun low_depth :: "x_low_pc \<Rightarrow> nat" where
  "low_depth (XReadRec hp p s d) = d" | "low_depth (XDecr hp p s lr d) = d"
| "low_depth (XCas hp p s lr v d) = d" | "low_depth (XRelockCheck hp p s lr d) = d"
| "low_depth (XRelockTest hp p s d) = d" | "low_depth (XRelockLoad hp p s k d) = d"
| "low_depth (XRelockStore hp p s k v d) = d" | "low_depth _ = 1"

fun low_pass :: "x_low_pc \<Rightarrow> bool" where
  "low_pass (XReadRec hp p s d) = p" | "low_pass (XDecr hp p s lr d) = p"
| "low_pass (XCas hp p s lr v d) = p" | "low_pass (XRelockCheck hp p s lr d) = p"
| "low_pass (XRelockTest hp p s d) = p" | "low_pass (XRelockLoad hp p s k d) = p"
| "low_pass (XRelockStore hp p s k v d) = p" | "low_pass (XAssertRec hp p s) = p"
| "low_pass (XReadWriter hp p s) = p" | "low_pass (XCasWriter hp p s w) = p"
| "low_pass (XSetRec hp p s) = p"

fun wait_pass :: "x_wait_pc \<Rightarrow> bool" where
  "wait_pass (WMark hp p s) = p" | "wait_pass (WLoop hp p s i) = p"
| "wait_pass (WReserve hp p s) = p" | "wait_pass (WRecheck hp p s c) = p"
| "wait_pass (WSleep hp p s c) = p" | "wait_pass (WUnmark hp p s) = p"

fun wait_over :: "x_wait_pc \<Rightarrow> bool" where
  "wait_over (WUnmark hp p s) = True" | "wait_over _ = False"

fun nowait_depth :: "x_nowait_pc \<Rightarrow> nat" where
  "nowait_depth (NReadRec p d) = d" | "nowait_depth (NCas p lr d) = d"
| "nowait_depth (NRelockCheck p lr d) = d" | "nowait_depth (NRelockTest p d) = d"
| "nowait_depth (NRelockLoad p k d) = d" | "nowait_depth (NRelockStore p k v d) = d"
| "nowait_depth _ = 1"

fun nowait_owner :: "x_nowait_pc \<Rightarrow> bool" where
  "nowait_owner (NReadRec p d) = (\<not> p \<and> d > 0)" | "nowait_owner (NCas p lr d) = (\<not> p \<and> d > 0)"
| "nowait_owner (NRelockCheck p lr d) = (\<not> p \<and> d > 0)"
| "nowait_owner (NRelockTest p d) = (\<not> p \<and> d > 0)"
| "nowait_owner (NRelockLoad p k d) = (\<not> p \<and> d > 0)"
| "nowait_owner (NRelockStore p k v d) = (\<not> p \<and> d > 0)" | "nowait_owner _ = False"

fun prep_depth :: "x_prepare_pc \<Rightarrow> nat" where
  "prep_depth (XUTest p d) = d" | "prep_depth (XUClearRec p d) = d" | "prep_depth (XUAmount p d) = d"

fun prep_owner :: "x_prepare_pc \<Rightarrow> bool" where
  "prep_owner (XUTest p d) = (\<not> p \<and> d > 0)" | "prep_owner (XUClearRec p d) = (\<not> p \<and> d > 0)"
| "prep_owner (XUAmount p d) = (\<not> p \<and> d > 1)"

fun unlock_depth :: "x_unlock_pc \<Rightarrow> nat" where
  "unlock_depth (XUIncr p k d) = d" | "unlock_depth _ = 0"

fun unlock_owner :: "x_unlock_pc \<Rightarrow> bool" where
  "unlock_owner (XUIncr p k d) = (\<not> p \<and> d > 1)" | "unlock_owner _ = False"

text \<open>The number of exclusive locks, the one being waited for included.\<close>

fun x_depth :: "rpc \<Rightarrow> nat" where
  "x_depth (RHoldX p d) = d" | "x_depth (XFunc q) = func_depth q" | "x_depth (XLow q) = low_depth q"
| "x_depth (XWait q) = 1" | "x_depth (XNowait q) = nowait_depth q" | "x_depth (XPrep q) = prep_depth q"
| "x_depth (XUn q) = unlock_depth q" | "x_depth _ = 0"

text \<open>The writer has reserved the latch and may still have to wait for readers.\<close>

fun pending :: "rpc \<Rightarrow> bool" where
  "pending (XLow q) = low_reserved q" | "pending (XWait q) = (\<not> wait_over q)" | "pending _ = False"

definition x_held :: "rpc \<Rightarrow> bool" where
  "x_held pc \<longleftrightarrow> x_depth pc > 0 \<and> \<not> pending pc"

definition x_reserved :: "rpc \<Rightarrow> bool" where
  "x_reserved pc \<longleftrightarrow> x_depth pc > 0"

fun s_held :: "rpc \<Rightarrow> bool" where
  "s_held RHoldS = True" | "s_held (SSpin q) = (q = SDecHigh)" | "s_held (SUn q) = (q = SUnlock)"
| "s_held _ = False"

text \<open>The writer whose thread id stands in the latch with the recursion flag set.\<close>

fun x_owner :: "rpc \<Rightarrow> bool" where
  "x_owner (RHoldX p d) = (\<not> p \<and> d > 0)"
| "x_owner (XFunc q) = (\<not> func_pass q \<and> func_depth q > 0)"
| "x_owner (XLow q) = (\<not> low_pass q \<and> low_depth q > 0 \<and> \<not> low_reserved q)"
| "x_owner (XWait q) = (\<not> wait_pass q)" | "x_owner (XNowait q) = nowait_owner q"
| "x_owner (XPrep q) = prep_owner q" | "x_owner (XUn q) = unlock_owner q" | "x_owner _ = False"

text \<open>What \<open>d\<close> exclusive locks take from the lock word.\<close>

definition x_share :: "nat \<Rightarrow> int" where
  "x_share d = (if d = 0 then 0 else if d = 1 then X_LOCK_DECR else 2 * X_LOCK_DECR + int d - 2)"

definition share :: "rpc \<Rightarrow> int" where
  "share pc = x_share (x_depth pc) + of_bool (s_held pc)"

section \<open>Well-formed threads\<close>

fun low_ok :: "nat \<Rightarrow> rw_lock \<Rightarrow> x_low_pc \<Rightarrow> bool" where
  "low_ok t l (XReadRec hp p s d) = (p \<longrightarrow> d = 0)"
| "low_ok t l (XDecr hp p s lr d) =
     ((p \<longrightarrow> d = 0) \<and> (d > 0 \<longrightarrow> lr) \<and> (lr \<and> d = 0 \<longrightarrow> writer_thread l \<noteq> Some t))"
| "low_ok t l (XCas hp p s lr v d) =
     (v > 0 \<and> (p \<longrightarrow> d = 0) \<and> (d > 0 \<longrightarrow> lr) \<and> (lr \<and> d = 0 \<longrightarrow> writer_thread l \<noteq> Some t))"
| "low_ok t l (XRelockCheck hp p s lr d) =
     ((p \<longrightarrow> d = 0) \<and> (d > 0 \<longrightarrow> lr) \<and> (lr \<and> d = 0 \<longrightarrow> writer_thread l \<noteq> Some t))"
| "low_ok t l (XCasWriter hp p s w) = (writer_thread l = w)"
| "low_ok t l (XSetRec hp p s) = (writer_thread l = Some t)"
| "low_ok t l (XRelockTest hp p s d) = (\<not> p \<and> d > 0)"
| "low_ok t l (XRelockLoad hp p s k d) = (\<not> p \<and> d > 0 \<and> k = x_share (d + 1) - x_share d)"
| "low_ok t l (XRelockStore hp p s k v d) =
     (\<not> p \<and> d > 0 \<and> k = x_share (d + 1) - x_share d \<and> v = lock_word l)"
| "low_ok t l _ = True"

fun nowait_ok :: "nat \<Rightarrow> rw_lock \<Rightarrow> x_nowait_pc \<Rightarrow> bool" where
  "nowait_ok t l (NReadRec p d) = (p \<longrightarrow> d = 1)"
| "nowait_ok t l (NCas p lr d) =
     ((p \<longrightarrow> d = 1) \<and> (lr \<and> d = 0 \<longrightarrow> writer_thread l \<noteq> Some t) \<and> (lr \<and> d > 0 \<longrightarrow> \<not> p))"
| "nowait_ok t l (NRelockCheck p lr d) =
     ((p \<longrightarrow> d = 1) \<and> (lr \<and> d = 0 \<longrightarrow> writer_thread l \<noteq> Some t) \<and> (lr \<and> d > 0 \<longrightarrow> \<not> p))"
| "nowait_ok t l (NCasWriter w) = (writer_thread l = w)"
| "nowait_ok t l NSetRec = (writer_thread l = Some t)"
| "nowait_ok t l (NRelockTest p d) = (\<not> p \<and> d > 0)"
| "nowait_ok t l (NRelockLoad p k d) = (\<not> p \<and> d > 0 \<and> k = x_share (d + 1) - x_share d)"
| "nowait_ok t l (NRelockStore p k v d) =
     (\<not> p \<and> d > 0 \<and> k = x_share (d + 1) - x_share d \<and> v = lock_word l)"
| "nowait_ok t l _ = True"

fun place_ok :: "nat \<Rightarrow> rw_lock \<Rightarrow> rpc \<Rightarrow> bool" where
  "place_ok t l (SLow (SCas hp s v)) = (v > 0)"
| "place_ok t l (RHoldX p d) = (d > 0 \<and> (p \<longrightarrow> d = 1))"
| "place_ok t l RFault = False"
| "place_ok t l (XFunc (XDecHigh p d)) = (d > 0 \<and> (p \<longrightarrow> d = 1))"
| "place_ok t l (XFunc (XSleep hp p c d)) = (d = 0)"
| "place_ok t l (XFunc q) = (func_pass q \<longrightarrow> func_depth q = 0)"
| "place_ok t l (XLow q) = low_ok t l q"
| "place_ok t l (XNowait q) = nowait_ok t l q"
| "place_ok t l (XPrep (XUTest p d)) = (d > 0 \<and> (p \<longrightarrow> d = 1))"
| "place_ok t l (XPrep (XUClearRec p d)) = (d = 1)"
| "place_ok t l (XPrep (XUAmount p d)) = (d > 0 \<and> (p \<longrightarrow> d = 1))"
| "place_ok t l (XUn (XUIncr p k d)) = (d > 0 \<and> (p \<longrightarrow> d = 1) \<and> k = x_share d - x_share (d - 1))"
| "place_ok t l _ = True"

text \<open>What a thread can conclude about the latch from its own place.\<close>

definition view_ok :: "nat \<Rightarrow> rw_lock \<Rightarrow> rpc \<Rightarrow> bool" where
  "view_ok t l pc \<longleftrightarrow> place_ok t l pc \<and>
     (x_held pc \<longrightarrow> lock_word l = X_LOCK_DECR - x_share (x_depth pc)) \<and>
     (x_reserved pc \<longrightarrow> lock_word l \<le> 0) \<and>
     (x_owner pc \<longrightarrow> recursive l \<and> writer_thread l = Some t) \<and>
     (recursive l \<longrightarrow> (if x_reserved pc then x_owner pc else writer_thread l \<noteq> Some t))"

text \<open>What a step of one thread does to the latch, in terms that the other threads can use.\<close>

definition step_effect :: "nat \<Rightarrow> rw_lock \<Rightarrow> rpc \<Rightarrow> rw_lock \<Rightarrow> rpc \<Rightarrow> bool" where
  "step_effect t l pc l' pc' \<longleftrightarrow>
     lock_word l' + share pc' = lock_word l + share pc \<and>
     (x_reserved pc' \<longrightarrow> x_reserved pc \<or> lock_word l > 0) \<and>
     (s_held pc' \<longrightarrow> s_held pc \<or> lock_word l > 0) \<and>
     (x_held pc' \<longrightarrow> x_held pc \<or> lock_word l = X_LOCK_DECR \<or> x_reserved pc \<and> lock_word l \<ge> 0) \<and>
     (lock_word l' = lock_word l \<or> x_reserved pc \<or> s_held pc \<or> lock_word l > 0) \<and>
     (writer_thread l' = writer_thread l \<or> x_reserved pc \<and> writer_thread l' = Some t) \<and>
     (x_owner pc' \<longrightarrow> recursive l' \<and> writer_thread l' = Some t) \<and>
     (recursive l' = recursive l \<or> x_reserved pc) \<and>
     (recursive l' \<longrightarrow> x_owner pc' \<or> recursive l \<and> \<not> x_owner pc) \<and>
     place_ok t l' pc'"

lemmas decr_defs = rw_lock_lock_word_decr_read_def rw_lock_lock_word_decr_cas_def
  rw_lock_lock_word_incr_def rw_lock_s_lock_func_def s_spin_fail_def
  rw_lock_set_waiter_flag_def rw_lock_reset_waiter_flag_def

lemmas hold_defs = x_held_def x_reserved_def share_def

lemma X_pos: "X_LOCK_DECR > 0"
  by (simp add: X_LOCK_DECR_def)

lemma x_share_simps [simp]:
  "x_share 0 = 0" "x_share (Suc 0) = X_LOCK_DECR"
  "x_share (Suc (Suc d)) = 2 * X_LOCK_DECR + int d"
  by (simp_all add: x_share_def)

lemma x_share_eq: "0 < d \<Longrightarrow> x_share d = X_LOCK_DECR \<longleftrightarrow> d = 1" "0 < d \<Longrightarrow> X_LOCK_DECR = x_share d \<longleftrightarrow> d = 1"
  using X_pos by (auto simp: x_share_def)

lemma x_share_step: "0 < d \<Longrightarrow> x_share (Suc d) - x_share d = (if d = 1 then X_LOCK_DECR else 1)"
  "0 < d \<Longrightarrow> x_share (Suc d) - 1 = x_share d \<longleftrightarrow> d \<noteq> 1 \<or> X_LOCK_DECR = 1"
  using X_pos by (auto simp: x_share_def)

lemma x_share_amount:
  "0 < d \<Longrightarrow> (if X_LOCK_DECR = x_share d then X_LOCK_DECR
             else if X_LOCK_DECR - x_share d = - X_LOCK_DECR then X_LOCK_DECR else 1)
     = x_share d - x_share (d - Suc 0)"
  using X_pos by (auto simp: x_share_def split: if_splits)

lemma s_continue [simp]:
  "x_depth (s_yes hp site) = 0" "x_owner (s_yes hp site) = False" "pending (s_yes hp site) = False"
  "s_held (s_yes hp site)" "place_ok t l (s_yes hp site)"
  "x_depth (s_no rounds hp site) = 0" "x_owner (s_no rounds hp site) = False"
  "pending (s_no rounds hp site) = False" "\<not> s_held (s_no rounds hp site)"
  "place_ok t l (s_no rounds hp site)"
  by (cases site; simp add: s_spin_fail_def)+

lemma x_continue [simp]:
  "x_depth (x_yes hp p site d) = d" "x_owner (x_yes hp p site d) = (\<not> p \<and> d > 0)"
  "pending (x_yes hp p site d) = False" "\<not> s_held (x_yes hp p site d)"
  "place_ok t l (x_yes hp p site d) = (d > 0 \<and> (p \<longrightarrow> d = 1))"
  "x_depth (x_no hp p site d) = d" "x_owner (x_no hp p site d) = (\<not> p \<and> d > 0)"
  "pending (x_no hp p site d) = False" "\<not> s_held (x_no hp p site d)"
  "d = 0 \<Longrightarrow> place_ok t l (x_no hp p site d)"
  by (cases site; simp)+

text \<open>Most steps change neither what the thread holds nor the words that say who holds the latch.\<close>

definition silent :: "rw_lock \<Rightarrow> rpc \<Rightarrow> rw_lock \<Rightarrow> rpc \<Rightarrow> bool" where
  "silent l pc l' pc' \<longleftrightarrow> lock_word l' = lock_word l \<and> recursive l' = recursive l \<and>
     writer_thread l' = writer_thread l \<and> x_depth pc' = x_depth pc \<and> pending pc' = pending pc \<and>
     s_held pc' = s_held pc \<and> x_owner pc' = x_owner pc"

lemma silent_effect:
  "view_ok t l pc \<Longrightarrow> silent l pc l' pc' \<Longrightarrow> place_ok t l' pc' \<Longrightarrow> step_effect t l pc l' pc'"
  by (auto simp: view_ok_def silent_def step_effect_def hold_defs)

lemma view_place: "view_ok t l pc \<Longrightarrow> place_ok t l pc"
  by (simp add: view_ok_def)

lemma s_low_effect:
  assumes "rw_lock_s_lock_low rounds pc l = Some (pc', l')" and "view_ok t l (SLow pc)"
  shows "step_effect t l (SLow pc) l' pc'"
  using assms
  by (cases pc) (auto simp: view_ok_def step_effect_def decr_defs hold_defs split: if_splits)

lemma s_spin_effect:
  assumes "rw_lock_s_lock_spin rounds prio pc l = Some (pc', l')" and "view_ok t l (SSpin pc)"
  shows "step_effect t l (SSpin pc) l' pc'"
proof -
  have "silent l (SSpin pc) l' pc' \<and> place_ok t l' pc'"
    using assms(1) by (cases pc) (auto simp: silent_def decr_defs split: if_splits prod.splits)
  with assms(2) show ?thesis by (blast intro: silent_effect)
qed

lemma s_unlock_effect:
  assumes "rw_lock_s_unlock_func prio pc l = Some (pc', l')" and "view_ok t l (SUn pc)"
  shows "step_effect t l (SUn pc) l' pc'"
proof (cases "pc = SUnlock")
  case True
  then show ?thesis
    using assms by (auto simp: view_ok_def step_effect_def decr_defs hold_defs split: if_splits)
next
  case False
  then have "silent l (SUn pc) l' pc' \<and> place_ok t l' pc'"
    using assms(1) by (cases pc) (auto simp: silent_def decr_defs split: if_splits prod.splits)
  with assms(2) show ?thesis by (blast intro: silent_effect)
qed

lemma x_wait_effect:
  assumes "rw_lock_x_lock_wait rounds pc l = Some (pc', l')" and "view_ok t l (XWait pc)"
  shows "step_effect t l (XWait pc) l' pc'"
proof -
  have same: "lock_word l' = lock_word l \<and> recursive l' = recursive l \<and>
      writer_thread l' = writer_thread l \<and> x_depth pc' = 1 \<and> \<not> s_held pc' \<and>
      x_owner pc' = (\<not> wait_pass pc) \<and> place_ok t l' pc'"
    using assms(1) by (cases pc) (auto split: if_splits prod.splits)
  have "\<not> pending pc' \<Longrightarrow> lock_word l \<ge> 0 \<or> wait_over pc"
    using assms(1) by (cases pc) (auto split: if_splits prod.splits)
  with same assms(2) show ?thesis by (auto simp: view_ok_def step_effect_def hold_defs)
qed

lemma x_func_effect:
  assumes "rw_lock_x_lock_func rounds prio pc l = Some (pc', l')" and "view_ok t l (XFunc pc)"
  shows "step_effect t l (XFunc pc) l' pc'"
proof -
  have "silent l (XFunc pc) l' pc' \<and> place_ok t l' pc'"
    using assms(1) view_place [OF assms(2)]
    by (cases pc) (auto simp: silent_def decr_defs split: if_splits prod.splits)
  with assms(2) show ?thesis by (blast intro: silent_effect)
qed

lemma x_low_effect:
  assumes "rw_lock_x_lock_low t pc l = Some (pc', l')" and "view_ok t l (XLow pc)"
  shows "step_effect t l (XLow pc) l' pc'"
  using assms X_pos
  by (cases pc) (auto simp: view_ok_def step_effect_def decr_defs hold_defs x_share_eq x_share_step split: if_splits prod.splits)

lemma x_nowait_effect:
  assumes "rw_lock_x_lock_func_nowait t pc l = Some (pc', l')" and "view_ok t l (XNowait pc)"
  shows "step_effect t l (XNowait pc) l' pc'"
  using assms X_pos
  by (cases pc) (auto simp: view_ok_def step_effect_def decr_defs hold_defs x_share_eq x_share_step split: if_splits prod.splits)

lemma x_prepare_effect:
  assumes "rw_lock_x_prepare_unlock pc l = Some (pc', l')" and "view_ok t l (XPrep pc)"
  shows "step_effect t l (XPrep pc) l' pc'"
proof (cases pc)
  case (XUTest p d)
  then have "d > 0" "p \<longrightarrow> d = 1" and w: "lock_word l = X_LOCK_DECR - x_share d"
    using assms(2) by (auto simp: view_ok_def x_held_def)
  then have "silent l (XPrep pc) l' pc' \<and> place_ok t l' pc'"
    using assms(1) by (auto simp: XUTest silent_def w x_share_eq split: if_splits)
  with assms(2) show ?thesis by (blast intro: silent_effect)
next
  case (XUClearRec p d)
  then have "d = 1" using assms(2) by (simp add: view_ok_def)
  then have "pc' = XPrep (XUAmount p 1)" "l' = l\<lparr>recursive := False\<rparr>"
    using assms(1) by (simp_all add: XUClearRec)
  then show ?thesis by (simp add: XUClearRec \<open>d = 1\<close> step_effect_def hold_defs)
next
  case (XUAmount p d)
  then have d: "d > 0" "p \<longrightarrow> d = 1" and w: "lock_word l = X_LOCK_DECR - x_share d"
    using assms(2) by (auto simp: view_ok_def x_held_def)
  have "pc' = XUn (XUIncr p (x_share d - x_share (d - 1)) d)" "l' = l"
    using assms(1) x_share_amount [OF d(1)] by (simp_all add: XUAmount w cong: if_cong)
  then have "silent l (XPrep pc) l' pc' \<and> place_ok t l' pc'"
    using d by (simp add: XUAmount silent_def)
  with assms(2) show ?thesis by (blast intro: silent_effect)
qed

lemma x_unlock_effect:
  assumes "rw_lock_x_unlock_func prio pc l = Some (pc', l')" and "view_ok t l (XUn pc)"
  shows "step_effect t l (XUn pc) l' pc'"
proof (cases "\<exists>p k d. pc = XUIncr p k d")
  case True
  then obtain p k d where pc: "pc = XUIncr p k d" by blast
  then have ok: "d > 0" "p \<longrightarrow> d = 1" and k: "k = x_share d - x_share (d - 1)"
    and w: "lock_word l = X_LOCK_DECR - x_share d"
    and r: "recursive l \<Longrightarrow> x_owner (XUn pc)" and own: "x_owner (XUn pc) \<Longrightarrow> recursive l \<and> writer_thread l = Some t"
    using assms(2) by (auto simp: view_ok_def x_held_def x_reserved_def)
  show ?thesis
  proof (cases "d = 1")
    case True
    have "pc' = XUn XUCheckX \<or> pc' = XUn XUCheckWaiters" "l' = l\<lparr>lock_word := X_LOCK_DECR\<rparr>"
      using assms(1) True by (simp_all add: pc k w decr_defs split: if_splits)
    then show ?thesis
      using r True by (auto simp: pc k w step_effect_def hold_defs)
  next
    case False
    then have "x_share (d - 1) > 0" using ok X_pos by (auto simp: x_share_def)
    then have "pc' = RHoldX p (d - 1)" "l' = l\<lparr>lock_word := X_LOCK_DECR - x_share (d - 1)\<rparr>"
      using assms(1) False by (auto simp: pc k w decr_defs)
    then show ?thesis
      using ok False own by (simp add: pc k w step_effect_def hold_defs)
  qed
next
  case False
  then have "silent l (XUn pc) l' pc' \<and> place_ok t l' pc'"
    using assms(1) by (cases pc) (auto simp: silent_def decr_defs split: if_splits)
  with assms(2) show ?thesis by (blast intro: silent_effect)
qed

lemma call_effect:
  assumes "rw_call prio a pc = Some pc'" and "view_ok t l pc"
  shows "step_effect t l pc l pc'"
proof -
  have "silent l pc l pc' \<and> place_ok t l pc'"
    using assms(1) view_place [OF assms(2)]
    by (cases a; cases pc) (auto simp: silent_def split: if_splits)
  with assms(2) show ?thesis by (blast intro: silent_effect)
qed

lemma enter_effect:
  assumes "rw_lock_s_lock_func prio hp l = Some (pc', l')" and "view_ok t l (SEnter hp)"
  shows "step_effect t l (SEnter hp) l' pc'"
proof -
  have "silent l (SEnter hp) l' pc' \<and> place_ok t l' pc'"
    using assms(1) by (auto simp: silent_def decr_defs split: if_splits)
  with assms(2) show ?thesis by (blast intro: silent_effect)
qed

lemma thread_effect:
  assumes "rw_thread_step rounds prio a t pc l = Some (pc', l')" and "view_ok t l pc"
  shows "step_effect t l pc l' pc'"
proof (cases "a = Run")
  case True
  then have "rw_run_step rounds prio t pc l = Some (pc', l')"
    using assms(1) by (simp add: rw_thread_step_def)
  then show ?thesis
    using assms(2)
    by (cases pc) (simp_all add: enter_effect s_low_effect s_spin_effect s_unlock_effect x_wait_effect
        x_low_effect x_func_effect x_nowait_effect x_prepare_effect x_unlock_effect)
qed (use assms call_effect in \<open>auto simp: rw_thread_step_def\<close>)

section \<open>All threads\<close>

definition total :: "rpc list \<Rightarrow> int" where
  "total ps = sum_list (map share ps)"

definition rw_inv :: "rconf \<Rightarrow> bool" where
  "rw_inv s \<longleftrightarrow> (case s of (l, ps) \<Rightarrow>
     lock_word l = X_LOCK_DECR - total ps \<and> n_of x_reserved ps \<le> 1 \<and>
     (\<forall>t<length ps. view_ok t l (ps ! t)) \<and>
     (recursive l \<longrightarrow> (\<exists>pc\<in>set ps. x_owner pc)))"

lemma x_share_nonneg: "0 \<le> x_share d" "d > 0 \<Longrightarrow> X_LOCK_DECR \<le> x_share d"
  using X_pos by (auto simp: x_share_def)

lemma share_nonneg: "0 \<le> share pc" "x_reserved pc \<Longrightarrow> X_LOCK_DECR \<le> share pc"
  using x_share_nonneg [of "x_depth pc"] by (auto simp: share_def x_reserved_def)

lemma total_update: "t < length ps \<Longrightarrow> total (ps[t := pc']) = total ps - share (ps ! t) + share pc'"
proof (induction ps arbitrary: t)
  case (Cons p ps)
  then show ?case by (cases t) (auto simp: total_def)
qed simp

lemma total_others:
  assumes "t < length ps" and "u < length ps" and "t \<noteq> u"
  shows "share (ps ! t) + share (ps ! u) \<le> total ps"
proof -
  have "0 \<le> total qs" for qs
    by (induction qs) (auto simp: total_def share_nonneg)
  from this [of "(ps[t := RIdle])[u := RIdle]"] show ?thesis
    using assms by (simp add: total_update) (simp add: share_def)
qed

lemma total_member: "t < length ps \<Longrightarrow> share (ps ! t) \<le> total ps"
proof -
  assume t: "t < length ps"
  have "0 \<le> total qs" for qs
    by (induction qs) (auto simp: total_def share_nonneg)
  from this [of "ps[t := RIdle]"] show ?thesis
    using t by (simp add: total_update) (simp add: share_def)
qed

lemma owner_reserved: "x_owner pc \<Longrightarrow> x_reserved pc"
proof (cases pc)
  case (XNowait q)
  then show "x_owner pc \<Longrightarrow> x_reserved pc" by (cases q) (auto simp: x_reserved_def)
next
  case (XPrep q)
  then show "x_owner pc \<Longrightarrow> x_reserved pc" by (cases q) (auto simp: x_reserved_def)
next
  case (XUn q)
  then show "x_owner pc \<Longrightarrow> x_reserved pc" by (cases q) (auto simp: x_reserved_def)
qed (auto simp: x_reserved_def)

lemma reserved_not_s: "x_reserved pc \<Longrightarrow> \<not> s_held pc"
  by (cases pc) (auto simp: x_reserved_def)

lemma held_reserved: "x_held pc \<Longrightarrow> x_reserved pc"
  by (simp add: x_held_def x_reserved_def)

lemma share_pos: "s_held pc \<Longrightarrow> share pc > 0" "x_reserved pc \<Longrightarrow> share pc > 0"
  using share_nonneg(2) [of pc] X_pos x_share_nonneg(1) [of "x_depth pc"] by (auto simp: share_def)

lemma held_share: "x_reserved pc \<Longrightarrow> share pc = x_share (x_depth pc)"
  by (simp add: share_def reserved_not_s)

lemma effectD:
  assumes "step_effect t l pc l' pc'"
  shows "lock_word l' + share pc' = lock_word l + share pc"
    and "x_reserved pc' \<Longrightarrow> x_reserved pc \<or> lock_word l > 0"
    and "s_held pc' \<Longrightarrow> s_held pc \<or> lock_word l > 0"
    and "x_held pc' \<Longrightarrow> x_held pc \<or> lock_word l = X_LOCK_DECR \<or> x_reserved pc \<and> lock_word l \<ge> 0"
    and "lock_word l' = lock_word l \<or> x_reserved pc \<or> s_held pc \<or> lock_word l > 0"
    and "writer_thread l' = writer_thread l \<or> x_reserved pc \<and> writer_thread l' = Some t"
    and "x_owner pc' \<Longrightarrow> recursive l' \<and> writer_thread l' = Some t"
    and "recursive l' = recursive l \<or> x_reserved pc"
    and "recursive l' \<Longrightarrow> x_owner pc' \<or> recursive l \<and> \<not> x_owner pc"
    and "place_ok t l' pc'"
  using assms by (auto simp: step_effect_def)

lemma reserved_unique:
  assumes "rw_inv (l, ps)" and "t < length ps" "u < length ps"
    and "x_reserved (ps ! t)" "x_reserved (ps ! u)"
  shows "t = u"
  using assms n_of_unique [of x_reserved ps t u] by (simp add: rw_inv_def)

lemma view_of: "rw_inv (l, ps) \<Longrightarrow> t < length ps \<Longrightarrow> view_ok t l (ps ! t)"
  by (simp add: rw_inv_def)

text \<open>A holder of the exclusive lock is alone.\<close>

lemma held_alone:
  assumes "rw_inv (l, ps)" and "t < length ps" "x_held (ps ! t)" and "u < length ps" "u \<noteq> t"
  shows "\<not> s_held (ps ! u)" and "\<not> x_reserved (ps ! u)" and "lock_word l \<le> 0"
proof -
  have v: "view_ok t l (ps ! t)" using assms(1,2) by (rule view_of)
  then have "total ps = share (ps ! t)"
    using assms(1,3) held_share [OF held_reserved] by (simp add: view_ok_def rw_inv_def)
  then have "share (ps ! u) \<le> 0" using total_others [OF assms(2,4)] assms(5) by auto
  then show "\<not> s_held (ps ! u)" "\<not> x_reserved (ps ! u)" using share_pos [of "ps ! u"] by auto
  show "lock_word l \<le> 0" using v held_reserved [OF assms(3)] by (simp add: view_ok_def)
qed

lemma reserved_blocks:
  "rw_inv (l, ps) \<Longrightarrow> u < length ps \<Longrightarrow> x_reserved (ps ! u) \<Longrightarrow> lock_word l \<le> 0"
  using view_of [of l ps u] by (simp add: view_ok_def)

text \<open>The place of another thread stays well-formed.\<close>

lemma place_ok_cong:
  assumes "place_ok u l pc" and "writer_thread l' = writer_thread l \<or>
      \<not> x_reserved pc \<and> writer_thread l' \<noteq> Some u"
    and "x_held pc \<Longrightarrow> lock_word l' = lock_word l"
  shows "place_ok u l' pc"
proof (cases pc)
  case (SLow q)
  with assms(1) show ?thesis by (cases q) auto
next
  case (XFunc q)
  with assms(1) show ?thesis by (cases q) auto
next
  case (XLow q)
  with assms show ?thesis by (cases q) (auto simp: x_reserved_def x_held_def)
next
  case (XNowait q)
  with assms show ?thesis by (cases q) (auto simp: x_reserved_def x_held_def)
next
  case (XPrep q)
  with assms(1) show ?thesis by (cases q) auto
next
  case (XUn q)
  with assms(1) show ?thesis by (cases q) auto
qed (use assms(1) in auto)

lemma total_step:
  assumes "rw_inv (l, ps)" and "t < length ps" and "step_effect t l (ps ! t) l' pc'"
  shows "lock_word l' = X_LOCK_DECR - total (ps[t := pc'])"
  using assms effectD(1) [OF assms(3)] by (simp add: rw_inv_def total_update)

lemma unique_step:
  assumes inv: "rw_inv (l, ps)" and t: "t < length ps" and e: "step_effect t l (ps ! t) l' pc'"
  shows "n_of x_reserved (ps[t := pc']) \<le> 1"
proof (cases "x_reserved pc' \<and> \<not> x_reserved (ps ! t)")
  case True
  then have "lock_word l > 0" using effectD(2) [OF e] by simp
  then have "\<not> (\<exists>pc\<in>set ps. x_reserved pc)"
    using reserved_blocks [OF inv] by (fastforce simp: in_set_conv_nth)
  then have "n_of x_reserved ps = 0" using n_of_pos [of x_reserved ps] by simp
  with True show ?thesis using n_of_update [OF t, of x_reserved pc'] by simp
next
  case False
  have "n_of x_reserved ps \<le> 1" using inv by (simp add: rw_inv_def)
  with False show ?thesis
    using n_of_update [OF t, of x_reserved pc']
    by (cases "x_reserved pc'"; cases "x_reserved (ps ! t)") simp_all
qed

lemma own_view_step:
  assumes inv: "rw_inv (l, ps)" and t: "t < length ps" and e: "step_effect t l (ps ! t) l' pc'"
  shows "view_ok t l' pc'"
proof -
  let ?ps = "ps[t := pc']"
  have w: "lock_word l' = X_LOCK_DECR - total ?ps" by (rule total_step [OF inv t e])
  have v: "view_ok t l (ps ! t)" using inv t by (rule view_of)
  have lw: "lock_word l = X_LOCK_DECR - total ps" using inv by (simp add: rw_inv_def)
  have "lock_word l' = X_LOCK_DECR - x_share (x_depth pc')" if h: "x_held pc'"
  proof -
    have le: "share (ps ! t) \<le> total ps" using t by (rule total_member)
    have "total ps = share (ps ! t)"
      using effectD(4) [OF e h]
    proof (elim disjE)
      assume "x_held (ps ! t)"
      then show ?thesis using v lw held_share [OF held_reserved] by (simp add: view_ok_def)
    next
      assume "lock_word l = X_LOCK_DECR"
      then show ?thesis using lw le share_nonneg(1) [of "ps ! t"] by simp
    next
      assume "x_reserved (ps ! t) \<and> lock_word l \<ge> 0"
      then show ?thesis using lw le share_nonneg(2) [of "ps ! t"] by simp
    qed
    then show ?thesis using w t h held_share [OF held_reserved] by (simp add: total_update)
  qed
  moreover have "lock_word l' \<le> 0" if "x_reserved pc'"
    using total_member [of t ?ps] t share_nonneg(2) [OF that] w by simp
  moreover have "if x_reserved pc' then x_owner pc' else writer_thread l' \<noteq> Some t" if r: "recursive l'"
  proof (cases "x_owner pc'")
    case False
    then have r: "recursive l" "\<not> x_owner (ps ! t)" using effectD(9) [OF e r] by auto
    then have n: "\<not> x_reserved (ps ! t)" "writer_thread l \<noteq> Some t"
      using v by (auto simp: view_ok_def split: if_splits)
    from r(1) inv obtain u where "u < length ps" "x_owner (ps ! u)"
      by (auto simp: rw_inv_def in_set_conv_nth)
    then have "lock_word l \<le> 0" using reserved_blocks [OF inv] owner_reserved by blast
    with n show ?thesis using effectD(2) [OF e] effectD(6) [OF e] by auto
  qed (simp add: owner_reserved)
  ultimately show ?thesis
    using effectD(7,10) [OF e] by (auto simp: view_ok_def)
qed

lemma other_view_step:
  assumes inv: "rw_inv (l, ps)" and t: "t < length ps" and e: "step_effect t l (ps ! t) l' pc'"
    and u: "u < length ps" "u \<noteq> t"
  shows "view_ok u l' (ps ! u)"
proof -
  let ?ps = "ps[t := pc']" and ?q = "ps ! u"
  have w: "lock_word l' = X_LOCK_DECR - total ?ps" by (rule total_step [OF inv t e])
  have v: "view_ok u l ?q" using inv u(1) by (rule view_of)
  have alone: "\<not> x_reserved (ps ! t)" if "x_reserved ?q"
    using reserved_unique [OF inv t u(1) _ that] u(2) by auto
  have same: "lock_word l' = lock_word l" if "x_held ?q"
    using held_alone [OF inv u(1) that t] u(2) effectD(5) [OF e] by auto
  have wt: "writer_thread l' = writer_thread l \<or> \<not> x_reserved ?q \<and> writer_thread l' \<noteq> Some u"
    using effectD(6) [OF e] alone u(2) by auto
  have "place_ok u l' ?q" using place_ok_cong [OF view_place [OF v] wt same] .
  moreover have "x_held ?q \<longrightarrow> lock_word l' = X_LOCK_DECR - x_share (x_depth ?q)"
    using same v by (simp add: view_ok_def)
  moreover have "x_reserved ?q \<longrightarrow> lock_word l' \<le> 0"
    using total_member [of u ?ps] u share_nonneg(2) [of ?q] w by auto
  moreover have "x_owner ?q \<longrightarrow> recursive l' \<and> writer_thread l' = Some u"
    using v alone owner_reserved [of ?q] effectD(6,8) [OF e] by (auto simp: view_ok_def)
  moreover have "if x_reserved ?q then x_owner ?q else writer_thread l' \<noteq> Some u" if r: "recursive l'"
  proof (cases "x_owner pc'")
    case True
    then have "\<not> x_reserved ?q"
      using n_of_unique [OF unique_step [OF inv t e], of t u] owner_reserved [OF True] t u by auto
    then show ?thesis using effectD(7) [OF e True] u(2) by simp
  next
    case False
    then have "recursive l" using effectD(9) [OF e r] by auto
    then show ?thesis using v wt by (auto simp: view_ok_def split: if_splits)
  qed
  ultimately show ?thesis by (simp add: view_ok_def)
qed

lemma owner_step:
  assumes inv: "rw_inv (l, ps)" and t: "t < length ps" and e: "step_effect t l (ps ! t) l' pc'"
    and r: "recursive l'"
  shows "\<exists>pc\<in>set (ps[t := pc']). x_owner pc"
proof (cases "x_owner pc'")
  case True
  then show ?thesis using own_in_update [OF t] by blast
next
  case False
  then have "recursive l" "\<not> x_owner (ps ! t)" using effectD(9) [OF e r] by auto
  moreover from this(1) inv obtain q where "q \<in> set ps" "x_owner q" by (auto simp: rw_inv_def)
  ultimately show ?thesis using in_set_update [OF t, of q pc'] by blast
qed

lemma rw_step_cases:
  assumes "rw_step rounds prio a t (l, ps) = Some s'"
  obtains pc' l' where "t < length ps" "rw_thread_step rounds prio a t (ps ! t) l = Some (pc', l')"
    "s' = (l', ps[t := pc'])"
  using assms that by (auto simp: rw_step_def split: if_splits)

lemma rw_inv_step:
  assumes inv: "rw_inv (l, ps)" and "rw_step rounds prio a t (l, ps) = Some s'"
  shows "rw_inv s'"
proof -
  from assms(2) obtain pc' l' where t: "t < length ps" and s': "s' = (l', ps[t := pc'])"
    and st: "rw_thread_step rounds prio a t (ps ! t) l = Some (pc', l')"
    by (rule rw_step_cases)
  have e: "step_effect t l (ps ! t) l' pc'" using st view_of [OF inv t] by (rule thread_effect)
  have "view_ok u l' (ps[t := pc'] ! u)" if "u < length ps" for u
    using that own_view_step [OF inv t e] other_view_step [OF inv t e that] by (cases "u = t") auto
  then show ?thesis
    using total_step [OF inv t e] unique_step [OF inv t e] owner_step [OF inv t e]
    by (simp add: rw_inv_def s')
qed

lemma rw_inv_init: "rw_inv (rw_init n)"
proof -
  have "total (replicate n RIdle) = 0" by (induction n) (auto simp: total_def share_def)
  then show ?thesis
    by (simp add: rw_inv_def rw_init_def rw_lock_create_func_def n_of_replicate x_reserved_def
        view_ok_def x_held_def)
qed

lemma rw_reach_inv: "rw_reach rounds prio n s \<Longrightarrow> rw_inv s"
proof (induction rule: rw_reach.induct)
  case (step s a t s')
  then show ?case using rw_inv_step [of "fst s" "snd s"] by simp
qed (rule rw_inv_init)

lemma rw_reach_length: "rw_reach rounds prio n s \<Longrightarrow> length (snd s) = n"
  by (induction rule: rw_reach.induct) (auto simp: rw_init_def rw_step_def split: if_splits prod.splits)

lemma rw_run_reach:
  "rw_reach rounds prio n s \<Longrightarrow> rw_run rounds prio as s = Some s' \<Longrightarrow> rw_reach rounds prio n s'"
proof (induction as arbitrary: s)
  case (Cons p as)
  obtain a t where p: "p = (a, t)" by (cases p)
  from Cons.prems(2) obtain s1 where "rw_step rounds prio a t s = Some s1"
    and "rw_run rounds prio as s1 = Some s'"
    by (auto simp: p bind_eq_Some_conv)
  with Cons show ?case by (blast intro: rw_reach.step)
qed simp

lemma rw_run_places:
  assumes "map_option snd (rw_run rounds prio as (rw_init n)) = Some ps"
  obtains l where "rw_reach rounds prio n (l, ps)"
  using assms rw_run_reach [OF rw_reach.init, of rounds prio as n] that by (auto simp: map_option_case split: option.splits)

section \<open>What the lock word says\<close>

lemma total_no_writer:
  "\<forall>pc\<in>set ps. \<not> x_reserved pc \<Longrightarrow> total ps = int (n_of s_held ps)"
  by (induction ps) (auto simp: total_def share_def n_of_def x_reserved_def)

lemma total_writer:
  assumes inv: "rw_inv (l, ps)" and t: "t < length ps" and r: "x_reserved (ps ! t)"
  shows "total ps = x_share (x_depth (ps ! t)) + int (n_of s_held ps)"
proof -
  have "\<not> x_reserved (ps[t := RIdle] ! u)" if "u < length ps" for u
    using reserved_unique [OF inv t that r] that t by (cases "u = t") (auto simp: x_reserved_def)
  then have "\<forall>pc\<in>set (ps[t := RIdle]). \<not> x_reserved pc" by (auto simp: in_set_conv_nth)
  from total_no_writer [OF this] show ?thesis
    using t held_share [OF r] reserved_not_s [OF r] n_of_update [OF t, of s_held RIdle]
    by (simp add: total_update) (simp add: share_def)
qed

lemma n_of_le: "n_of P ps \<le> length ps"
  by (simp add: n_of_def)

lemma reserved_exists:
  assumes inv: "rw_inv (l, ps)" and "int (length ps) < X_LOCK_DECR" and "lock_word l \<le> 0"
  shows "\<exists>v\<in>set ps. x_reserved v"
proof (rule ccontr)
  assume "\<not> ?thesis"
  then have "total ps = int (n_of s_held ps)" using total_no_writer by blast
  then show False using assms n_of_le [of s_held ps] by (simp add: rw_inv_def)
qed

lemma readers_exist:
  assumes inv: "rw_inv (l, ps)" and t: "t < length ps" "pending (ps ! t)" "x_depth (ps ! t) = 1"
    and "lock_word l < 0"
  shows "\<exists>v\<in>set ps. s_held v"
proof -
  have "x_reserved (ps ! t)" using t by (simp add: x_reserved_def)
  then have "total ps = X_LOCK_DECR + int (n_of s_held ps)" using total_writer [OF inv t(1)] t(3) by simp
  then have "0 < n_of s_held ps" using inv assms(5) by (simp add: rw_inv_def)
  then show ?thesis by (simp add: n_of_pos)
qed

lemma pending_depth: "view_ok t l pc \<Longrightarrow> pending pc \<Longrightarrow> x_depth pc = 1"
proof (cases pc)
  case (XLow q)
  then show "pending pc \<Longrightarrow> x_depth pc = 1" by (cases q) auto
qed auto

text \<open>The waiter flag is a flag.\<close>

lemma run_waiters:
  assumes "rw_run_step rounds prio t pc l = Some (pc', l')" and "waiters l \<le> Suc 0"
  shows "waiters l' \<le> Suc 0"
proof (cases pc)
  case (SLow q)
  with assms show ?thesis by (cases q) (auto simp: decr_defs split: if_splits)
next
  case (SSpin q)
  with assms show ?thesis by (cases q) (auto simp: decr_defs split: if_splits prod.splits)
next
  case (SUn q)
  with assms show ?thesis by (cases q) (auto simp: decr_defs split: if_splits)
next
  case (XWait q)
  with assms show ?thesis by (cases q) (auto split: if_splits prod.splits)
next
  case (XLow q)
  with assms show ?thesis by (cases q) (auto simp: decr_defs split: if_splits)
next
  case (XFunc q)
  with assms show ?thesis by (cases q) (auto simp: decr_defs split: if_splits prod.splits)
next
  case (XNowait q)
  with assms show ?thesis by (cases q) (auto split: if_splits)
next
  case (XPrep q)
  with assms show ?thesis by (cases q) (auto split: if_splits)
next
  case (XUn q)
  with assms show ?thesis by (cases q) (auto simp: decr_defs split: if_splits)
qed (use assms in \<open>auto simp: decr_defs\<close>)

lemma rw_reach_waiters: "rw_reach rounds prio n s \<Longrightarrow> waiters (fst s) \<le> 1"
proof (induction rule: rw_reach.induct)
  case (step s a t s')
  obtain l ps where s: "s = (l, ps)" by (cases s)
  from step.hyps(2) obtain pc' l' where "s' = (l', ps[t := pc'])"
    and "rw_thread_step rounds prio a t (ps ! t) l = Some (pc', l')"
    unfolding s by (rule rw_step_cases)
  with step.IH s show ?case by (auto simp: rw_thread_step_def run_waiters split: if_splits)
qed (simp add: rw_init_def rw_lock_create_func_def)

section \<open>Properties\<close>

text \<open>C37: The read-write latch, regular or with priorities, excludes: while a thread holds it
  exclusively no other thread holds it in either mode, the word \<open>writer_thread\<close> names the holder
  whenever recursive locking is allowed, and no assertion of the source fails.\<close>

theorem rw_exclusion:
  assumes "rw_reach rounds prio n (l, ps)" and "t < n" and "ps ! t = RHoldX pass d"
  shows "(\<forall>u<n. u \<noteq> t \<longrightarrow> \<not> s_held (ps ! u) \<and> \<not> x_held (ps ! u)) \<and> RFault \<notin> set ps \<and>
    (\<not> pass \<longrightarrow> recursive l \<and> writer_thread l = Some t)"
proof -
  have inv: "rw_inv (l, ps)" and len: "length ps = n"
    using rw_reach_inv [OF assms(1)] rw_reach_length [OF assms(1)] by auto
  have v: "view_ok t l (RHoldX pass d)" using view_of [OF inv, of t] assms(2,3) len by simp
  then have h: "x_held (ps ! t)" using assms(3) by (simp add: view_ok_def x_held_def)
  have "RFault \<notin> set ps"
  proof
    assume "RFault \<in> set ps"
    then obtain u where "u < length ps" "ps ! u = RFault" by (auto simp: in_set_conv_nth)
    then show False using view_place [OF view_of [OF inv, of u]] by simp
  qed
  moreover have "\<not> pass \<longrightarrow> recursive l \<and> writer_thread l = Some t"
    using v by (auto simp: view_ok_def)
  ultimately show ?thesis
    using held_alone [OF inv _ h] held_reserved assms(2) len by blast
qed

text \<open>A run in which thread 0 takes the exclusive lock twice while thread 1 waits for a shared one.\<close>

definition relock_run :: "(ract \<times> nat) list" where
  "relock_run = (CallX False False, 0) # replicate 11 (Run, 0) @ (CallX False False, 0) #
     replicate 7 (Run, 0) @ (CallS False, 1) # replicate 11 (Run, 1)"

theorem rw_exclusion_witness:
  "\<exists>l. rw_reach 1 False 2 (l, [RHoldX False 2, SSpin (SSleep False 1)]) \<and>
     \<not> s_held (SSpin (SSleep False 1)) \<and> writer_thread l = Some 0"
proof -
  have "map_option snd (rw_run 1 False relock_run (rw_init 2)) =
      Some [RHoldX False 2, SSpin (SSleep False 1)]"
    by code_simp
  then obtain l where "rw_reach 1 False 2 (l, [RHoldX False 2, SSpin (SSleep False 1)])"
    by (rule rw_run_places)
  then show ?thesis using rw_exclusion [of 1 False 2 l _ 0 False 2] by auto
qed

text \<open>C38: The lock word is decoded correctly, as long as there are fewer threads than \<open>X_LOCK_DECR\<close>:
  the reader count is the number of threads that hold the latch shared, the writer status is
  \<open>RW_LOCK_NOT_LOCKED\<close> exactly if no thread holds or has reserved it exclusively and
  \<open>RW_LOCK_WAIT_EX\<close> only while readers remain, and the exclusive lock count is the recursion
  depth of the holder.\<close>

theorem rw_lock_word_decodes:
  assumes "rw_reach rounds prio n (l, ps)" and "int n < X_LOCK_DECR"
  shows "rw_lock_get_reader_count l = int (n_of s_held ps) \<and>
    (rw_lock_get_writer l = RW_LOCK_NOT_LOCKED \<longleftrightarrow> (\<forall>pc\<in>set ps. \<not> x_reserved pc)) \<and>
    (rw_lock_get_writer l = RW_LOCK_WAIT_EX \<longleftrightarrow>
       (\<exists>pc\<in>set ps. x_reserved pc) \<and> (\<exists>pc\<in>set ps. s_held pc)) \<and>
    (\<forall>pc\<in>set ps. x_held pc \<longrightarrow> rw_lock_get_x_lock_count l = int (x_depth pc))"
proof -
  have inv: "rw_inv (l, ps)" and len: "length ps = n"
    using rw_reach_inv [OF assms(1)] rw_reach_length [OF assms(1)] by auto
  have w: "lock_word l = X_LOCK_DECR - total ps" using inv by (simp add: rw_inv_def)
  have s: "int (n_of s_held ps) < X_LOCK_DECR" using n_of_le [of s_held ps] assms(2) len by simp
  have ns: "0 < n_of s_held ps \<longleftrightarrow> (\<exists>pc\<in>set ps. s_held pc)" by (rule n_of_pos)
  show ?thesis
  proof (cases "\<exists>pc\<in>set ps. x_reserved pc")
    case False
    then have "lock_word l = X_LOCK_DECR - int (n_of s_held ps)" using total_no_writer w by simp
    with False s show ?thesis
      using held_reserved by (auto simp: rw_lock_get_reader_count_def rw_lock_get_writer_def)
  next
    case True
    then obtain t where t: "t < length ps" "x_reserved (ps ! t)" by (auto simp: in_set_conv_nth)
    have v: "view_ok t l (ps ! t)" using inv t(1) by (rule view_of)
    have lw: "lock_word l = X_LOCK_DECR - x_share (x_depth (ps ! t)) - int (n_of s_held ps)"
      using total_writer [OF inv t] w by simp
    show ?thesis
    proof (cases "x_held (ps ! t)")
      case True
      then have "n_of s_held ps = 0" using v lw by (simp add: view_ok_def)
      moreover have "x_depth (ps ! t) > 0" using True by (simp add: x_held_def)
      moreover have "pc = ps ! t" if "pc \<in> set ps" "x_held pc" for pc
        using that reserved_unique [OF inv _ t(1) _ t(2)] held_reserved by (auto simp: in_set_conv_nth)
      ultimately show ?thesis
        using lw ns X_pos t
        by (auto simp: rw_lock_get_reader_count_def rw_lock_get_writer_def
            rw_lock_get_x_lock_count_def x_share_def split: if_splits)
    next
      case False
      then have p: "pending (ps ! t)" using t(2) by (simp add: x_held_def x_reserved_def)
      then have "lock_word l = - int (n_of s_held ps)" using lw pending_depth [OF v p] by simp
      moreover have "\<not> x_held pc" if "pc \<in> set ps" for pc
        using that False reserved_unique [OF inv _ t(1) _ t(2)] held_reserved
        by (auto simp: in_set_conv_nth)
      ultimately show ?thesis
        using s ns t X_pos by (auto simp: rw_lock_get_reader_count_def rw_lock_get_writer_def)
    qed
  qed
qed

text \<open>Thread 0 holds the latch shared and thread 1 has reserved it exclusively.\<close>

definition wait_ex_run :: "(ract \<times> nat) list" where
  "wait_ex_run = (CallS False, 0) # replicate 3 (Run, 0) @ (CallX False False, 1) # replicate 9 (Run, 1)"

theorem rw_lock_word_decodes_witness:
  "\<exists>l. rw_reach 1 False 2 (l, [RHoldS, XWait (WLoop False False (XTry 0) 0)]) \<and>
     rw_lock_get_reader_count l = 1 \<and> rw_lock_get_writer l = RW_LOCK_WAIT_EX"
proof -
  have "map_option snd (rw_run 1 False wait_ex_run (rw_init 2)) =
      Some [RHoldS, XWait (WLoop False False (XTry 0) 0)]"
    by code_simp
  then obtain l where "rw_reach 1 False 2 (l, [RHoldS, XWait (WLoop False False (XTry 0) 0)])"
    by (rule rw_run_places)
  then show ?thesis
    using rw_lock_word_decodes [of 1 False 2 l "[RHoldS, XWait (WLoop False False (XTry 0) 0)]"]
    by (auto simp: X_LOCK_DECR_def n_of_def x_reserved_def)
qed

text \<open>C40: Every reachable latch passes \<open>rw_lock_validate\<close>, as long as there are fewer threads than
  \<open>X_LOCK_DECR\<close> and no thread locks it recursively more than \<open>X_LOCK_DECR + 1\<close> times. The comment of
  the header grants only 2047 recursive locks.\<close>

theorem rw_lock_valid:
  assumes "rw_reach rounds prio n (l, ps)" and "int n < X_LOCK_DECR"
    and "\<forall>pc\<in>set ps. int (x_depth pc) < X_LOCK_DECR + 2"
  shows "rw_lock_validate l"
proof -
  have inv: "rw_inv (l, ps)" and len: "length ps = n" and f: "waiters l \<le> 1"
    using rw_reach_inv [OF assms(1)] rw_reach_length [OF assms(1)] rw_reach_waiters [OF assms(1)] by auto
  have w: "lock_word l = X_LOCK_DECR - total ps" using inv by (simp add: rw_inv_def)
  have s: "int (n_of s_held ps) < X_LOCK_DECR" using n_of_le [of s_held ps] assms(2) len by simp
  have "- (2 * X_LOCK_DECR) < lock_word l \<and> lock_word l \<le> X_LOCK_DECR"
  proof (cases "\<exists>pc\<in>set ps. x_reserved pc")
    case False
    then show ?thesis using total_no_writer w s X_pos by simp
  next
    case True
    then obtain t where t: "t < length ps" "x_reserved (ps ! t)" by (auto simp: in_set_conv_nth)
    have v: "view_ok t l (ps ! t)" using inv t(1) by (rule view_of)
    have "lock_word l = X_LOCK_DECR - x_share (x_depth (ps ! t)) - int (n_of s_held ps)"
      using total_writer [OF inv t] w by simp
    moreover have "x_held (ps ! t) \<Longrightarrow> lock_word l = X_LOCK_DECR - x_share (x_depth (ps ! t))"
      using v by (simp add: view_ok_def)
    moreover have "\<not> x_held (ps ! t) \<Longrightarrow> x_share (x_depth (ps ! t)) = X_LOCK_DECR"
      using pending_depth [OF v] t(2) by (simp add: x_held_def x_reserved_def)
    moreover have "int (x_depth (ps ! t)) < X_LOCK_DECR + 2" using assms(3) t(1) by simp
    ultimately show ?thesis
      using s t(2) X_pos
      by (cases "x_held (ps ! t)") (auto simp: x_share_def x_reserved_def split: if_splits)
  qed
  then show ?thesis using f by (auto simp: rw_lock_validate_def)
qed

theorem rw_lock_valid_witness:
  "\<exists>l. rw_reach 1 False 2 (l, [RHoldX False 2, SSpin (SSleep False 1)]) \<and> rw_lock_validate l"
proof -
  have "map_option snd (rw_run 1 False relock_run (rw_init 2)) =
      Some [RHoldX False 2, SSpin (SSleep False 1)]"
    by code_simp
  then obtain l where "rw_reach 1 False 2 (l, [RHoldX False 2, SSpin (SSleep False 1)])"
    by (rule rw_run_places)
  then show ?thesis
    using rw_lock_valid [of 1 False 2 l "[RHoldX False 2, SSpin (SSleep False 1)]"]
    by (auto simp: X_LOCK_DECR_def)
qed

end
