(* ===== verification/RwLockWake.thy ===== *)
theory RwLockWake
  imports RwLockProps
begin

text \<open>
  No thread that waits for a regular read-write latch is left behind: an invariant that says
  for every sleeping thread which other thread is going to signal its event.
\<close>

section \<open>Waiting threads\<close>

text \<open>A thread waiting for \<open>event\<close> has reserved a cell (0), announced itself (1) or failed its last
  attempt (2); the second component is the ticket in its cell.\<close>

fun s_low_stage :: "s_low_pc \<Rightarrow> (nat \<times> nat) option" where
  "s_low_stage (SDecr hp (SAnnounced c)) = Some (1, c)"
| "s_low_stage (SCas hp (SAnnounced c) v) = Some (1, c)"
| "s_low_stage _ = None"

fun s_spin_stage :: "s_spin_pc \<Rightarrow> (nat \<times> nat) option" where
  "s_spin_stage (SAnnounce hp c) = Some (0, c)"
| "s_spin_stage (SRetry hp c) = Some (1, c)"
| "s_spin_stage (SSleep hp c) = Some (2, c)"
| "s_spin_stage _ = None"

fun x_func_stage :: "x_func_pc \<Rightarrow> (nat \<times> nat) option" where
  "x_func_stage (XAnnounce hp p c d) = Some (0, c)"
| "x_func_stage (XSleep hp p c d) = Some (2, c)"
| "x_func_stage _ = None"

fun x_low_stage :: "x_low_pc \<Rightarrow> (nat \<times> nat) option" where
  "x_low_stage (XReadRec hp p (XAnnounced c) d) = Some (1, c)"
| "x_low_stage (XDecr hp p (XAnnounced c) lr d) = Some (1, c)"
| "x_low_stage (XCas hp p (XAnnounced c) lr v d) = Some (1, c)"
| "x_low_stage (XRelockCheck hp p (XAnnounced c) lr d) = Some (2, c)"
| "x_low_stage _ = None"

fun stage :: "rpc \<Rightarrow> (nat \<times> nat) option" where
  "stage (SLow q) = s_low_stage q" | "stage (SSpin q) = s_spin_stage q"
| "stage (XFunc q) = x_func_stage q" | "stage (XLow q) = x_low_stage q" | "stage _ = None"

text \<open>The next writer, waiting for \<open>wait_ex_event\<close>: it has reserved a cell, or seen readers after
  that.\<close>

fun ex_stage :: "rpc \<Rightarrow> (nat \<times> nat) option" where
  "ex_stage (XWait (WRecheck hp p s c)) = Some (0, c)"
| "ex_stage (XWait (WSleep hp p s c)) = Some (1, c)"
| "ex_stage _ = None"

text \<open>Places that only a priority latch reaches.\<close>

fun s_low_high :: "s_low_pc \<Rightarrow> bool" where
  "s_low_high (SDecr hp s) = hp" | "s_low_high (SCas hp s v) = hp"

fun s_spin_high :: "s_spin_pc \<Rightarrow> bool" where
  "s_spin_high (SLoop hp i) = hp" | "s_spin_high (SSpinRead hp i) = hp"
| "s_spin_high (STryAgain hp i) = hp" | "s_spin_high (SReserve hp) = hp"
| "s_spin_high (SAnnounce hp c) = hp" | "s_spin_high (SRetry hp c) = hp"
| "s_spin_high (SSleep hp c) = hp" | "s_spin_high (SWoken hp) = hp" | "s_spin_high SDecHigh = True"

fun x_func_high :: "x_func_pc \<Rightarrow> bool" where
  "x_func_high (XLoop hp p i d) = hp" | "x_func_high (XElse hp p i d) = hp"
| "x_func_high (XSpinRead hp p i d) = hp" | "x_func_high (XReserve hp p d) = hp"
| "x_func_high (XAnnounce hp p c d) = hp" | "x_func_high (XSleep hp p c d) = hp"
| "x_func_high (XWoken hp p d) = hp" | "x_func_high (XDecHigh p d) = True"

fun x_low_high :: "x_low_pc \<Rightarrow> bool" where
  "x_low_high (XReadRec hp p s d) = hp" | "x_low_high (XDecr hp p s lr d) = hp"
| "x_low_high (XCas hp p s lr v d) = hp" | "x_low_high (XRelockCheck hp p s lr d) = hp"
| "x_low_high (XRelockTest hp p s d) = hp" | "x_low_high (XRelockLoad hp p s k d) = hp"
| "x_low_high (XRelockStore hp p s k v d) = hp" | "x_low_high (XAssertRec hp p s) = hp"
| "x_low_high (XReadWriter hp p s) = hp" | "x_low_high (XCasWriter hp p s w) = hp"
| "x_low_high (XSetRec hp p s) = hp"

fun x_wait_high :: "x_wait_pc \<Rightarrow> bool" where
  "x_wait_high (WMark hp p s) = hp" | "x_wait_high (WLoop hp p s i) = hp"
| "x_wait_high (WReserve hp p s) = hp" | "x_wait_high (WRecheck hp p s c) = hp"
| "x_wait_high (WSleep hp p s c) = hp" | "x_wait_high (WUnmark hp p s) = hp"

fun high_place :: "rpc \<Rightarrow> bool" where
  "high_place (SEnter hp) = hp" | "high_place (SLow q) = s_low_high q"
| "high_place (SSpin q) = s_spin_high q" | "high_place (XFunc q) = x_func_high q"
| "high_place (XLow q) = x_low_high q" | "high_place (XWait q) = x_wait_high q"
| "high_place (SUn q) = (q = SCheckWaiters \<or> q = SResetWaiters \<or> q = SSetEvent)"
| "high_place (XUn q) = (q = XUCheckX \<or> q = XUCheckS \<or> q = XUSetHighX \<or> q = XUSetHighS)"
| "high_place _ = False"

text \<open>The threads a waiter relies on.\<close>

definition releasing :: "rpc \<Rightarrow> bool" where
  "releasing v \<longleftrightarrow> x_reserved v \<or> v = XUn XUCheckWaiters \<or> v = XUn XUResetWaiters \<or> v = XUn XUSetEvent"

definition reserves :: "rpc \<Rightarrow> bool" where
  "reserves pc \<longleftrightarrow> (\<exists>hp. pc = SSpin (SReserve hp)) \<or> (\<exists>hp p d. pc = XFunc (XReserve hp p d))"

definition reserves_ex :: "rpc \<Rightarrow> bool" where
  "reserves_ex pc \<longleftrightarrow> (\<exists>hp p s. pc = XWait (WReserve hp p s))"

text \<open>What a step of a regular latch does to the events, the flag and the waiting thread.\<close>

definition wake_effect :: "rw_lock \<Rightarrow> rpc \<Rightarrow> rw_lock \<Rightarrow> rpc \<Rightarrow> bool" where
  "wake_effect l pc l' pc' \<longleftrightarrow>
     event l' = (if reserves pc then fst (os_event_reset (event l))
       else if pc = XUn XUSetEvent then os_event_set (event l) else event l) \<and>
     wait_ex_event l' = (if reserves_ex pc then fst (os_event_reset (wait_ex_event l))
       else if pc = SUn SSetWaitEx then os_event_set (wait_ex_event l) else wait_ex_event l) \<and>
     (\<forall>k c. stage pc' = Some (k, c) \<longrightarrow>
        (k = 0 \<and> reserves pc \<and> c = snd (os_event_reset (event l))) \<or>
        (\<exists>j\<le>k. stage pc = Some (j, c) \<and> (1 \<le> k \<longrightarrow> waiters l' \<noteq> 0 \<or> 1 \<le> j \<and> waiters l' = waiters l) \<and>
           (k = 2 \<longrightarrow> j = 2 \<or> lock_word l \<le> 0))) \<and>
     (\<forall>k c. ex_stage pc' = Some (k, c) \<longrightarrow>
        (k = 0 \<and> reserves_ex pc \<and> c = snd (os_event_reset (wait_ex_event l))) \<or>
        (ex_stage pc = Some (0, c) \<and> lock_word l < 0 \<and> lock_word l' < 0)) \<and>
     (waiters l \<noteq> 0 \<longrightarrow> waiters l' \<noteq> 0 \<or> pc' = XUn XUSetEvent) \<and>
     (waiters l \<le> 1 \<longrightarrow> waiters l' \<le> 1) \<and>
     (releasing pc \<longrightarrow> releasing pc' \<or> pc = XUn XUSetEvent \<or> waiters l = 0 \<and> pc = XUn XUCheckWaiters) \<and>
     (\<not> x_reserved pc \<longrightarrow> lock_word l < 0 \<longrightarrow> lock_word l' < 0 \<or> pc' = SUn SSetWaitEx) \<and>
     \<not> high_place pc'"

lemmas wake_defs = wake_effect_def reserves_def reserves_ex_def

lemma no_prio [simp]: "\<not> rw_lock_higher_prio_waiters_exist False hp l"
  by (simp add: rw_lock_higher_prio_waiters_exist_def)

lemma releasing_reserved: "x_reserved pc \<Longrightarrow> releasing pc"
  by (simp add: releasing_def)

lemma stage_continue [simp]:
  "stage (s_yes False s) = None" "ex_stage (s_yes hp s) = None" "\<not> high_place (s_yes False s)"
  "ex_stage (s_no rounds hp s) = None" "\<not> high_place (s_no rounds False s)"
  "stage (x_yes hp p xs d) = None" "ex_stage (x_yes hp p xs d) = None" "\<not> high_place (x_yes False p xs d)"
  "ex_stage (x_no hp p xs d) = None" "high_place (x_no hp p xs d) = hp"
  by (cases s; cases xs; simp add: s_spin_fail_def)+

lemma stage_s_no: "stage (s_no rounds hp s) = (case s of SAnnounced c \<Rightarrow> Some (2, c) | _ \<Rightarrow> None)"
  by (cases s) (auto simp: s_spin_fail_def)

lemma stage_x_no: "stage (x_no hp p s d) = (case s of XAnnounced c \<Rightarrow> Some (2, c) | _ \<Rightarrow> None)"
  by (cases s) auto

lemma s_low_wake:
  assumes "rw_lock_s_lock_low rounds pc l = Some (pc', l')" and "\<not> s_low_high pc"
  shows "wake_effect l (SLow pc) l' pc'"
proof (cases pc)
  case (SDecr hp s)
  with assms show ?thesis
    by (cases s) (auto simp: wake_defs decr_defs releasing_def x_reserved_def split: if_splits)
next
  case (SCas hp s v)
  with assms show ?thesis
    by (cases s) (auto simp: wake_defs decr_defs releasing_def x_reserved_def split: if_splits)
qed

lemma s_spin_wake:
  assumes "rw_lock_s_lock_spin rounds False pc l = Some (pc', l')" and "\<not> s_spin_high pc"
  shows "wake_effect l (SSpin pc) l' pc'"
  using assms
  by (cases pc) (auto simp: wake_defs decr_defs releasing_def x_reserved_def split: if_splits prod.splits)

lemma s_unlock_wake:
  assumes "rw_lock_s_unlock_func False pc l = Some (pc', l')" and "\<not> high_place (SUn pc)"
  shows "wake_effect l (SUn pc) l' pc'"
  using assms
  by (cases pc) (auto simp: wake_defs decr_defs releasing_def x_reserved_def split: if_splits prod.splits)

lemma x_wait_wake:
  assumes "rw_lock_x_lock_wait rounds pc l = Some (pc', l')" and "\<not> x_wait_high pc"
  shows "wake_effect l (XWait pc) l' pc'"
  using assms
  by (cases pc) (auto simp: wake_defs decr_defs releasing_def x_reserved_def split: if_splits prod.splits)

lemma x_func_wake:
  assumes "rw_lock_x_lock_func rounds False pc l = Some (pc', l')" and "\<not> x_func_high pc"
  shows "wake_effect l (XFunc pc) l' pc'"
  using assms
  by (cases pc) (auto simp: wake_defs decr_defs releasing_def x_reserved_def split: if_splits prod.splits)

lemma x_low_wake:
  assumes "rw_lock_x_lock_low t pc l = Some (pc', l')" and "\<not> x_low_high pc"
    and "view_ok t l (XLow pc)"
  shows "wake_effect l (XLow pc) l' pc'"
proof -
  have ok: "low_ok t l pc" using assms(3) by (simp add: view_ok_def)
  have "low_reserved pc \<Longrightarrow> \<not> recursive l"
    using assms(3) by (cases pc) (auto simp: view_ok_def x_reserved_def)
  then show ?thesis
    using assms(1,2) ok
    by (cases pc) (auto simp: wake_defs decr_defs releasing_def x_reserved_def stage_x_no
        split: if_splits x_site.splits elim!: x_low_stage.elims)
qed

lemma x_nowait_wake:
  assumes "rw_lock_x_lock_func_nowait t pc l = Some (pc', l')" and "view_ok t l (XNowait pc)"
  shows "wake_effect l (XNowait pc) l' pc'"
proof -
  have ok: "nowait_ok t l pc" using assms(2) by (simp add: view_ok_def)
  show ?thesis
    using assms(1) ok X_pos
    by (cases pc) (auto simp: wake_defs decr_defs releasing_def x_reserved_def split: if_splits)
qed

lemma x_prepare_wake:
  assumes "rw_lock_x_prepare_unlock pc l = Some (pc', l')"
  shows "wake_effect l (XPrep pc) l' pc'"
  using assms
  by (cases pc) (auto simp: wake_defs releasing_def x_reserved_def split: if_splits)

lemma x_unlock_wake:
  assumes "rw_lock_x_unlock_func False pc l = Some (pc', l')" and "\<not> high_place (XUn pc)"
    and "view_ok t l (XUn pc)"
  shows "wake_effect l (XUn pc) l' pc'"
proof (cases "\<exists>p k d. pc = XUIncr p k d")
  case True
  then obtain p k d where pc: "pc = XUIncr p k d" by blast
  then have "d > 0" "k = x_share d - x_share (d - 1)" "lock_word l = X_LOCK_DECR - x_share d"
    using assms(3) by (auto simp: view_ok_def x_held_def)
  moreover from this have "x_share (d - 1) = 0 \<longleftrightarrow> d = 1" using X_pos by (auto simp: x_share_def)
  ultimately show ?thesis
    using assms(1)
    by (auto simp: pc wake_defs decr_defs releasing_def x_reserved_def split: if_splits)
next
  case False
  with assms(1,2) show ?thesis
    by (cases pc) (auto simp: wake_defs decr_defs releasing_def x_reserved_def split: if_splits)
qed

lemma call_places:
  assumes "rw_call False a pc = Some pc'"
  obtains "pc = RIdle" "pc' = SEnter False" | p where "pc = RIdle" "pc' = XFunc (XLoop False p 0 0)"
  | "pc = RIdle" "pc' = XNowait (NReadRec False 0)" | "pc = RHoldS" "pc' = SUn SUnlock"
  | p d where "pc = RHoldX p d" "pc' = XFunc (XLoop False p 0 d)"
  | p d where "pc = RHoldX p d" "pc' = XNowait (NReadRec p d)"
  | p d where "pc = RHoldX p d" "pc' = XPrep (XUTest p d)"
  using assms by (cases a; cases pc) (auto split: if_splits)

lemma call_wake: "rw_call False a pc = Some pc' \<Longrightarrow> wake_effect l pc l pc'"
  by (erule call_places) (auto simp: wake_defs releasing_def x_reserved_def)

lemma enter_wake: "rw_lock_s_lock_func False hp l = Some (pc', l') \<Longrightarrow> \<not> hp \<Longrightarrow> wake_effect l (SEnter hp) l' pc'"
  by (auto simp: wake_defs decr_defs releasing_def x_reserved_def)

lemma thread_wake:
  assumes "rw_thread_step rounds False a t pc l = Some (pc', l')" and "view_ok t l pc"
    and "\<not> high_place pc"
  shows "wake_effect l pc l' pc'"
proof (cases "a = Run")
  case True
  then have "rw_run_step rounds False t pc l = Some (pc', l')"
    using assms(1) by (simp add: rw_thread_step_def)
  then show ?thesis
    using assms(2,3)
    by (cases pc) (simp_all add: enter_wake s_low_wake s_spin_wake s_unlock_wake x_wait_wake
        x_low_wake x_func_wake x_nowait_wake x_prepare_wake x_unlock_wake)
qed (use assms call_wake in \<open>auto simp: rw_thread_step_def\<close>)

section \<open>Invariant\<close>

definition waits :: "rw_lock \<Rightarrow> nat \<Rightarrow> rpc \<Rightarrow> bool" where
  "waits l k pc \<longleftrightarrow> (\<exists>j c. stage pc = Some (j, c) \<and> k \<le> j \<and> os_event_blocks (event l) c)"

definition ex_waits :: "rw_lock \<Rightarrow> rpc \<Rightarrow> bool" where
  "ex_waits l pc \<longleftrightarrow> (\<exists>c. ex_stage pc = Some (1, c) \<and> os_event_blocks (wait_ex_event l) c)"

definition tickets_ok :: "rw_lock \<Rightarrow> rpc \<Rightarrow> bool" where
  "tickets_ok l pc \<longleftrightarrow>
     (\<forall>k c. stage pc = Some (k, c) \<longrightarrow> issued_ticket (event l) c) \<and>
     (\<forall>k c. ex_stage pc = Some (k, c) \<longrightarrow> issued_ticket (wait_ex_event l) c)"

definition wake_inv :: "rconf \<Rightarrow> bool" where
  "wake_inv s \<longleftrightarrow> (case s of (l, ps) \<Rightarrow>
     (\<forall>pc\<in>set ps. \<not> high_place pc \<and> tickets_ok l pc) \<and>
     ((\<exists>pc\<in>set ps. waits l 1 pc) \<longrightarrow> waiters l \<noteq> 0 \<or> XUn XUSetEvent \<in> set ps) \<and>
     ((\<exists>pc\<in>set ps. waits l 2 pc) \<longrightarrow> (\<exists>v\<in>set ps. releasing v)) \<and>
     ((\<exists>pc\<in>set ps. ex_waits l pc) \<longrightarrow> lock_word l < 0 \<or> SUn SSetWaitEx \<in> set ps))"

lemma wakeD:
  assumes "wake_effect l pc l' pc'"
  shows "event l' = (if reserves pc then fst (os_event_reset (event l))
       else if pc = XUn XUSetEvent then os_event_set (event l) else event l)"
    and "wait_ex_event l' = (if reserves_ex pc then fst (os_event_reset (wait_ex_event l))
       else if pc = SUn SSetWaitEx then os_event_set (wait_ex_event l) else wait_ex_event l)"
    and "stage pc' = Some (k, c) \<Longrightarrow>
        (k = 0 \<and> reserves pc \<and> c = snd (os_event_reset (event l))) \<or>
        (\<exists>j\<le>k. stage pc = Some (j, c) \<and> (1 \<le> k \<longrightarrow> waiters l' \<noteq> 0 \<or> 1 \<le> j \<and> waiters l' = waiters l) \<and>
           (k = 2 \<longrightarrow> j = 2 \<or> lock_word l \<le> 0))"
    and "ex_stage pc' = Some (k, c) \<Longrightarrow>
        (k = 0 \<and> reserves_ex pc \<and> c = snd (os_event_reset (wait_ex_event l))) \<or>
        (ex_stage pc = Some (0, c) \<and> lock_word l < 0 \<and> lock_word l' < 0)"
    and "waiters l \<noteq> 0 \<Longrightarrow> waiters l' \<noteq> 0 \<or> pc' = XUn XUSetEvent"
    and "releasing pc \<Longrightarrow> releasing pc' \<or> pc = XUn XUSetEvent \<or> waiters l = 0 \<and> pc = XUn XUCheckWaiters"
    and "\<not> x_reserved pc \<Longrightarrow> lock_word l < 0 \<Longrightarrow> lock_word l' < 0 \<or> pc' = SUn SSetWaitEx"
    and "\<not> high_place pc'"
  using assms by (auto simp: wake_effect_def)

lemma stage_places: "stage pc = Some r \<Longrightarrow> \<not> reserves pc \<and> pc \<noteq> XUn q"
  by (auto simp: reserves_def)

lemma ex_stage_places: "ex_stage pc = Some r \<Longrightarrow> \<not> reserves_ex pc \<and> pc \<noteq> SUn q"
  by (auto simp: reserves_ex_def)

lemma stage_bound: "stage pc = Some (k, c) \<Longrightarrow> k \<le> 2"
proof (cases pc)
  case (SLow q)
  then show "stage pc = Some (k, c) \<Longrightarrow> k \<le> 2" by (auto elim!: s_low_stage.elims)
next
  case (SSpin q)
  then show "stage pc = Some (k, c) \<Longrightarrow> k \<le> 2" by (auto elim!: s_spin_stage.elims)
next
  case (XFunc q)
  then show "stage pc = Some (k, c) \<Longrightarrow> k \<le> 2" by (auto elim!: x_func_stage.elims)
next
  case (XLow q)
  then show "stage pc = Some (k, c) \<Longrightarrow> k \<le> 2" by (auto elim!: x_low_stage.elims)
qed auto

text \<open>Tickets of other threads: only a signal changes whether they block.\<close>

lemma event_kept:
  assumes "wake_effect l pc l' pc'"
  shows "issued_ticket (event l) c \<Longrightarrow> issued_ticket (event l') c"
    and "issued_ticket (wait_ex_event l) c \<Longrightarrow> issued_ticket (wait_ex_event l') c"
    and "issued_ticket (event l) c \<Longrightarrow> os_event_blocks (event l') c \<Longrightarrow>
      os_event_blocks (event l) c \<and> pc \<noteq> XUn XUSetEvent"
    and "issued_ticket (wait_ex_event l) c \<Longrightarrow> os_event_blocks (wait_ex_event l') c \<Longrightarrow>
      os_event_blocks (wait_ex_event l) c \<and> pc \<noteq> SUn SSetWaitEx"
  by (auto simp: wakeD(1,2) [OF assms] issued_ticket_kept reserves_def reserves_ex_def split: if_splits)

lemma other_waits:
  assumes "wake_effect l pc l' pc'" and "tickets_ok l q"
  shows "tickets_ok l' q" and "waits l' k q \<Longrightarrow> waits l k q \<and> pc \<noteq> XUn XUSetEvent"
    and "ex_waits l' q \<Longrightarrow> ex_waits l q \<and> pc \<noteq> SUn SSetWaitEx"
proof -
  show "tickets_ok l' q" using assms(2) event_kept(1,2) [OF assms(1)] by (auto simp: tickets_ok_def)
  show "waits l k q \<and> pc \<noteq> XUn XUSetEvent" if "waits l' k q"
    using that assms(2) event_kept(3) [OF assms(1)] unfolding waits_def tickets_ok_def by blast
  show "ex_waits l q \<and> pc \<noteq> SUn SSetWaitEx" if "ex_waits l' q"
    using that assms(2) event_kept(4) [OF assms(1)] unfolding ex_waits_def tickets_ok_def by blast
qed

lemma own_tickets:
  assumes e: "wake_effect l pc l' pc'" and ok: "tickets_ok l pc"
  shows "tickets_ok l' pc'"
proof -
  have "issued_ticket (event l') c" if st: "stage pc' = Some (k, c)" for k c
    using wakeD(3) [OF e st]
  proof (elim disjE)
    assume r: "k = 0 \<and> reserves pc \<and> c = snd (os_event_reset (event l))"
    then have "os_event_reset (event l) = (event l', c)" using wakeD(1) [OF e] by simp
    then show ?thesis by (rule reset_ticket)
  qed (use ok event_kept(1) [OF e] in \<open>auto simp: tickets_ok_def\<close>)
  moreover have "issued_ticket (wait_ex_event l') c" if st: "ex_stage pc' = Some (k, c)" for k c
    using wakeD(4) [OF e st]
  proof (elim disjE)
    assume r: "k = 0 \<and> reserves_ex pc \<and> c = snd (os_event_reset (wait_ex_event l))"
    then have "os_event_reset (wait_ex_event l) = (wait_ex_event l', c)" using wakeD(2) [OF e] by simp
    then show ?thesis by (rule reset_ticket)
  qed (use ok event_kept(2) [OF e] in \<open>auto simp: tickets_ok_def\<close>)
  ultimately show ?thesis by (auto simp: tickets_ok_def)
qed

lemma own_waits:
  assumes e: "wake_effect l pc l' pc'" and ok: "tickets_ok l pc" and "waits l' k pc'" and "1 \<le> k"
  shows "pc \<noteq> XUn XUSetEvent \<and> (waiters l' \<noteq> 0 \<or> waits l 1 pc) \<and>
    (k = 2 \<longrightarrow> waits l 2 pc \<or> lock_word l \<le> 0)"
proof -
  from assms(3) obtain i c where st: "stage pc' = Some (i, c)" "k \<le> i"
    and b: "os_event_blocks (event l') c"
    by (auto simp: waits_def)
  from wakeD(3) [OF e st(1)] st(2) assms(4) obtain j where j: "stage pc = Some (j, c)"
    "waiters l' \<noteq> 0 \<or> 1 \<le> j" "i = 2 \<longrightarrow> j = 2 \<or> lock_word l \<le> 0"
    by auto
  have "issued_ticket (event l) c" using ok j(1) by (auto simp: tickets_ok_def)
  with event_kept(3) [OF e this b] have "os_event_blocks (event l) c" by simp
  moreover have "k = 2 \<longrightarrow> i = 2" using stage_bound [OF st(1)] st(2) by auto
  ultimately show ?thesis using j stage_places [OF j(1)] by (auto simp: waits_def)
qed

lemma own_ex_waits:
  assumes e: "wake_effect l pc l' pc'" and "ex_waits l' pc'"
  shows "lock_word l' < 0"
  using assms(2) wakeD(4) [OF e] by (auto simp: ex_waits_def)

lemma update_cases:
  "q \<in> set (ps[t := pc']) \<Longrightarrow> q = pc' \<or> q \<in> set ps"
  using set_update_subset_insert [of ps t pc'] by blast

lemma announced_step:
  assumes inv: "wake_inv (l, ps)" and t: "t < length ps" and e: "wake_effect l (ps ! t) l' pc'"
    and q: "q \<in> set (ps[t := pc'])" "waits l' 1 q"
  shows "waiters l' \<noteq> 0 \<or> XUn XUSetEvent \<in> set (ps[t := pc'])"
proof -
  have ok: "tickets_ok l p" if "p \<in> set ps" for p using inv that by (auto simp: wake_inv_def)
  have pt: "ps ! t \<in> set ps" using t by simp
  have old: ?thesis if "p \<in> set ps" "waits l 1 p" "ps ! t \<noteq> XUn XUSetEvent" for p
  proof -
    from inv that(1,2) consider "waiters l \<noteq> 0" | "XUn XUSetEvent \<in> set ps" by (auto simp: wake_inv_def)
    then show ?thesis
      using wakeD(5) [OF e] own_in_update [OF t, of pc'] in_set_update [OF t, of _ pc'] that(3) by metis
  qed
  from update_cases [OF q(1)] show ?thesis
  proof
    assume "q = pc'"
    with own_waits [OF e ok [OF pt], of 1] q(2) old [OF pt] show ?thesis by auto
  next
    assume "q \<in> set ps"
    with other_waits(2) [OF e ok q(2)] old show ?thesis by blast
  qed
qed

lemma sleeper_step:
  assumes rinv: "rw_inv (l, ps)" and n: "int (length ps) < X_LOCK_DECR"
    and inv: "wake_inv (l, ps)" and t: "t < length ps" and e: "wake_effect l (ps ! t) l' pc'"
    and q: "q \<in> set (ps[t := pc'])" "waits l' 2 q"
  shows "\<exists>v\<in>set (ps[t := pc']). releasing v"
proof -
  have ok: "tickets_ok l p" if "p \<in> set ps" for p using inv that by (auto simp: wake_inv_def)
  have pt: "ps ! t \<in> set ps" using t by simp
  have keep: ?thesis if "v \<in> set ps" "releasing v" "v \<noteq> ps ! t" for v
    using in_set_update [OF t that(1,3)] that(2) by blast
  have old: ?thesis if p: "p \<in> set ps" "waits l 2 p" "ps ! t \<noteq> XUn XUSetEvent" for p
  proof -
    from inv p obtain v where v: "v \<in> set ps" "releasing v" by (auto simp: wake_inv_def)
    have "waits l 1 p" using p(2) by (auto simp: waits_def)
    with inv p(1) have s: "waiters l = 0 \<Longrightarrow> XUn XUSetEvent \<in> set ps" by (auto simp: wake_inv_def)
    show ?thesis
    proof (cases "v = ps ! t")
      case True
      with wakeD(6) [OF e] v(2) p(3) have "releasing pc' \<or> waiters l = 0" by auto
      then show ?thesis
        using own_in_update [OF t, of pc'] s keep p(3) by (auto simp: releasing_def)
    qed (use keep v in blast)
  qed
  from update_cases [OF q(1)] show ?thesis
  proof
    assume "q = pc'"
    with q(2) have w: "waits l' 2 pc'" by simp
    from own_waits [OF e ok [OF pt] w] have "ps ! t \<noteq> XUn XUSetEvent"
      "waits l 2 (ps ! t) \<or> lock_word l \<le> 0" by auto
    moreover have ?thesis if "lock_word l \<le> 0"
    proof -
      obtain v where v: "v \<in> set ps" "x_reserved v" using reserved_exists [OF rinv n \<open>lock_word l \<le> 0\<close>] by blast
      then have "v = ps ! t \<Longrightarrow> releasing pc'"
        using wakeD(6) [OF e] \<open>ps ! t \<noteq> XUn XUSetEvent\<close> by (auto simp: releasing_def x_reserved_def)
      with keep [OF v(1)] v(2) own_in_update [OF t, of pc'] show ?thesis
        using releasing_reserved by blast
    qed
    ultimately show ?thesis using old [OF pt] by blast
  next
    assume "q \<in> set ps"
    with other_waits(2) [OF e ok q(2)] old show ?thesis by blast
  qed
qed

lemma ex_waits_stuck:
  assumes "ex_waits l pc"
  shows "rw_thread_step rounds prio a t pc l = None" and "x_reserved pc" and "pending pc"
proof -
  from assms obtain hp p s c where "pc = XWait (WSleep hp p s c)" "os_event_blocks (wait_ex_event l) c"
    by (auto simp: ex_waits_def elim!: ex_stage.elims)
  then show "rw_thread_step rounds prio a t pc l = None" "x_reserved pc" "pending pc"
    by (cases a; simp add: rw_thread_step_def x_reserved_def)+
qed

lemma ex_sleeper_step:
  assumes rinv: "rw_inv (l, ps)" and inv: "wake_inv (l, ps)" and t: "t < length ps"
    and st: "rw_thread_step rounds prio a t (ps ! t) l = Some (pc', l')"
    and e: "wake_effect l (ps ! t) l' pc'" and q: "q \<in> set (ps[t := pc'])" "ex_waits l' q"
  shows "lock_word l' < 0 \<or> SUn SSetWaitEx \<in> set (ps[t := pc'])"
  using update_cases [OF q(1)]
proof
  assume "q \<in> set ps"
  then obtain u where u: "u < length ps" "q = ps ! u" by (auto simp: in_set_conv_nth)
  have "tickets_ok l q" using inv \<open>q \<in> set ps\<close> by (auto simp: wake_inv_def)
  from other_waits(3) [OF e this q(2)] have w: "ex_waits l q" "ps ! t \<noteq> SUn SSetWaitEx" by auto
  then have "u \<noteq> t" using ex_waits_stuck(1) [OF w(1)] st u(2) by auto
  then have nr: "\<not> x_reserved (ps ! t)"
    using reserved_unique [OF rinv u(1) t] ex_waits_stuck(2) [OF w(1)] u(2) by auto
  from inv \<open>q \<in> set ps\<close> w(1) consider "lock_word l < 0" | "SUn SSetWaitEx \<in> set ps"
    by (auto simp: wake_inv_def)
  then show ?thesis
    using wakeD(7) [OF e nr] own_in_update [OF t, of pc'] in_set_update [OF t, of _ pc'] w(2) by metis
qed (use q(2) own_ex_waits [OF e] in blast)

lemma wake_inv_step:
  assumes rinv: "rw_inv (l, ps)" and n: "int (length ps) < X_LOCK_DECR" and inv: "wake_inv (l, ps)"
    and "rw_step rounds False a t (l, ps) = Some s'"
  shows "wake_inv s'"
proof -
  from assms(4) obtain pc' l' where t: "t < length ps" and s': "s' = (l', ps[t := pc'])"
    and st: "rw_thread_step rounds False a t (ps ! t) l = Some (pc', l')"
    by (rule rw_step_cases)
  have ok: "\<not> high_place p \<and> tickets_ok l p" if "p \<in> set ps" for p
    using inv that by (auto simp: wake_inv_def)
  have e: "wake_effect l (ps ! t) l' pc'"
    using st view_of [OF rinv t] ok [of "ps ! t"] t by (intro thread_wake) auto
  have "\<forall>p\<in>set (ps[t := pc']). \<not> high_place p \<and> tickets_ok l' p"
    using ok other_waits(1) [OF e] own_tickets [OF e] wakeD(8) [OF e] t update_cases [of _ ps t pc']
    by (metis nth_mem)
  then show ?thesis
    using announced_step [OF inv t e] sleeper_step [OF rinv n inv t e] ex_sleeper_step [OF rinv inv t st e]
    by (auto simp: wake_inv_def s')
qed

lemma wake_inv_init: "wake_inv (rw_init n)"
  by (auto simp: wake_inv_def rw_init_def waits_def ex_waits_def tickets_ok_def)

lemma rw_reach_wake:
  "rw_reach rounds False n s \<Longrightarrow> int n < X_LOCK_DECR \<Longrightarrow> wake_inv s"
proof (induction rule: rw_reach.induct)
  case (step s a t s')
  obtain l ps where s: "s = (l, ps)" by (cases s)
  have "rw_inv (l, ps)" "length ps = n"
    using rw_reach_inv [OF step.hyps(1)] rw_reach_length [OF step.hyps(1)] by (auto simp: s)
  with step show ?case unfolding s by (metis wake_inv_step)
qed (rule wake_inv_init)

text \<open>A thread inside one of the functions that is not asleep can make a step.\<close>

lemma rw_run_enabled:
  assumes "\<not> rw_asleep l pc" and "pc \<noteq> RIdle" "pc \<noteq> RHoldS" "pc \<noteq> RFault" "\<And>p d. pc \<noteq> RHoldX p d"
  shows "\<exists>r. rw_run_step rounds prio t pc l = Some r"
proof (cases pc)
  case (SLow q)
  then show ?thesis by (cases q) (auto simp: decr_defs)
next
  case (SSpin q)
  with assms(1) show ?thesis by (cases q) (auto split: prod.splits)
next
  case (SUn q)
  then show ?thesis by (cases q) (auto simp: decr_defs)
next
  case (XWait q)
  with assms(1) show ?thesis by (cases q) (auto split: prod.splits)
next
  case (XLow q)
  then show ?thesis by (cases q) (auto simp: decr_defs)
next
  case (XFunc q)
  with assms(1) show ?thesis by (cases q) (auto split: prod.splits)
next
  case (XNowait q)
  then show ?thesis by (cases q) auto
next
  case (XPrep q)
  then show ?thesis by (cases q) auto
next
  case (XUn q)
  then show ?thesis by (cases q) (auto simp: decr_defs)
qed (use assms in \<open>auto simp: decr_defs\<close>)

lemma asleep_waits:
  assumes "rw_asleep l pc" and "\<not> high_place pc"
  shows "waits l 2 pc \<or> ex_waits l pc"
proof (cases pc)
  case (SSpin q)
  with assms show ?thesis by (cases q) (auto simp: waits_def)
next
  case (XFunc q)
  with assms show ?thesis by (cases q) (auto simp: waits_def)
next
  case (XWait q)
  with assms show ?thesis by (cases q) (auto simp: ex_waits_def)
qed (use assms in auto)

lemma releasing_asleep:
  assumes "releasing v" "rw_asleep l v" "place_ok t l v"
  shows "ex_waits l v"
proof (cases v)
  case (SSpin q)
  with assms show ?thesis by (auto simp: releasing_def x_reserved_def)
next
  case (XFunc q)
  with assms show ?thesis by (cases q) (auto simp: releasing_def x_reserved_def)
next
  case (XWait q)
  with assms(2) show ?thesis by (cases q) (auto simp: ex_waits_def)
qed (use assms(2) in auto)

lemma s_held_awake: "s_held v \<Longrightarrow> v \<noteq> RIdle \<and> \<not> rw_asleep l v"
  by (cases v) auto

lemma ex_sleeper_supported:
  assumes rinv: "rw_inv (l, ps)" and inv: "wake_inv (l, ps)" and u: "u < length ps" "ex_waits l (ps ! u)"
  shows "\<exists>v\<in>set ps. v \<noteq> RIdle \<and> \<not> rw_asleep l v"
proof -
  have "lock_word l < 0 \<or> SUn SSetWaitEx \<in> set ps" using inv u by (auto simp: wake_inv_def)
  then show ?thesis
  proof
    assume "lock_word l < 0"
    then have "\<exists>v\<in>set ps. s_held v"
      using readers_exist [OF rinv u(1)] ex_waits_stuck(3) [OF u(2)] pending_depth [OF view_of [OF rinv u(1)]]
      by blast
    then show ?thesis using s_held_awake by blast
  qed force
qed

section \<open>Properties\<close>

text \<open>C39: No lost wake-up in a regular read-write latch: whenever a thread is asleep, waiting for a
  shared or an exclusive lock or, as the next writer, for the readers to leave, some thread is
  awake and either holds the latch or can make a step, and a thread that already holds the
  latch exclusively never sleeps when it locks it again.\<close>

theorem rw_no_lost_wakeup:
  assumes "rw_reach rounds False n (l, ps)" and "int n < X_LOCK_DECR"
    and "t < n" and "rw_asleep l (ps ! t)"
  shows "(\<exists>u<n. ps ! u \<noteq> RIdle \<and> \<not> rw_asleep l (ps ! u) \<and>
      (ps ! u = RHoldS \<or> (\<exists>p d. ps ! u = RHoldX p d) \<or>
       (\<exists>r. rw_run_step rounds False u (ps ! u) l = Some r))) \<and> \<not> x_held (ps ! t)"
proof -
  have rinv: "rw_inv (l, ps)" and len: "length ps = n" and inv: "wake_inv (l, ps)"
    using rw_reach_inv [OF assms(1)] rw_reach_length [OF assms(1)] rw_reach_wake [OF assms(1,2)] by auto
  have nf: "place_ok u l (ps ! u)" if "u < n" for u using view_place [OF view_of [OF rinv]] that len by simp
  have sup: "\<exists>v\<in>set ps. v \<noteq> RIdle \<and> \<not> rw_asleep l v"
  proof (cases "ex_waits l (ps ! t)")
    case True
    then show ?thesis using ex_sleeper_supported [OF rinv inv] assms(3) len by blast
  next
    case False
    then have "waits l 2 (ps ! t)" using asleep_waits [OF assms(4)] inv assms(3) len by (auto simp: wake_inv_def)
    then obtain v where "v \<in> set ps" "releasing v" using inv assms(3) len by (auto simp: wake_inv_def)
    then obtain u where u: "u < length ps" "releasing (ps ! u)" by (auto simp: in_set_conv_nth)
    have "ps ! u \<in> set ps" "ps ! u \<noteq> RIdle" using u by (auto simp: releasing_def x_reserved_def)
    then show ?thesis
      using releasing_asleep [OF u(2) _ nf] ex_sleeper_supported [OF rinv inv u(1)] len u(1) by blast
  qed
  then obtain u where u: "u < n" "ps ! u \<noteq> RIdle" "\<not> rw_asleep l (ps ! u)"
    using len by (auto simp: in_set_conv_nth)
  have "ps ! u \<noteq> RFault" using nf [OF u(1)] by auto
  with rw_run_enabled [OF u(3,2)] u have "\<exists>u<n. ps ! u \<noteq> RIdle \<and> \<not> rw_asleep l (ps ! u) \<and>
      (ps ! u = RHoldS \<or> (\<exists>p d. ps ! u = RHoldX p d) \<or>
       (\<exists>r. rw_run_step rounds False u (ps ! u) l = Some r))" by blast
  moreover have "\<not> x_held (ps ! t)"
  proof
    assume "x_held (ps ! t)"
    then have "ex_waits l (ps ! t)"
      using releasing_asleep [OF _ assms(4) nf [OF assms(3)]] held_reserved by (simp add: releasing_def)
    with \<open>x_held (ps ! t)\<close> show False using ex_waits_stuck(3) by (simp add: x_held_def)
  qed
  ultimately show ?thesis ..
qed

theorem rw_no_lost_wakeup_witness:
  "\<exists>l. rw_reach 1 False 2 (l, [RHoldX False 2, SSpin (SSleep False 1)]) \<and>
     rw_asleep l (SSpin (SSleep False 1)) \<and> \<not> x_held (SSpin (SSleep False 1))"
proof -
  have "map_option (\<lambda>(l, ps). (rw_asleep l (ps ! 1), ps)) (rw_run 1 False relock_run (rw_init 2)) =
      Some (True, [RHoldX False 2, SSpin (SSleep False 1)])"
    by code_simp
  then obtain l where "rw_run 1 False relock_run (rw_init 2) = Some (l, [RHoldX False 2, SSpin (SSleep False 1)])"
    and a: "rw_asleep l (SSpin (SSleep False 1))"
    by (auto split: option.splits)
  then have "rw_reach 1 False 2 (l, [RHoldX False 2, SSpin (SSleep False 1)])"
    using rw_run_reach [OF rw_reach.init] by blast
  with a show ?thesis
    using rw_no_lost_wakeup [of 1 2 l "[RHoldX False 2, SSpin (SSleep False 1)]" 1]
    by (intro exI [of _ l]) (simp add: X_LOCK_DECR_def)
qed

end
