(* ===== verification/SyncArray.thy ===== *)
theory SyncArray
  imports SyncMutex RwLock
begin

text \<open>
  The wait array of XtraDB (\<open>sync/sync0arr.cc\<close>, \<open>include/sync0arr.ic\<close>): cells that threads reserve
  before they sleep, the monitor that wakes threads whose object is free, and the deadlock
  detection of the debugging variant. What is done while the array's operating system mutex is
  held is one step. The mutexes and latches a cell can point to exist as long as the cell is
  reserved, so memory is a function from addresses to objects. File names, lines and printing
  are left out.
\<close>

section \<open>State\<close>

record sync_cell =
  wait_object :: "nat option"
  old_wait_mutex :: "nat option"
  old_wait_rw_lock :: "nat option"
  request_type :: lock_type
  thread :: "nat option"
  waiting :: bool
  cell_signal_count :: nat
  reservation_time :: nat

record sync_array =
  n_reserved :: nat
  n_cells :: nat
  array :: "sync_cell list"
  os_mutex :: "nat option"
  res_count :: ulint

text \<open>An entry of the list of holders that a latch keeps in the debugging variant.\<close>

record rw_lock_debug =
  debug_thread :: nat
  pass :: nat
  debug_type :: lock_type

record sync_objects =
  mutexes :: "nat \<Rightarrow> ib_mutex"
  latches :: "nat \<Rightarrow> rw_lock"
  debug_lists :: "nat \<Rightarrow> rw_lock_debug list"

section \<open>Cells\<close>

definition sync_array_get_nth_cell :: "sync_array \<Rightarrow> nat \<Rightarrow> sync_cell res" where
  "sync_array_get_nth_cell arr n = (if n < n_cells arr then aget (array arr) n else Inl AssertFail)"

text \<open>A loop over the cells from \<open>i\<close> on has \<open>k\<close> cells left.\<close>

fun find_thread_loop :: "sync_array \<Rightarrow> nat \<Rightarrow> nat \<Rightarrow> nat \<Rightarrow> nat option res" where
  "find_thread_loop arr t i 0 = Inr None"
| "find_thread_loop arr t i (Suc k) =
     rbind (sync_array_get_nth_cell arr i) (\<lambda>c.
     if wait_object c \<noteq> None \<and> thread c = Some t then Inr (Some i)
     else find_thread_loop arr t (i + 1) k)"

definition sync_array_find_thread :: "sync_array \<Rightarrow> nat \<Rightarrow> nat option res" where
  "sync_array_find_thread arr t = find_thread_loop arr t 0 (n_cells arr)"

definition sync_array_enter :: "nat \<Rightarrow> sync_array \<Rightarrow> sync_array option" where
  "sync_array_enter t arr = (if os_mutex arr = None then Some (arr\<lparr>os_mutex := Some t\<rparr>) else None)"

definition sync_array_exit :: "sync_array \<Rightarrow> sync_array" where
  "sync_array_exit arr = arr\<lparr>os_mutex := None\<rparr>"

text \<open>Memory is zeroed; a zero request type stands for no request.\<close>

definition zero_cell :: sync_cell where
  "zero_cell = \<lparr>wait_object = None, old_wait_mutex = None, old_wait_rw_lock = None,
     request_type = RW_LOCK_NOT_LOCKED, thread = None, waiting = False, cell_signal_count = 0,
     reservation_time = 0\<rparr>"

definition sync_array_create :: "nat \<Rightarrow> sync_array res" where
  "sync_array_create n =
     (if n > 0 then Inr \<lparr>n_reserved = 0, n_cells = n, array = replicate n zero_cell,
        os_mutex = None, res_count = 0\<rparr>
      else Inl AssertFail)"

fun count_loop :: "sync_array \<Rightarrow> nat \<Rightarrow> nat \<Rightarrow> nat \<Rightarrow> nat res" where
  "count_loop arr count i 0 = Inr count"
| "count_loop arr count i (Suc k) =
     rbind (sync_array_get_nth_cell arr i) (\<lambda>c.
     count_loop arr (if wait_object c \<noteq> None then count + 1 else count) (i + 1) k)"

definition sync_array_validate :: "nat \<Rightarrow> sync_array \<Rightarrow> sync_array res option" where
  "sync_array_validate t arr =
     (case sync_array_enter t arr of None \<Rightarrow> None
      | Some arr \<Rightarrow> Some (rbind (count_loop arr 0 0 (n_cells arr)) (\<lambda>count.
          if count = n_reserved arr then Inr (sync_array_exit arr) else Inl AssertFail)))"

text \<open>An event is referred to by the object it is embedded in.\<close>

datatype event_ref = MutexEvent nat | MutexHighEvent nat | LatchEvent nat | LatchWaitEx nat
  | LatchHighS nat | LatchHighX nat

definition sync_cell_get_event :: "sync_cell \<Rightarrow> event_ref res" where
  "sync_cell_get_event c =
     (case wait_object c of None \<Rightarrow> Inl NullDeref
      | Some a \<Rightarrow>
          Inr (if request_type c = SYNC_MUTEX then MutexEvent a
            else if request_type c = SYNC_PRIO_MUTEX then MutexHighEvent a
            else if request_type c = RW_LOCK_WAIT_EX then LatchWaitEx a
            else if request_type c = PRIO_RW_LOCK_SHARED then LatchHighS a
            else if request_type c = PRIO_RW_LOCK_EX then LatchHighX a
            else LatchEvent a))"

fun event_at :: "sync_objects \<Rightarrow> event_ref \<Rightarrow> os_event" where
  "event_at w (MutexEvent a) = ib_mutex.event (mutexes w a)"
| "event_at w (MutexHighEvent a) = high_priority_event (mutexes w a)"
| "event_at w (LatchEvent a) = rw_lock.event (latches w a)"
| "event_at w (LatchWaitEx a) = wait_ex_event (latches w a)"
| "event_at w (LatchHighS a) = high_priority_s_event (latches w a)"
| "event_at w (LatchHighX a) = high_priority_x_event (latches w a)"

definition upd_mutex :: "sync_objects \<Rightarrow> nat \<Rightarrow> (ib_mutex \<Rightarrow> ib_mutex) \<Rightarrow> sync_objects" where
  "upd_mutex w a f = w\<lparr>mutexes := (mutexes w)(a := f (mutexes w a))\<rparr>"

definition upd_latch :: "sync_objects \<Rightarrow> nat \<Rightarrow> (rw_lock \<Rightarrow> rw_lock) \<Rightarrow> sync_objects" where
  "upd_latch w a f = w\<lparr>latches := (latches w)(a := f (latches w a))\<rparr>"

fun put_event :: "sync_objects \<Rightarrow> event_ref \<Rightarrow> os_event \<Rightarrow> sync_objects" where
  "put_event w (MutexEvent a) e = upd_mutex w a (ib_mutex.event_update (\<lambda>_. e))"
| "put_event w (MutexHighEvent a) e = upd_mutex w a (high_priority_event_update (\<lambda>_. e))"
| "put_event w (LatchEvent a) e = upd_latch w a (rw_lock.event_update (\<lambda>_. e))"
| "put_event w (LatchWaitEx a) e = upd_latch w a (wait_ex_event_update (\<lambda>_. e))"
| "put_event w (LatchHighS a) e = upd_latch w a (high_priority_s_event_update (\<lambda>_. e))"
| "put_event w (LatchHighX a) e = upd_latch w a (high_priority_x_event_update (\<lambda>_. e))"

section \<open>Reserving, waiting, freeing\<close>

fun free_loop :: "sync_array \<Rightarrow> nat \<Rightarrow> nat \<Rightarrow> nat option res" where
  "free_loop arr i 0 = Inr None"
| "free_loop arr i (Suc k) =
     rbind (sync_array_get_nth_cell arr i) (\<lambda>c.
     if wait_object c = None then Inr (Some i) else free_loop arr (i + 1) k)"

definition reserve_in :: "sync_cell \<Rightarrow> nat \<Rightarrow> lock_type \<Rightarrow> sync_cell" where
  "reserve_in c obj ty =
     (let c = c\<lparr>waiting := False, wait_object := Some obj\<rparr>;
          c = (if ty = SYNC_MUTEX \<or> ty = SYNC_PRIO_MUTEX then c\<lparr>old_wait_mutex := Some obj\<rparr>
               else c\<lparr>old_wait_rw_lock := Some obj\<rparr>)
      in c\<lparr>request_type := ty\<rparr>)"

text \<open>The part of \<open>sync_array_reserve_cell\<close> under the mutex. If no cell is free it returns with the
  mutex held.\<close>

definition sync_array_reserve_cell ::
  "nat \<Rightarrow> nat \<Rightarrow> lock_type \<Rightarrow> sync_array \<Rightarrow> (nat option \<times> sync_array) res option" where
  "sync_array_reserve_cell t obj ty arr =
     (case sync_array_enter t arr of None \<Rightarrow> None
      | Some arr \<Rightarrow>
          let arr = arr\<lparr>res_count := res_count arr + 1\<rparr> in
          Some (rbind (free_loop arr 0 (n_cells arr)) (\<lambda>r.
            case r of
              None \<Rightarrow> Inr (None, arr)
            | Some i \<Rightarrow>
                rbind (sync_array_get_nth_cell arr i) (\<lambda>c.
                rbind (aset (array arr) i (reserve_in c obj ty)) (\<lambda>cells.
                Inr (Some i, sync_array_exit
                  (arr\<lparr>array := cells, n_reserved := n_reserved arr + 1\<rparr>)))))))"

text \<open>The rest of it, after the mutex has been released; \<open>now\<close> is the time.\<close>

definition reserve_reset ::
  "nat \<Rightarrow> nat \<Rightarrow> nat \<Rightarrow> sync_array \<Rightarrow> sync_objects \<Rightarrow> (sync_array \<times> sync_objects) res" where
  "reserve_reset t now i arr w =
     rbind (aget (array arr) i) (\<lambda>c.
     rbind (sync_cell_get_event c) (\<lambda>r.
     case os_event_reset (event_at w r) of (e, n) \<Rightarrow>
     rbind (aset (array arr) i
        (c\<lparr>cell_signal_count := n, reservation_time := now, thread := Some t\<rparr>)) (\<lambda>cells.
     Inr (arr\<lparr>array := cells\<rparr>, put_event w r e))))"

text \<open>\<open>sync_array_wait_event\<close>: the part under the mutex, and whether the wait blocks.\<close>

definition sync_array_wait_event :: "nat \<Rightarrow> nat \<Rightarrow> sync_array \<Rightarrow> sync_array res option" where
  "sync_array_wait_event t i arr =
     (case sync_array_enter t arr of None \<Rightarrow> None
      | Some arr \<Rightarrow> Some (
          rbind (sync_array_get_nth_cell arr i) (\<lambda>c.
          if wait_object c = None \<or> waiting c then Inl AssertFail
          else rbind (aset (array arr) i (c\<lparr>waiting := True\<rparr>)) (\<lambda>cells.
            Inr (sync_array_exit (arr\<lparr>array := cells\<rparr>))))))"

definition cell_blocks :: "sync_array \<Rightarrow> sync_objects \<Rightarrow> nat \<Rightarrow> bool res" where
  "cell_blocks arr w i =
     rbind (aget (array arr) i) (\<lambda>c.
     rbind (sync_cell_get_event c) (\<lambda>r.
     Inr (os_event_blocks (event_at w r) (cell_signal_count c))))"

definition sync_array_free_cell :: "nat \<Rightarrow> nat \<Rightarrow> sync_array \<Rightarrow> sync_array res option" where
  "sync_array_free_cell t i arr =
     (case sync_array_enter t arr of None \<Rightarrow> None
      | Some arr \<Rightarrow> Some (
          rbind (sync_array_get_nth_cell arr i) (\<lambda>c.
          if wait_object c = None then Inl AssertFail
          else rbind (aset (array arr) i
              (c\<lparr>waiting := False, wait_object := None, cell_signal_count := 0\<rparr>)) (\<lambda>cells.
            let arr = arr\<lparr>array := cells\<rparr> in
            if n_reserved arr > 0
            then Inr (sync_array_exit (arr\<lparr>n_reserved := n_reserved arr - 1\<rparr>))
            else Inl AssertFail))))"

definition sync_array_free :: "nat \<Rightarrow> sync_array \<Rightarrow> unit res option" where
  "sync_array_free t arr =
     (if n_reserved arr = 0 then
        (case sync_array_validate t arr of None \<Rightarrow> None
         | Some r \<Rightarrow> Some (rbind r (\<lambda>arr. Inr ())))
      else Some (Inl AssertFail))"

section \<open>The monitor\<close>

definition sync_arr_cell_can_wake_up :: "sync_objects \<Rightarrow> sync_cell \<Rightarrow> bool res" where
  "sync_arr_cell_can_wake_up w c =
     (case wait_object c of None \<Rightarrow> Inl NullDeref
      | Some a \<Rightarrow>
          if request_type c = SYNC_MUTEX \<or> request_type c = SYNC_PRIO_MUTEX
          then Inr (mutex_get_lock_word (mutexes w a) = 0)
          else if request_type c = RW_LOCK_EX \<or> request_type c = PRIO_RW_LOCK_EX
          then Inr (rw_lock.lock_word (latches w a) > 0)
          else if request_type c = RW_LOCK_WAIT_EX
          then Inr (rw_lock.lock_word (latches w a) = 0)
          else if request_type c = RW_LOCK_SHARED \<or> request_type c = PRIO_RW_LOCK_SHARED
          then Inr (rw_lock.lock_word (latches w a) > 0)
          else Inl AssertFail)"

definition wake_cell :: "sync_objects \<Rightarrow> sync_cell \<Rightarrow> sync_objects res" where
  "wake_cell w c =
     rbind (sync_arr_cell_can_wake_up w c) (\<lambda>b.
     if b then rbind (sync_cell_get_event c) (\<lambda>r. Inr (put_event w r (os_event_set (event_at w r))))
     else Inr w)"

text \<open>The loop stops when it has seen all reserved cells; it has no other bound than the assertion of
  \<open>sync_array_get_nth_cell\<close>.\<close>

function wake_loop :: "sync_array \<Rightarrow> nat \<Rightarrow> nat \<Rightarrow> sync_objects \<Rightarrow> sync_objects res" where
  "wake_loop arr count i w =
     (if count < n_reserved arr then
        rbind (sync_array_get_nth_cell arr i) (\<lambda>c.
        if wait_object c \<noteq> None then rbind (wake_cell w c) (\<lambda>w. wake_loop arr (count + 1) (i + 1) w)
        else wake_loop arr count (i + 1) w)
      else Inr w)"
  by pat_completeness auto

termination
  by (relation "measure (\<lambda>(arr, count, i, w). n_cells arr - i)")
    (auto simp: sync_array_get_nth_cell_def split: if_splits)

definition sync_array_wake_threads_if_sema_free_low ::
  "nat \<Rightarrow> sync_array \<Rightarrow> sync_objects \<Rightarrow> (sync_array \<times> sync_objects) res option" where
  "sync_array_wake_threads_if_sema_free_low t arr w =
     (case sync_array_enter t arr of None \<Rightarrow> None
      | Some arr \<Rightarrow> Some (rbind (wake_loop arr 0 0 w) (\<lambda>w. Inr (sync_array_exit arr, w))))"

section \<open>Deadlock detection\<close>

text \<open>The threads that can keep the thread of a waiting cell from going on, with the pass value of
  their lock.\<close>

definition blockers :: "sync_objects \<Rightarrow> sync_cell \<Rightarrow> (nat \<times> nat) list res" where
  "blockers w c =
     (case wait_object c of None \<Rightarrow> Inl NullDeref
      | Some a \<Rightarrow>
          if request_type c = SYNC_MUTEX \<or> request_type c = SYNC_PRIO_MUTEX then
            Inr (if mutex_get_lock_word (mutexes w a) \<noteq> 0
                 then (case thread_id (mutexes w a) of None \<Rightarrow> [] | Some t \<Rightarrow> [(t, 0)]) else [])
          else if request_type c = RW_LOCK_EX \<or> request_type c = PRIO_RW_LOCK_EX
              \<or> request_type c = RW_LOCK_WAIT_EX then
            Inr (map (\<lambda>d. (debug_thread d, pass d)) (filter (\<lambda>d.
              debug_type d = RW_LOCK_EX \<and> thread c \<noteq> Some (debug_thread d)
              \<or> debug_type d = RW_LOCK_WAIT_EX \<and> thread c \<noteq> Some (debug_thread d)
              \<or> debug_type d = RW_LOCK_SHARED) (debug_lists w a)))
          else if request_type c = RW_LOCK_SHARED \<or> request_type c = PRIO_RW_LOCK_SHARED then
            Inr (map (\<lambda>d. (debug_thread d, pass d)) (filter (\<lambda>d.
              debug_type d = RW_LOCK_EX \<or> debug_type d = RW_LOCK_WAIT_EX) (debug_lists w a)))
          else Inl AssertFail)"

fun deadlock_loop :: "(nat \<times> nat \<Rightarrow> bool res) \<Rightarrow> (nat \<times> nat) list \<Rightarrow> bool res" where
  "deadlock_loop step [] = Inr False"
| "deadlock_loop step (b # bs) =
     rbind (step b) (\<lambda>r. if r then Inr True else deadlock_loop step bs)"

text \<open>\<open>detect\<close> is the search from another cell.\<close>

definition sync_array_deadlock_step ::
  "(nat \<Rightarrow> bool res) \<Rightarrow> sync_array \<Rightarrow> nat \<Rightarrow> nat \<times> nat \<Rightarrow> bool res" where
  "sync_array_deadlock_step detect arr start b =
     (case b of (t, p) \<Rightarrow>
        if p \<noteq> 0 then Inr False
        else rbind (sync_array_find_thread arr t) (\<lambda>n.
          case n of None \<Rightarrow> Inr False
          | Some j \<Rightarrow> if j = start then Inr True else detect j))"

text \<open>The source asserts \<open>depth < 100\<close> and adds two to the depth per level: \<open>k\<close> is the number of levels
  that are left, 50 at the start.\<close>

fun sync_array_detect_deadlock :: "nat \<Rightarrow> sync_array \<Rightarrow> sync_objects \<Rightarrow> nat \<Rightarrow> nat \<Rightarrow> bool res" where
  "sync_array_detect_deadlock 0 arr w start i = Inl AssertFail"
| "sync_array_detect_deadlock (Suc k) arr w start i =
     rbind (aget (array arr) i) (\<lambda>c.
     if wait_object c = None then Inl AssertFail
     else if \<not> waiting c then Inr False
     else rbind (blockers w c) (\<lambda>bs.
       deadlock_loop (sync_array_deadlock_step (sync_array_detect_deadlock k arr w start) arr start) bs))"

section \<open>All arrays\<close>

record wait_system =
  sync_wait_array :: "sync_array list"
  sync_array_size :: nat
  get_count :: nat

fun create_loop :: "nat \<Rightarrow> nat \<Rightarrow> sync_array list res" where
  "create_loop n_slots 0 = Inr []"
| "create_loop n_slots (Suc k) =
     rbind (sync_array_create n_slots) (\<lambda>arr. rbind (create_loop n_slots k) (\<lambda>as. Inr (arr # as)))"

definition sync_array_init :: "nat \<Rightarrow> nat \<Rightarrow> wait_system res" where
  "sync_array_init srv_sync_array_size n_threads =
     (if srv_sync_array_size > 0 \<and> n_threads > 0 then
        rbind (create_loop (1 + (n_threads - 1) div srv_sync_array_size) srv_sync_array_size) (\<lambda>as.
        Inr \<lparr>sync_wait_array = as, sync_array_size = srv_sync_array_size, get_count = 0\<rparr>)
      else Inl AssertFail)"

definition sync_array_get :: "wait_system \<Rightarrow> nat \<times> wait_system" where
  "sync_array_get ws =
     (let i = (get_count ws + 1) mod 2 ^ 64 in (i mod sync_array_size ws, ws\<lparr>get_count := i\<rparr>))"

definition put_array :: "wait_system \<Rightarrow> nat \<Rightarrow> sync_array \<Rightarrow> wait_system" where
  "put_array ws a arr = ws\<lparr>sync_wait_array := (sync_wait_array ws)[a := arr]\<rparr>"

text \<open>The loop of \<open>sync_array_get_and_reserve_cell\<close> with \<open>k\<close> attempts left; the assertion behind the
  loop fails if there are none.\<close>

fun get_and_reserve_loop ::
  "nat \<Rightarrow> nat \<Rightarrow> lock_type \<Rightarrow> nat \<Rightarrow> wait_system \<Rightarrow> ((nat \<times> nat) \<times> wait_system) res option" where
  "get_and_reserve_loop t obj ty 0 ws = Some (Inl AssertFail)"
| "get_and_reserve_loop t obj ty (Suc k) ws =
     (case sync_array_get ws of (a, ws) \<Rightarrow>
        (case sync_array_reserve_cell t obj ty (sync_wait_array ws ! a) of
           None \<Rightarrow> None
         | Some (Inl f) \<Rightarrow> Some (Inl f)
         | Some (Inr (Some i, arr)) \<Rightarrow> Some (Inr ((a, i), put_array ws a arr))
         | Some (Inr (None, arr)) \<Rightarrow> get_and_reserve_loop t obj ty k (put_array ws a arr)))"

definition sync_array_get_and_reserve_cell ::
  "nat \<Rightarrow> nat \<Rightarrow> lock_type \<Rightarrow> wait_system \<Rightarrow> ((nat \<times> nat) \<times> wait_system) res option" where
  "sync_array_get_and_reserve_cell t obj ty ws =
     get_and_reserve_loop t obj ty (sync_array_size ws) ws"

definition sync_arr_get_n_items :: "wait_system \<Rightarrow> nat \<times> wait_system" where
  "sync_arr_get_n_items ws =
     (case sync_array_get ws of (a, ws) \<Rightarrow> (n_cells (sync_wait_array ws ! a), ws))"

definition sync_arr_get_item :: "wait_system \<Rightarrow> nat \<Rightarrow> (sync_cell option \<times> wait_system) res" where
  "sync_arr_get_item ws i =
     (case sync_array_get ws of (a, ws) \<Rightarrow>
        rbind (sync_array_get_nth_cell (sync_wait_array ws ! a) i) (\<lambda>c.
        Inr (if wait_object c \<noteq> None \<and> waiting c then Some c else None, ws)))"

fun wake_all_loop :: "nat \<Rightarrow> sync_array list \<Rightarrow> sync_objects \<Rightarrow>
    (sync_array list \<times> sync_objects) res option" where
  "wake_all_loop t [] w = Some (Inr ([], w))"
| "wake_all_loop t (arr # as) w =
     obind (sync_array_wake_threads_if_sema_free_low t arr w) (\<lambda>(arr, w).
     obind (wake_all_loop t as w) (\<lambda>(as, w). Some (Inr (arr # as, w))))"

definition sync_arr_wake_threads_if_sema_free ::
  "nat \<Rightarrow> wait_system \<Rightarrow> sync_objects \<Rightarrow> (wait_system \<times> sync_objects) res option" where
  "sync_arr_wake_threads_if_sema_free t ws w =
     obind (wake_all_loop t (sync_wait_array ws) w) (\<lambda>(as, w). Some (Inr (ws\<lparr>sync_wait_array := as\<rparr>, w)))"

fun sync_array_close :: "nat \<Rightarrow> sync_array list \<Rightarrow> unit res option" where
  "sync_array_close t [] = Some (Inr ())"
| "sync_array_close t (arr # as) = obind (sync_array_free t arr) (\<lambda>_. sync_array_close t as)"

section \<open>Threads on one array\<close>

text \<open>A thread that has reserved a cell has still to reset the event (\<open>AReset\<close>), then may wait or
  free the cell (\<open>AHas\<close>), sleeps (\<open>AWait\<close>) and frees the cell after that (\<open>AFree\<close>). \<open>AFailed\<close> is a
  thread that got no cell.\<close>

datatype apc = AIdle | AReset nat | AHas nat | AWait nat | AFree nat | AFailed

datatype aact = Reserve nat lock_type | StartWait | FreeCell | AGo nat | Wake | World sync_objects

type_synonym aconf = "sync_array \<times> sync_objects \<times> apc list"

definition lift_arr :: "sync_array res option \<Rightarrow> sync_objects \<Rightarrow> apc \<Rightarrow>
    (apc \<times> sync_array \<times> sync_objects) res option" where
  "lift_arr r w pc = map_option (\<lambda>r. rbind r (\<lambda>arr. Inr (pc, arr, w))) r"

text \<open>\<open>World\<close> is any change of the mutexes and latches by other code.\<close>

fun array_thread_step :: "aact \<Rightarrow> nat \<Rightarrow> apc \<Rightarrow> sync_array \<Rightarrow> sync_objects \<Rightarrow>
    (apc \<times> sync_array \<times> sync_objects) res option" where
  "array_thread_step (Reserve obj ty) t pc arr w =
     (if pc = AIdle \<and> ty \<noteq> RW_LOCK_NOT_LOCKED then
        map_option (\<lambda>r. rbind r (\<lambda>(i, arr).
          Inr (case i of None \<Rightarrow> AFailed | Some i \<Rightarrow> AReset i, arr, w)))
          (sync_array_reserve_cell t obj ty arr)
      else None)"
| "array_thread_step StartWait t pc arr w =
     (case pc of AHas i \<Rightarrow> lift_arr (sync_array_wait_event t i arr) w (AWait i) | _ \<Rightarrow> None)"
| "array_thread_step FreeCell t pc arr w =
     (case pc of AHas i \<Rightarrow> lift_arr (sync_array_free_cell t i arr) w AIdle
      | AFree i \<Rightarrow> lift_arr (sync_array_free_cell t i arr) w AIdle | _ \<Rightarrow> None)"
| "array_thread_step (AGo now) t pc arr w =
     (case pc of
        AReset i \<Rightarrow> Some (rbind (reserve_reset t now i arr w) (\<lambda>(arr, w). Inr (AHas i, arr, w)))
      | AWait i \<Rightarrow>
          (case cell_blocks arr w i of Inl f \<Rightarrow> Some (Inl f)
           | Inr b \<Rightarrow> if b then None else Some (Inr (AFree i, arr, w)))
      | _ \<Rightarrow> None)"
| "array_thread_step Wake t pc arr w =
     map_option (\<lambda>r. rbind r (\<lambda>(arr, w). Inr (pc, arr, w)))
       (sync_array_wake_threads_if_sema_free_low t arr w)"
| "array_thread_step (World w') t pc arr w = Some (Inr (pc, arr, w'))"

definition array_step :: "aact \<Rightarrow> nat \<Rightarrow> aconf \<Rightarrow> aconf res option" where
  "array_step a t s =
     (case s of (arr, w, ps) \<Rightarrow>
        if t < length ps then
          map_option (\<lambda>r. rbind r (\<lambda>(pc, arr, w). Inr (arr, w, ps[t := pc])))
            (array_thread_step a t (ps ! t) arr w)
        else None)"

inductive array_steps :: "aconf \<Rightarrow> aconf \<Rightarrow> bool" where
  refl: "array_steps s s"
| step: "array_steps s s' \<Longrightarrow> array_step a t s' = Some (Inr s'') \<Longrightarrow> array_steps s s''"

definition array_start :: "nat \<Rightarrow> nat \<Rightarrow> sync_objects \<Rightarrow> aconf res" where
  "array_start cells n w = rbind (sync_array_create cells) (\<lambda>arr. Inr (arr, w, replicate n AIdle))"

end
