(* ===== verification/Spec2Isabelle.thy ===== *)
theory Spec2Isabelle
  imports MvccMain MvccProgress Bakery HouseProps FlagProps UtListConc Labs WorkQueue BufPool
    MachData SyncMutexProps RwLockWake SyncArray
begin

text \<open>
  A verification development for the programs of a course on multicore programming: two
  assignments (src/Project1, src/Project2), a MariaDB server with changed lists in its storage
  engine (src/Project3), and lab exercises (src/lab1 to src/lab5).

  \<^bold>\<open>Conventions\<close> (theory \<open>Prelude\<close>). Undefined behaviour and failed assertions are values of type
  \<open>fault\<close>; a function that can fault returns \<open>fault + 'a\<close>, and a loop that need not end is a
  \<open>partial_function (option)\<close>. Linked structures live on heaps from addresses to nodes. Values
  the environment chooses (addresses from \<open>malloc\<close>, \<open>rand()\<close>, uninitialised memory, the schedule)
  are arguments. Concurrent code is a step function per thread with an explicit program
  counter; a step is one access to shared memory or one critical section, memory is
  sequentially consistent, and a run is a list of thread numbers.

  \<^bold>\<open>Project2\<close> (src/Project2/src/Project2.cpp), a store that keeps versions of each thread's values
  in a list, with a garbage collector. \<open>ActiveList\<close> models the list of active threads and its
  capture, \<open>GcQueue\<close> the queue of captured versions on a heap (its contract is the locale
  \<open>version_queue\<close>), \<open>Mvcc\<close> the functions \<open>ThreadFunc\<close>, \<open>ThreadGarvageCollectionFunc\<close> and the
  set-up in \<open>main\<close> as steps on one state, \<open>MvccMain\<close> the command line, the verbose dump and
  the report, \<open>Bakery\<close> the bakery lock. \<open>MvccInv\<close> and \<open>MvccGc\<close> prove the invariant of the
  threads and of the collector, \<open>MvccRun\<close> lifts it to runs. \<open>MvccProps\<close> shows that the two printed
  sums agree, that a reader of an active thread reads the right version while the collector
  runs, and which step can fault; \<open>MvccProgress\<close> shows that searches and updates end.

  \<^bold>\<open>Project1\<close>, distances between houses in a graph. \<open>HouseSearch\<close> and \<open>HouseMain\<close> model
  src/Project1/src/Project1.cpp: \<open>InsertEdge\<close>, \<open>Search\<close>, the input, the worker threads and the
  result; \<open>HouseBfs\<close> proves the breadth-first search, \<open>HouseProps\<close> the properties and the inputs
  on which the program goes wrong. A whole \<open>Search\<close> is one step of a thread there. \<open>FlagBfs\<close>
  models the reference solution src/Project1/project1_TA.cpp with one step per access to the
  shared marks; \<open>FlagProps\<close> shows what its threads record. \<open>Levels\<close> holds the depth of a vertex,
  which both use. The loop over the bits of a 64-bit mark has fuel 64.

  \<^bold>\<open>Project3\<close> (src/Project3/mariadb/server/storage/xtradb). \<open>UtList\<close> models the two-way list of
  include/ut0lst.h and proves it against lists (locale \<open>two_way_list\<close>); \<open>UtListConc\<close> interleaves the
  lock-free insertions that replaced the original code: they agree with it when they run
  alone, concurrent prepends to a list with elements are safe, and insertions into an empty
  list can race. \<open>WorkQueue\<close> models ut/ut0list.cc and ut/ut0wqueue.cc on the same segments
  (locale \<open>work_queue\<close>). \<open>BufPool\<close> models how buf/buf0buf.cc lays out a chunk and starts one
  thread per buffer pool instance; a whole \<open>RunThread\<close> is one step there. \<open>MachData\<close> models the
  integer formats of include/mach0data.ic on byte arrays and proves their round trips.

  The synchronisation of the storage engine is modelled from the bottom: \<open>OsEvent\<close> the events of
  os/os0sync.cc, on the 64-bit word of the source and on a record that it refines (locale
  \<open>event_semaphore\<close>); \<open>SyncMutex\<close> the spinning mutex of sync/sync0sync.cc and \<open>RwLock\<close> the read-write
  latch of sync/sync0rw.cc, each with its priority variant and as a machine with one step per
  access to a shared word. \<open>SyncMutexProps\<close> shows that the mutex excludes and that no waiter is
  left behind; \<open>RwLockProps\<close> shows that the latch excludes, what its lock word encodes and that
  it stays valid; \<open>RwLockWake\<close> shows for a regular latch that no waiter is left behind. The number
  of spinning rounds is an argument, so that all values of the setting are covered; what the
  lock word of a latch encodes needs fewer threads than \<open>X_LOCK_DECR\<close>.

  \<^bold>\<open>Labs\<close> (theory \<open>Labs\<close>): the counter of lab1 and lab2, the lock of lab3, the timers of lab5.

  \<^bold>\<open>Not modelled.\<close> Output, timers, thread creation and joining, and failures of \<open>pthread_create\<close>.
  Weak memory. Unlocked accesses of concurrent searches of Project1.cpp inside \<open>Search\<close>. The
  copy of the reference solution in src/lab4, which differs from the modelled file by an
  initialised variable and two removed ones. lab5/timer_async.cpp, which only prints, and
  lab5/timer_async_arg.cpp, which does not compile. Of MariaDB everything but the parts named
  above: the rest is the unchanged server. Of the mutexes and latches the debugging variant
  (latching order, deadlock detection), passing a latch to another thread, printing, and
  wake-ups of waiters of a priority latch.
\<close>

end
